(* ===== verification/Sponge_Prelude.thy ===== *)
theory Sponge_Prelude
  imports Main "HOL-Library.Word"
begin

text \<open>
  What the component theories share: the machine types of the C++ sources, the exceptions they
  throw, sequencing of fallible calls, and the facts that move between \<open>size_t\<close> values and list
  lengths.

  The sources are compiled for a 64-bit platform (\<open>wrapping_integers.cc\<close> shifts \<open>1ul\<close> by 32), so
  \<open>size_t\<close> and \<open>uint64_t\<close> are both \<open>64 word\<close>. A \<open>char\<close> of a \<open>std::string\<close> is a byte.
\<close>

section \<open>Machine types\<close>

type_synonym u8 = "8 word"
type_synonym u16 = "16 word"
type_synonym u32 = "32 word"
type_synonym u64 = "64 word"
type_synonym size_t = "64 word"
type_synonym bytes = "u8 list"

text \<open>
  The C++ exceptions of the modelled code, each with its \<open>what()\<close> text, and undefined behaviour
  (a read outside an array), which the model keeps visible as a value of its own. A \<open>unix_error\<close>
  has the attempted call and its \<open>errno\<close>, a \<open>tagged_error\<close> of the resolver its error code.
\<close>

datatype cpp_failure =
    out_of_range string
  | length_error string
  | invalid_argument string
  | runtime_error string
  | unix_error string int
  | tagged_error string int
  | undefined_behaviour

text \<open>Sequencing: the first failure ends the computation, as an uncaught exception does.\<close>

definition and_then :: "'e + 'a \<Rightarrow> ('a \<Rightarrow> 'e + 'b) \<Rightarrow> 'e + 'b" where
  "and_then r f = (case r of Inl e \<Rightarrow> Inl e | Inr x \<Rightarrow> f x)"

lemma and_then_simps [simp]:
  "and_then (Inl e) f = Inl e"
  "and_then (Inr x) f = f x"
  by (simp_all add: and_then_def)

lemma and_then_Inr_iff:
  "and_then r f = Inr y \<longleftrightarrow> (\<exists>x. r = Inr x \<and> f x = Inr y)"
  by (cases r) auto

lemma and_then_assoc: "and_then (and_then r f) g = and_then r (\<lambda>x. and_then (f x) g)"
  by (cases r) auto

section \<open>Sizes\<close>

text \<open>
  \<open>size_of xs\<close> is the value of \<open>xs.size()\<close>. A container of the program is \<open>addressable\<close>: its
  size is a \<open>size_t\<close>. HOL lists have no bound, so statements about sizes carry this hypothesis.
\<close>

definition size_of :: "'a list \<Rightarrow> size_t" where
  "size_of xs = of_nat (length xs)"

definition addressable :: "'a list \<Rightarrow> bool" where
  "addressable xs \<longleftrightarrow> length xs < 2 ^ 64"

text \<open>
  \<open>operator[]\<close> of a constant \<open>std::string\<close>: the position \<open>size()\<close> reads the terminating null
  byte, a position beyond it is undefined behaviour.
\<close>

definition string_index :: "bytes \<Rightarrow> size_t \<Rightarrow> cpp_failure + u8" where
  "string_index s pos =
     (if unat pos < length s then Inr (s ! unat pos)
      else if unat pos = length s then Inr 0
      else Inl undefined_behaviour)"

text \<open>\<open>std::string::resize\<close>: cut, or pad with null bytes.\<close>

definition string_resize :: "nat \<Rightarrow> bytes \<Rightarrow> bytes" where
  "string_resize n s = take n s @ replicate (n - length s) 0"

named_theorems size_simps \<open>reading size_t values as natural numbers\<close>

lemma unat_lt_64 [simp]: "unat (w :: size_t) < 2 ^ 64"
  using unsigned_less [of w] by simp

lemma unat_lt_64_num [simp]: "unat (w :: size_t) < 18446744073709551616"
  using unat_lt_64 [of w] by simp

lemma unat_of_nat_64: "n < 2 ^ 64 \<Longrightarrow> unat (of_nat n :: size_t) = n"
  by (simp add: unat_of_nat)

lemma unat_size_of [size_simps]: "addressable xs \<Longrightarrow> unat (size_of xs) = length xs"
  unfolding size_of_def addressable_def by (rule unat_of_nat_64)

lemma unat_size_of_le: "unat (size_of xs) \<le> length xs"
  by (simp add: size_of_def unat_of_nat)

lemma size_of_Nil [simp]: "size_of [] = 0"
  by (simp add: size_of_def)

lemma size_of_append [simp]: "size_of (xs @ ys) = size_of xs + size_of ys"
  by (simp add: size_of_def)

lemma addressable_Nil [simp]: "addressable []"
  by (simp add: addressable_def)

lemma addressable_mono: "addressable ys \<Longrightarrow> length xs \<le> length ys \<Longrightarrow> addressable xs"
  by (simp add: addressable_def)

lemma addressable_take [simp]: "addressable xs \<Longrightarrow> addressable (take n xs)"
  and addressable_drop [simp]: "addressable xs \<Longrightarrow> addressable (drop n xs)"
  by (simp_all add: addressable_def)

lemma take_min_length [simp]: "take (min n (length xs)) xs = take n xs"
  and drop_min_length [simp]: "drop (min n (length xs)) xs = drop n xs"
  and take_length_min [simp]: "take (min (length xs) n) xs = take n xs"
  and drop_length_min [simp]: "drop (min (length xs) n) xs = drop n xs"
  by (simp_all add: min_def)

lemma take_upt_min: "take k [i..<j] = [i..<i + min k (j - i)]"
  by (cases "i \<le> j"; cases "i + k \<le> j") (auto simp: min_def)

lemma map_nth_upt: "j \<le> length xs \<Longrightarrow> map ((!) xs) [i..<j] = drop i (take j xs)"
  by (rule nth_equalityI) auto

lemma drop_take_append_seg:
  assumes "i \<le> j" "j \<le> k"
  shows "drop i (take k xs) = drop i (take j xs) @ drop j (take k xs)"
proof -
  obtain d where k: "k = j + d" using assms(2) le_Suc_ex by blast
  show ?thesis
    using assms(1) by (cases "j \<le> length xs") (simp_all add: k take_add drop_take)
qed

lemma size_of_take_unat: "w \<le> size_of xs \<Longrightarrow> size_of (take (unat w) xs) = w"
proof -
  assume "w \<le> size_of xs"
  then have "unat w \<le> length xs"
    using unat_size_of_le [of xs] unfolding word_le_nat_alt by linarith
  then show ?thesis by (simp add: size_of_def)
qed

lemma size_of_drop_unat: "w \<le> size_of xs \<Longrightarrow> size_of (drop (unat w) xs) = size_of xs - w"
proof -
  assume "w \<le> size_of xs"
  then have "unat w \<le> length xs"
    using unat_size_of_le [of xs] unfolding word_le_nat_alt by linarith
  then show ?thesis by (simp add: size_of_def)
qed

lemma size_of_eq_0_iff: "addressable xs \<Longrightarrow> size_of xs = 0 \<longleftrightarrow> xs = []"
  by (metis length_0_conv unat_0_iff unat_size_of)

text \<open>Addition and subtraction that stay inside the width, and the unsigned order.\<close>

lemma unat_add_64 [size_simps]:
  "unat (a :: size_t) + unat b < 2 ^ 64 \<Longrightarrow> unat (a + b) = unat a + unat b"
  by (simp add: unat_word_ariths)

lemma unat_diff_64 [size_simps]: "b \<le> a \<Longrightarrow> unat ((a :: size_t) - b) = unat a - unat b"
  by (simp add: unat_sub)

lemma unat_min [size_simps]: "unat (min (a :: 'w::len word) b) = min (unat a) (unat b)"
  by (simp add: min_def word_le_nat_alt)

lemma unat_max [size_simps]: "unat (max (a :: 'w::len word) b) = max (unat a) (unat b)"
  by (simp add: max_def word_le_nat_alt)

lemma unat_Suc_64 [size_simps]: "(i :: size_t) < e \<Longrightarrow> unat (i + 1) = Suc (unat i)"
proof -
  assume "i < e"
  then have "unat i + 1 < 2 ^ 64"
    using unat_lt_64 [of e] unfolding word_less_nat_alt by linarith
  then show ?thesis by (simp add: unat_word_ariths)
qed

lemmas size_order = word_le_nat_alt word_less_nat_alt

text \<open>The narrower words.\<close>

lemma unat_lt_8: "unat (b :: u8) < 256"
  using unsigned_less [of b] by simp

lemma unat_lt_16: "unat (w :: u16) < 65536"
  using unsigned_less [of w] by simp

lemma unat_lt_32: "unat (w :: u32) < 4294967296"
  using unsigned_less [of w] by simp

lemma unat_ucast_up: "LENGTH('a) \<le> LENGTH('b) \<Longrightarrow> unat (ucast (w :: 'a::len word) :: 'b::len word) = unat w"
  by (simp add: unsigned_ucast_eq take_bit_nat_eq_self unsigned_less less_le_trans [OF unsigned_less])

lemma ucast_of_unat: "(ucast (w :: 'a::len word) :: 'b::len word) = of_nat (unat w)"
  by simp

end
