(* ===== verification/Byte_Stream.thy ===== *)
theory Byte_Stream
  imports Sponge_Prelude
begin

text \<open>
  The flow-controlled in-memory stream of \<open>libsponge/byte_stream.hh\<close> and \<open>byte_stream.cc\<close>.
\<close>

section \<open>State and operations\<close>

record ByteStream =
  bs_capacity :: size_t
  bs_buffer :: bytes
  bs_bytes_written :: size_t
  bs_bytes_read :: size_t
  bs_input_ended :: bool
  bs_error :: bool

definition ByteStream_new :: "size_t \<Rightarrow> ByteStream" where
  "ByteStream_new capacity = \<lparr>bs_capacity = capacity, bs_buffer = [], bs_bytes_written = 0,
     bs_bytes_read = 0, bs_input_ended = False, bs_error = False\<rparr>"

text \<open>The read-only accessors.\<close>

definition ByteStream_input_ended :: "ByteStream \<Rightarrow> bool" where
  [simp]: "ByteStream_input_ended s = bs_input_ended s"

definition ByteStream_error :: "ByteStream \<Rightarrow> bool" where
  [simp]: "ByteStream_error s = bs_error s"

definition ByteStream_bytes_written :: "ByteStream \<Rightarrow> size_t" where
  [simp]: "ByteStream_bytes_written s = bs_bytes_written s"

definition ByteStream_bytes_read :: "ByteStream \<Rightarrow> size_t" where
  [simp]: "ByteStream_bytes_read s = bs_bytes_read s"

definition ByteStream_buffer_size :: "ByteStream \<Rightarrow> size_t" where
  "ByteStream_buffer_size s = size_of (bs_buffer s)"

definition ByteStream_remaining_capacity :: "ByteStream \<Rightarrow> size_t" where
  "ByteStream_remaining_capacity s = bs_capacity s - ByteStream_buffer_size s"

definition ByteStream_write :: "bytes \<Rightarrow> ByteStream \<Rightarrow> size_t \<times> ByteStream" where
  "ByteStream_write data s =
     (if bs_input_ended s \<or> ByteStream_remaining_capacity s = 0 then (0, s)
      else let write_len = min (size_of data) (ByteStream_remaining_capacity s) in
        (write_len,
         s\<lparr>bs_buffer := bs_buffer s @ take (unat write_len) data,
           bs_bytes_written := bs_bytes_written s + write_len\<rparr>))"

definition ByteStream_peek_output :: "size_t \<Rightarrow> ByteStream \<Rightarrow> bytes" where
  "ByteStream_peek_output len s = take (unat (min len (size_of (bs_buffer s)))) (bs_buffer s)"

definition ByteStream_pop_output :: "size_t \<Rightarrow> ByteStream \<Rightarrow> ByteStream" where
  "ByteStream_pop_output len s =
     (let remove_count = min len (size_of (bs_buffer s)) in
        s\<lparr>bs_buffer := drop (unat remove_count) (bs_buffer s),
          bs_bytes_read := bs_bytes_read s + remove_count\<rparr>)"

definition ByteStream_read :: "size_t \<Rightarrow> ByteStream \<Rightarrow> bytes \<times> ByteStream" where
  "ByteStream_read len s =
     (let result = ByteStream_peek_output len s in
        (result, ByteStream_pop_output (size_of result) s))"

definition ByteStream_end_input :: "ByteStream \<Rightarrow> ByteStream" where
  "ByteStream_end_input s = s\<lparr>bs_input_ended := True\<rparr>"

definition ByteStream_set_error :: "ByteStream \<Rightarrow> ByteStream" where
  "ByteStream_set_error s = s\<lparr>bs_error := True\<rparr>"

definition ByteStream_buffer_empty :: "ByteStream \<Rightarrow> bool" where
  "ByteStream_buffer_empty s \<longleftrightarrow> bs_buffer s = []"

definition ByteStream_eof :: "ByteStream \<Rightarrow> bool" where
  "ByteStream_eof s \<longleftrightarrow> ByteStream_input_ended s \<and> ByteStream_buffer_empty s"

lemmas ByteStream_defs = ByteStream_buffer_size_def ByteStream_remaining_capacity_def
  ByteStream_write_def ByteStream_peek_output_def ByteStream_pop_output_def ByteStream_read_def
  ByteStream_end_input_def ByteStream_set_error_def ByteStream_buffer_empty_def ByteStream_eof_def

section \<open>The invariant\<close>

text \<open>
  The buffer never outgrows the capacity, and the two counters differ by what is buffered. The
  second equation is between machine words: it survives a wrap-around of the counters.
\<close>

definition ByteStream_ok :: "ByteStream \<Rightarrow> bool" where
  "ByteStream_ok s \<longleftrightarrow> length (bs_buffer s) \<le> unat (bs_capacity s) \<and>
     bs_bytes_written s = bs_bytes_read s + size_of (bs_buffer s)"

lemma ByteStream_ok_addressable: "ByteStream_ok s \<Longrightarrow> addressable (bs_buffer s)"
  using unat_lt_64 [of "bs_capacity s"] unfolding ByteStream_ok_def addressable_def by linarith

lemma unat_remaining_capacity [size_simps]:
  assumes "ByteStream_ok s"
  shows "unat (ByteStream_remaining_capacity s) = unat (bs_capacity s) - length (bs_buffer s)"
  using assms ByteStream_ok_addressable [OF assms]
  by (simp add: ByteStream_ok_def ByteStream_defs size_simps size_order)

lemma unat_buffer_size [size_simps]:
  "ByteStream_ok s \<Longrightarrow> unat (ByteStream_buffer_size s) = length (bs_buffer s)"
  by (simp add: ByteStream_defs size_simps ByteStream_ok_addressable)

lemma ByteStream_new_ok: "ByteStream_ok (ByteStream_new c)"
  by (simp add: ByteStream_ok_def ByteStream_new_def)

lemma ByteStream_write_ok:
  assumes "ByteStream_ok s"
  shows "ByteStream_ok (snd (ByteStream_write d s))"
proof -
  let ?n = "min (size_of d) (ByteStream_remaining_capacity s)"
  have "size_of (take (unat ?n) d) = ?n"
    by (rule size_of_take_unat) simp
  moreover have "unat ?n \<le> unat (bs_capacity s) - length (bs_buffer s)"
    using assms by (simp add: size_simps)
  ultimately show ?thesis
    using assms unfolding ByteStream_ok_def ByteStream_write_def Let_def
    by (auto simp: algebra_simps)
qed

lemma ByteStream_pop_ok:
  assumes "ByteStream_ok s"
  shows "ByteStream_ok (ByteStream_pop_output n s)"
proof -
  have "size_of (drop (unat (min n (size_of (bs_buffer s)))) (bs_buffer s))
        = size_of (bs_buffer s) - min n (size_of (bs_buffer s))"
    by (rule size_of_drop_unat) simp
  with assms show ?thesis
    unfolding ByteStream_ok_def ByteStream_pop_output_def Let_def by auto
qed

lemma ByteStream_read_ok: "ByteStream_ok s \<Longrightarrow> ByteStream_ok (snd (ByteStream_read n s))"
  by (simp add: ByteStream_read_def ByteStream_pop_ok Let_def)

lemma ByteStream_end_input_ok: "ByteStream_ok s \<Longrightarrow> ByteStream_ok (ByteStream_end_input s)"
  and ByteStream_set_error_ok: "ByteStream_ok s \<Longrightarrow> ByteStream_ok (ByteStream_set_error s)"
  by (simp_all add: ByteStream_ok_def ByteStream_defs)

lemmas ByteStream_oks = ByteStream_new_ok ByteStream_write_ok ByteStream_pop_ok
  ByteStream_read_ok ByteStream_end_input_ok ByteStream_set_error_ok

section \<open>Reachable streams\<close>

text \<open>
  Writer and reader call the operations in any order. One rule per operation that changes the
  stream.
\<close>

inductive ByteStream_step :: "ByteStream \<Rightarrow> ByteStream \<Rightarrow> bool" where
  step_write: "ByteStream_step s (snd (ByteStream_write d s))"
| step_pop: "ByteStream_step s (ByteStream_pop_output n s)"
| step_read: "ByteStream_step s (snd (ByteStream_read n s))"
| step_end_input: "ByteStream_step s (ByteStream_end_input s)"
| step_set_error: "ByteStream_step s (ByteStream_set_error s)"

inductive_cases ByteStream_stepE: "ByteStream_step s t"

lemma ByteStream_step_ok: "ByteStream_step s t \<Longrightarrow> ByteStream_ok s \<Longrightarrow> ByteStream_ok t"
  by (erule ByteStream_stepE) (simp_all add: ByteStream_oks)

text \<open>What no step changes, and what only grows.\<close>

definition ByteStream_after :: "ByteStream \<Rightarrow> ByteStream \<Rightarrow> bool" where
  "ByteStream_after s t \<longleftrightarrow> bs_capacity t = bs_capacity s \<and>
     (bs_error s \<longrightarrow> bs_error t) \<and>
     (bs_input_ended s \<longrightarrow> bs_input_ended t \<and> bs_bytes_written t = bs_bytes_written s \<and>
        (\<exists>k. bs_buffer t = drop k (bs_buffer s)))"

lemma ByteStream_after_refl: "ByteStream_after s s"
  by (auto simp: ByteStream_after_def intro: exI [of _ 0])

lemma ByteStream_after_trans: "ByteStream_after s t \<Longrightarrow> ByteStream_after t u \<Longrightarrow> ByteStream_after s u"
  by (auto simp: ByteStream_after_def)

lemma ByteStream_step_after: "ByteStream_step s t \<Longrightarrow> ByteStream_after s t"
  by (erule ByteStream_stepE) (auto simp: ByteStream_after_def ByteStream_defs Let_def intro: exI [of _ 0])

lemma ByteStream_steps_after: "ByteStream_step\<^sup>*\<^sup>* s t \<Longrightarrow> ByteStream_after s t"
  by (induction rule: rtranclp_induct)
     (blast intro: ByteStream_after_refl ByteStream_after_trans ByteStream_step_after)+

lemma ByteStream_steps_ok: "ByteStream_step\<^sup>*\<^sup>* s t \<Longrightarrow> ByteStream_ok s \<Longrightarrow> ByteStream_ok t"
  by (induction rule: rtranclp_induct) (auto dest: ByteStream_step_ok)

section \<open>The contract of a bounded byte queue\<close>

text \<open>
  What the writer (the reassembler) and the reader of a stream rely on. \<open>content\<close> is the unread
  bytes; a \<open>closed\<close> queue accepts nothing more.
\<close>

locale bounded_queue =
  fixes invar :: "'s \<Rightarrow> bool"
    and content :: "'s \<Rightarrow> bytes"
    and limit :: "'s \<Rightarrow> nat"
    and closed :: "'s \<Rightarrow> bool"
    and wr :: "bytes \<Rightarrow> 's \<Rightarrow> size_t \<times> 's"
    and rd :: "size_t \<Rightarrow> 's \<Rightarrow> bytes \<times> 's"
    and finish :: "'s \<Rightarrow> 's"
  assumes content_limit: "invar s \<Longrightarrow> length (content s) \<le> limit s"
    and invar_wr: "invar s \<Longrightarrow> invar (snd (wr d s))"
    and invar_rd: "invar s \<Longrightarrow> invar (snd (rd n s))"
    and invar_finish: "invar s \<Longrightarrow> invar (finish s)"
    and content_wr: "invar s \<Longrightarrow> content (snd (wr d s)) = content s @ take (unat (fst (wr d s))) d"
    and accepted_wr: "invar s \<Longrightarrow> addressable d \<Longrightarrow>
      unat (fst (wr d s)) = (if closed s then 0 else min (length d) (limit s - length (content s)))"
    and result_rd: "invar s \<Longrightarrow> fst (rd n s) = take (unat n) (content s)"
    and content_rd: "invar s \<Longrightarrow> content (snd (rd n s)) = drop (unat n) (content s)"
    and content_finish: "content (finish s) = content s"
    and limit_wr: "limit (snd (wr d s)) = limit s"
    and limit_rd: "limit (snd (rd n s)) = limit s"
    and limit_finish: "limit (finish s) = limit s"
    and closed_wr: "closed (snd (wr d s)) = closed s"
    and closed_rd: "closed (snd (rd n s)) = closed s"
    and closed_finish: "closed (finish s)"

text \<open>A session: a list of calls, with what the writes accepted and what the reads delivered.\<close>

datatype stream_op = Write bytes | Read size_t | EndInput

fun stream_session ::
  "(bytes \<Rightarrow> 's \<Rightarrow> size_t \<times> 's) \<Rightarrow> (size_t \<Rightarrow> 's \<Rightarrow> bytes \<times> 's) \<Rightarrow> ('s \<Rightarrow> 's)
    \<Rightarrow> stream_op list \<Rightarrow> 's \<Rightarrow> bytes \<times> bytes \<times> 's" where
  "stream_session wr rd finish [] s = ([], [], s)"
| "stream_session wr rd finish (Write d # ops) s =
     (let (n, s1) = wr d s; (acc, del, s2) = stream_session wr rd finish ops s1
      in (take (unat n) d @ acc, del, s2))"
| "stream_session wr rd finish (Read n # ops) s =
     (let (r, s1) = rd n s; (acc, del, s2) = stream_session wr rd finish ops s1
      in (acc, r @ del, s2))"
| "stream_session wr rd finish (EndInput # ops) s = stream_session wr rd finish ops (finish s)"

context bounded_queue
begin

lemmas invar_ops = invar_wr invar_rd invar_finish

lemma session_fifo:
  "invar s \<Longrightarrow> stream_session wr rd finish ops s = (acc, del, t) \<Longrightarrow>
     content s @ acc = del @ content t \<and> invar t \<and> limit t = limit s"
proof (induction ops arbitrary: s acc del t)
  case Nil
  then show ?case by simp
next
  case (Cons op ops)
  show ?case
  proof (cases op)
    case (Write d)
    obtain n s1 where w: "wr d s = (n, s1)" by fastforce
    obtain acc' del' t' where r: "stream_session wr rd finish ops s1 = (acc', del', t')"
      by (metis prod_cases3)
    have "content s1 @ acc' = del' @ content t' \<and> invar t' \<and> limit t' = limit s1"
      using Cons.IH [OF _ r] invar_wr [OF Cons.prems(1), of d] w by simp
    then show ?thesis
      using Cons.prems content_wr [OF Cons.prems(1), of d] limit_wr [of d s] w r Write by auto
  next
    case (Read n)
    obtain b s1 where w: "rd n s = (b, s1)" by fastforce
    obtain acc' del' t' where r: "stream_session wr rd finish ops s1 = (acc', del', t')"
      by (metis prod_cases3)
    have "content s1 @ acc' = del' @ content t' \<and> invar t' \<and> limit t' = limit s1"
      using Cons.IH [OF _ r] invar_rd [OF Cons.prems(1), of n] w by simp
    moreover have "content s = b @ content s1"
      using result_rd [OF Cons.prems(1), of n] content_rd [OF Cons.prems(1), of n] w by simp
    ultimately show ?thesis
      using Cons.prems limit_rd [of n s] w r Read by auto
  next
    case EndInput
    then show ?thesis
      using Cons.IH [of "finish s"] Cons.prems invar_finish content_finish limit_finish by simp
  qed
qed

lemma wr_all:
  assumes "invar s" "\<not> closed s" "addressable d" "length d \<le> limit s - length (content s)"
  shows "content (snd (wr d s)) = content s @ d" "unat (fst (wr d s)) = length d"
  using assms accepted_wr [of s d] content_wr [of s d] by simp_all

lemma wr_closed: "invar s \<Longrightarrow> closed s \<Longrightarrow> addressable d \<Longrightarrow> content (snd (wr d s)) = content s"
  using accepted_wr [of s d] content_wr [of s d] by simp

end

lemma ByteStream_write_accepts:
  assumes "ByteStream_ok s" "addressable d"
  shows "unat (fst (ByteStream_write d s)) =
    (if bs_input_ended s then 0 else min (length d) (unat (bs_capacity s) - length (bs_buffer s)))"
proof -
  have "ByteStream_remaining_capacity s = 0 \<longleftrightarrow> unat (ByteStream_remaining_capacity s) = 0"
    by (simp add: unat_0_iff)
  then show ?thesis
    using assms by (auto simp: ByteStream_write_def Let_def size_simps)
qed

lemma ByteStream_write_appends:
  "bs_buffer (snd (ByteStream_write d s)) = bs_buffer s @ take (unat (fst (ByteStream_write d s))) d"
  by (simp add: ByteStream_write_def Let_def)

lemma ByteStream_peek_eq:
  "ByteStream_ok s \<Longrightarrow> ByteStream_peek_output n s = take (unat n) (bs_buffer s)"
  by (simp add: ByteStream_peek_output_def size_simps ByteStream_ok_addressable)

lemma ByteStream_pop_eq:
  "ByteStream_ok s \<Longrightarrow> bs_buffer (ByteStream_pop_output n s) = drop (unat n) (bs_buffer s)"
  by (simp add: ByteStream_pop_output_def size_simps ByteStream_ok_addressable)

lemma ByteStream_read_eq:
  assumes "ByteStream_ok s"
  shows "fst (ByteStream_read n s) = take (unat n) (bs_buffer s)"
    and "bs_buffer (snd (ByteStream_read n s)) = drop (unat n) (bs_buffer s)"
proof -
  have a: "addressable (take (unat n) (bs_buffer s))"
    using ByteStream_ok_addressable [OF assms] by simp
  show "fst (ByteStream_read n s) = take (unat n) (bs_buffer s)"
    by (simp add: ByteStream_read_def ByteStream_peek_eq assms Let_def)
  show "bs_buffer (snd (ByteStream_read n s)) = drop (unat n) (bs_buffer s)"
    using a by (simp add: ByteStream_read_def ByteStream_peek_eq ByteStream_pop_eq assms Let_def
        size_simps)
qed

lemma ByteStream_read_counts:
  assumes "ByteStream_ok s"
  shows "bs_bytes_read (snd (ByteStream_read n s)) = bs_bytes_read s + size_of (fst (ByteStream_read n s))"
proof -
  have a: "addressable (bs_buffer s)" by (rule ByteStream_ok_addressable [OF assms])
  have "size_of (take (unat n) (bs_buffer s)) \<le> size_of (bs_buffer s)"
    using a by (simp add: word_le_nat_alt unat_size_of)
  then show ?thesis
    by (simp add: ByteStream_read_def ByteStream_pop_output_def ByteStream_peek_eq assms Let_def min_def)
qed

lemma ByteStream_read_frame [simp]:
  "bs_capacity (snd (ByteStream_read n s)) = bs_capacity s"
  "bs_bytes_written (snd (ByteStream_read n s)) = bs_bytes_written s"
  "bs_input_ended (snd (ByteStream_read n s)) = bs_input_ended s"
  by (simp_all add: ByteStream_read_def ByteStream_pop_output_def Let_def)

lemma ByteStream_write_frame [simp]:
  "bs_capacity (snd (ByteStream_write d s)) = bs_capacity s"
  "bs_bytes_read (snd (ByteStream_write d s)) = bs_bytes_read s"
  "bs_input_ended (snd (ByteStream_write d s)) = bs_input_ended s"
  by (simp_all add: ByteStream_write_def Let_def)

lemma ByteStream_write_counts:
  "bs_bytes_written (snd (ByteStream_write d s)) = bs_bytes_written s + fst (ByteStream_write d s)"
  by (simp add: ByteStream_write_def Let_def)

interpretation stream: bounded_queue ByteStream_ok bs_buffer "\<lambda>s. unat (bs_capacity s)"
  bs_input_ended ByteStream_write ByteStream_read ByteStream_end_input
proof unfold_locales
  fix s d n
  show "ByteStream_ok s \<Longrightarrow> length (bs_buffer s) \<le> unat (bs_capacity s)"
    by (simp add: ByteStream_ok_def)
  show "ByteStream_ok s \<Longrightarrow> addressable d \<Longrightarrow> unat (fst (ByteStream_write d s)) =
      (if bs_input_ended s then 0 else min (length d) (unat (bs_capacity s) - length (bs_buffer s)))"
    by (rule ByteStream_write_accepts)
qed (simp_all add: ByteStream_oks ByteStream_read_eq ByteStream_write_appends,
     simp_all add: ByteStream_defs Let_def)

section \<open>Properties\<close>

text \<open>
  Claim C21. Whatever calls the writer and the reader make, a stream built with capacity \<open>c\<close> never
  buffers more than \<open>c\<close> bytes, its counters differ by exactly what is buffered, and
  \<open>remaining_capacity()\<close> is the free space: its subtraction never wraps around.
\<close>

theorem ByteStream_capacity_respected:
  assumes "ByteStream_step\<^sup>*\<^sup>* (ByteStream_new c) s"
  shows "length (bs_buffer s) \<le> unat c \<and>
    ByteStream_bytes_written s = ByteStream_bytes_read s + ByteStream_buffer_size s \<and>
    unat (ByteStream_remaining_capacity s) + length (bs_buffer s) = unat c"
proof -
  have ok: "ByteStream_ok s"
    using assms ByteStream_new_ok by (rule ByteStream_steps_ok)
  moreover have cap: "bs_capacity s = c"
    using ByteStream_steps_after [OF assms] by (simp add: ByteStream_after_def ByteStream_new_def)
  ultimately show ?thesis
    by (auto simp: ByteStream_ok_def ByteStream_buffer_size_def unat_remaining_capacity [OF ok])
qed

theorem ByteStream_capacity_respected_witness:
  "ByteStream_step\<^sup>*\<^sup>* (ByteStream_new 2) (snd (ByteStream_write [1, 2, 3] (ByteStream_new 2))) \<and>
   length (bs_buffer (snd (ByteStream_write [1, 2, 3] (ByteStream_new 2)))) \<le> 2"
proof -
  have r: "ByteStream_step\<^sup>*\<^sup>* (ByteStream_new 2) (snd (ByteStream_write [1, 2, 3] (ByteStream_new 2)))"
    by (rule r_into_rtranclp, rule step_write)
  show ?thesis using r ByteStream_capacity_respected [OF r] by simp
qed

text \<open>
  Claim C9. The stream is a lossless queue: in every session of writes, reads and \<open>end_input\<close> on a
  fresh stream, the bytes the writes reported as accepted are, in order, the bytes the reads
  delivered followed by what is still buffered.
\<close>

theorem ByteStream_fifo:
  assumes "stream_session ByteStream_write ByteStream_read ByteStream_end_input ops (ByteStream_new c)
    = (accepted, delivered, s)"
  shows "accepted = delivered @ bs_buffer s \<and> length (bs_buffer s) \<le> unat c"
  using stream.session_fifo [OF ByteStream_new_ok assms] stream.content_limit [of s]
  by (simp add: ByteStream_new_def)

theorem ByteStream_fifo_witness:
  "\<exists>accepted delivered s. stream_session ByteStream_write ByteStream_read ByteStream_end_input
     [Write [1, 2, 3], Read 1, Write [4, 5], EndInput, Write [6]] (ByteStream_new 2)
       = (accepted, delivered, s) \<and> accepted = [1, 2, 4] \<and> delivered = [1] \<and>
     accepted = delivered @ bs_buffer s \<and> length (bs_buffer s) \<le> unat (2 :: size_t)"
proof -
  define r where "r = stream_session ByteStream_write ByteStream_read ByteStream_end_input
     [Write [1, 2, 3], Read 1, Write [4, 5], EndInput, Write [6]] (ByteStream_new 2)"
  obtain a d s where r: "r = (a, d, s)" by (metis prod_cases3)
  have "fst r = [1, 2, 4]" "fst (snd r) = [1]"
    unfolding r_def by code_simp+
  with r have "a = [1, 2, 4]" "d = [1]" by simp_all
  with ByteStream_fifo [OF r [unfolded r_def]] r show ?thesis
    unfolding r_def by blast
qed

text \<open>
  Claim C37. Once \<open>end_input()\<close> has been called the input stays ended and nothing more is ever
  written; the buffer can only be drained from the front, and a stream at \<open>eof()\<close> stays there.
\<close>

theorem ByteStream_ended_is_final:
  assumes "ByteStream_step\<^sup>*\<^sup>* s t" and "ByteStream_input_ended s"
  shows "ByteStream_input_ended t \<and> ByteStream_bytes_written t = ByteStream_bytes_written s \<and>
    (\<exists>k. bs_buffer t = drop k (bs_buffer s)) \<and> (ByteStream_eof s \<longrightarrow> ByteStream_eof t)"
  using ByteStream_steps_after [OF assms(1)] assms(2)
  by (auto simp: ByteStream_after_def ByteStream_eof_def ByteStream_buffer_empty_def)

theorem ByteStream_ended_is_final_witness:
  "ByteStream_input_ended (snd (ByteStream_write [7] (ByteStream_end_input (ByteStream_new 4)))) \<and>
   ByteStream_bytes_written (snd (ByteStream_write [7] (ByteStream_end_input (ByteStream_new 4)))) = 0"
proof -
  have r: "ByteStream_step\<^sup>*\<^sup>* (ByteStream_end_input (ByteStream_new 4))
      (snd (ByteStream_write [7] (ByteStream_end_input (ByteStream_new 4))))"
    by (rule r_into_rtranclp, rule step_write)
  have e: "ByteStream_input_ended (ByteStream_end_input (ByteStream_new 4))"
    by (simp add: ByteStream_end_input_def)
  show ?thesis
    using ByteStream_ended_is_final [OF r e]
    by (simp add: ByteStream_end_input_def ByteStream_new_def)
qed

end
