(* ===== verification/Stream_Reassembler.thy ===== *)
theory Stream_Reassembler
  imports Byte_Stream "HOL-Library.AList_Mapping"
begin

text \<open>
  Reassembly of out-of-order, possibly overlapping substrings into a byte stream:
  \<open>libsponge/stream_reassembler.hh\<close> and \<open>stream_reassembler.cc\<close>.
\<close>

section \<open>State and operations\<close>

text \<open>\<open>_unassembled\<close> is a \<open>std::map\<close> from a stream index to a string (of one byte).\<close>

type_synonym fragments = "(size_t, bytes) mapping"

record StreamReassembler =
  sr_output :: ByteStream
  sr_capacity :: size_t
  sr_next_byte_index :: size_t
  sr_last_reassembler_size :: size_t
  sr_unassembled :: fragments
  sr_eof_flag :: bool
  sr_eof_index :: size_t

definition StreamReassembler_new :: "size_t \<Rightarrow> StreamReassembler" where
  "StreamReassembler_new capacity = \<lparr>sr_output = ByteStream_new capacity, sr_capacity = capacity,
     sr_next_byte_index = 0, sr_last_reassembler_size = 0, sr_unassembled = Mapping.empty,
     sr_eof_flag = False, sr_eof_index = 0\<rparr>"

text \<open>The \<open>for\<close> loop of \<open>push_substring\<close> that stores the bytes not held yet.\<close>

function sr_store ::
  "size_t \<Rightarrow> size_t \<Rightarrow> size_t \<Rightarrow> bytes \<Rightarrow> fragments \<Rightarrow> cpp_failure + fragments" where
  "sr_store i end_pos index data m =
     (if i < end_pos then
        if Mapping.lookup m i = None then
          and_then (string_index data (i - index))
            (\<lambda>c. sr_store (i + 1) end_pos index data (Mapping.update i [c] m))
        else sr_store (i + 1) end_pos index data m
      else Inr m)"
  by pat_completeness auto
termination
  by (relation "measure (\<lambda>(i, e, _). unat e - unat i)")
     (auto simp: unat_Suc_64 word_less_nat_alt)

declare sr_store.simps [simp del]

text \<open>
  The \<open>while\<close> loop that moves the bytes from the first unassembled index on into \<open>curAssemble\<close>.
  Every round erases a key, so it ends.
\<close>

function sr_drain :: "size_t \<Rightarrow> bytes \<Rightarrow> fragments \<Rightarrow> bytes \<times> fragments" where
  "sr_drain cur curAssemble m =
     (case Mapping.lookup m cur of
        None \<Rightarrow> (curAssemble, m)
      | Some c \<Rightarrow> sr_drain (cur + 1) (curAssemble @ c) (Mapping.delete cur m))"
  by pat_completeness auto
termination
proof (relation "measure (\<lambda>(_, _, m). card (Mapping.keys m))")
  fix cur :: size_t and m :: fragments and c :: bytes
  assume "Mapping.lookup m cur = Some c"
  then have "cur \<in> Mapping.keys m" by (simp add: keys_dom_lookup domI)
  then have "0 < card (Mapping.keys m)" by (auto simp: card_gt_0_iff)
  then show "((cur + 1, curAssemble @ c, Mapping.delete cur m), cur, curAssemble, m)
      \<in> measure (\<lambda>(_, _, m). card (Mapping.keys m))" for curAssemble
    using \<open>cur \<in> Mapping.keys m\<close> by simp
qed simp

declare sr_drain.simps [simp del]

definition StreamReassembler_push_substring ::
  "bytes \<Rightarrow> size_t \<Rightarrow> bool \<Rightarrow> StreamReassembler \<Rightarrow> cpp_failure + StreamReassembler" where
  "StreamReassembler_push_substring data index eof r =
     (let max_pos = ByteStream_bytes_read (sr_output r) + sr_capacity r;
          min_pos = ByteStream_bytes_written (sr_output r)
      in if \<not> size_of data = 0 \<and> index + size_of data \<le> min_pos \<or> max_pos \<le> index then Inr r
         else
           let r = (if eof then r\<lparr>sr_eof_index := index + size_of data, sr_eof_flag := True\<rparr> else r);
               start = max index min_pos;
               end_pos = min (index + size_of data) max_pos
           in and_then (sr_store start end_pos index data (sr_unassembled r))
             (\<lambda>m. let (curAssemble, m') = sr_drain (ByteStream_bytes_written (sr_output r)) [] m;
                      out = (if curAssemble \<noteq> [] then snd (ByteStream_write curAssemble (sr_output r))
                             else sr_output r);
                      out = (if sr_eof_flag r \<and> ByteStream_bytes_written out = sr_eof_index r
                             then ByteStream_end_input out else out)
                  in Inr (r\<lparr>sr_unassembled := m', sr_output := out\<rparr>)))"

definition StreamReassembler_unassembled_bytes :: "StreamReassembler \<Rightarrow> size_t" where
  "StreamReassembler_unassembled_bytes r = of_nat (Mapping.size (sr_unassembled r))"

definition StreamReassembler_empty :: "StreamReassembler \<Rightarrow> bool" where
  "StreamReassembler_empty r \<longleftrightarrow> Mapping.is_empty (sr_unassembled r)"

text \<open>
  \<open>stream_out()\<close> hands out a reference to the output stream; a reader uses it to call \<open>read\<close>.
\<close>

definition StreamReassembler_stream_out :: "StreamReassembler \<Rightarrow> ByteStream" where
  "StreamReassembler_stream_out r = sr_output r"

definition StreamReassembler_read :: "size_t \<Rightarrow> StreamReassembler \<Rightarrow> bytes \<times> StreamReassembler" where
  "StreamReassembler_read n r =
     (let (b, out) = ByteStream_read n (StreamReassembler_stream_out r) in (b, r\<lparr>sr_output := out\<rparr>))"

section \<open>The two loops\<close>

lemma string_index_less: "unat pos < length s \<Longrightarrow> string_index s pos = Inr (s ! unat pos)"
  by (simp add: string_index_def)

lemma sr_store_spec:
  assumes "\<And>j. i \<le> j \<Longrightarrow> j < e \<Longrightarrow> unat (j - index) < length data"
  shows "\<exists>m'. sr_store i e index data m = Inr m' \<and>
    (\<forall>j. Mapping.lookup m' j =
       (if Mapping.lookup m j = None \<and> i \<le> j \<and> j < e then Some [data ! unat (j - index)]
        else Mapping.lookup m j))"
  using assms
proof (induction i e index data m rule: sr_store.induct)
  case (1 i e index data m)
  show ?case
  proof (cases "i < e")
    case False
    then show ?thesis by (auto simp: sr_store.simps [of i e])
  next
    case True
    have step: "i \<le> j \<longleftrightarrow> j = i \<or> i + 1 \<le> j" for j
      using unat_Suc_64 [OF True] by (auto simp: size_order word_unat_eq_iff)
    have prems': "\<And>j. i + 1 \<le> j \<Longrightarrow> j < e \<Longrightarrow> unat (j - index) < length data"
      using "1.prems" step by blast
    have at_i: "string_index data (i - index) = Inr (data ! unat (i - index))"
      using "1.prems" [of i] True by (simp add: string_index_less)
    have ni: "\<not> i + 1 \<le> i" using unat_Suc_64 [OF True] by (simp add: size_order)
    show ?thesis
    proof (cases "Mapping.lookup m i")
      case None
      let ?c = "data ! unat (i - index)"
      obtain m' where "sr_store (i + 1) e index data (Mapping.update i [?c] m) = Inr m'"
        and m': "\<And>j. Mapping.lookup m' j =
          (if Mapping.lookup (Mapping.update i [?c] m) j = None \<and> i + 1 \<le> j \<and> j < e
           then Some [data ! unat (j - index)] else Mapping.lookup (Mapping.update i [?c] m) j)"
        using "1.IH"(1) [OF True None prems', of ?c] by blast
      then have "sr_store i e index data m = Inr m'"
        using True None by (simp add: sr_store.simps [of i e] at_i)
      moreover have "Mapping.lookup m' j =
          (if Mapping.lookup m j = None \<and> i \<le> j \<and> j < e then Some [data ! unat (j - index)]
           else Mapping.lookup m j)" for j
        using None True ni by (cases "j = i") (simp_all add: m' step)
      ultimately show ?thesis by blast
    next
      case (Some v)
      with "1.IH"(2) [OF True _ prems'] True ni show ?thesis
        unfolding sr_store.simps [of i e] by (auto simp: step)
    qed
  qed
qed

text \<open>
  The bounds the caller passes keep every read inside \<open>data\<close>, also where \<open>index + data.length()\<close>
  wraps around: the range is then empty.
\<close>

lemma sr_store_in_bounds:
  assumes "max index lo \<le> j" and "j < min (index + size_of data) hi"
  shows "unat (j - index) < length data"
proof -
  have ij: "index \<le> j" and jl: "j < index + size_of data" using assms by auto
  have "unat (index + size_of data) \<le> unat index + unat (size_of data)"
    by (simp add: unat_word_ariths)
  then have "unat j < unat index + length data"
    using jl unat_size_of_le [of data] unfolding word_less_nat_alt by linarith
  then show ?thesis using ij by (simp add: unat_diff_64 word_le_nat_alt less_diff_conv2)
qed

lemma sr_store_window:
  "\<exists>m'. sr_store (max index lo) (min (index + size_of data) hi) index data m = Inr m' \<and>
    (\<forall>j. Mapping.lookup m' j =
       (if Mapping.lookup m j = None \<and> max index lo \<le> j \<and> j < min (index + size_of data) hi
        then Some [data ! unat (j - index)] else Mapping.lookup m j))"
  by (rule sr_store_spec) (rule sr_store_in_bounds)

lemma sr_drain_spec:
  "\<exists>k. fst (sr_drain cur acc m) = acc @ concat (map (\<lambda>j. the (Mapping.lookup m (cur + of_nat j))) [0..<k]) \<and>
     (\<forall>j<k. Mapping.lookup m (cur + of_nat j) \<noteq> None) \<and>
     Mapping.lookup (snd (sr_drain cur acc m)) (cur + of_nat k) = None \<and>
     (\<forall>i. Mapping.lookup (snd (sr_drain cur acc m)) i =
        (if \<exists>j<k. i = cur + of_nat j then None else Mapping.lookup m i))"
proof (induction cur acc m rule: sr_drain.induct)
  case (1 cur acc m)
  show ?case
  proof (cases "Mapping.lookup m cur")
    case None
    then show ?thesis by (intro exI [of _ 0]) (simp add: sr_drain.simps [of cur])
  next
    case (Some c)
    let ?m = "Mapping.delete cur m" and ?d = "sr_drain (cur + 1) (acc @ c) (Mapping.delete cur m)"
    have unfold: "sr_drain cur acc m = ?d" using Some by (simp add: sr_drain.simps [of cur])
    obtain k where acc: "fst ?d =
          acc @ c @ concat (map (\<lambda>j. the (Mapping.lookup ?m (cur + 1 + of_nat j))) [0..<k])"
      and run: "\<forall>j<k. Mapping.lookup ?m (cur + 1 + of_nat j) \<noteq> None"
      and stop: "Mapping.lookup (snd ?d) (cur + 1 + of_nat k) = None"
      and rest: "\<forall>i. Mapping.lookup (snd ?d) i =
        (if \<exists>j<k. i = cur + 1 + of_nat j then None else Mapping.lookup ?m i)"
      using "1.IH" [OF Some] by auto
    have shift: "cur + 1 + of_nat j = cur + of_nat (Suc j)" for j by simp
    have same: "Mapping.lookup ?m (cur + of_nat (Suc j)) = Mapping.lookup m (cur + of_nat (Suc j))"
      if "j < k" for j
      using run that lookup_delete [of cur m] lookup_delete_neq [of cur _ m] unfolding shift
      by metis
    have eq: "map (\<lambda>j. the (Mapping.lookup ?m (cur + of_nat (Suc j)))) [0..<k]
        = map (\<lambda>j. the (Mapping.lookup m (cur + of_nat (Suc j)))) [0..<k]"
      using same by (simp del: of_nat_Suc)
    show ?thesis
    proof (intro exI [of _ "Suc k"] conjI allI impI)
      show "fst (sr_drain cur acc m) = acc @
          concat (map (\<lambda>j. the (Mapping.lookup m (cur + of_nat j))) [0..<Suc k])"
        unfolding unfold acc shift eq map_upt_Suc using Some by simp
      fix j assume "j < Suc k"
      then show "Mapping.lookup m (cur + of_nat j) \<noteq> None"
        using run same Some unfolding shift by (cases j) auto
    next
      show "Mapping.lookup (snd (sr_drain cur acc m)) (cur + of_nat (Suc k)) = None"
        using stop unfolding unfold shift .
      fix i
      have "(\<exists>j<Suc k. i = cur + of_nat j) \<longleftrightarrow> i = cur \<or> (\<exists>j<k. i = cur + of_nat (Suc j))"
        by (auto simp: less_Suc_eq_0_disj)
      then show "Mapping.lookup (snd (sr_drain cur acc m)) i =
          (if \<exists>j<Suc k. i = cur + of_nat j then None else Mapping.lookup m i)"
        unfolding unfold using rest [rule_format, of i] unfolding shift by auto
    qed
  qed
qed

section \<open>The abstract reassembler\<close>

text \<open>
  Abstractly a reassembler is the set of bytes received so far, each at its place in the stream:
  a map \<open>M\<close> from stream positions to bytes. Receiving a substring adds the bytes that are new and
  inside the window; the stream delivers the longest prefix without a gap.
\<close>

definition receive :: "bytes \<Rightarrow> nat \<Rightarrow> nat \<Rightarrow> (nat \<rightharpoonup> u8) \<Rightarrow> (nat \<rightharpoonup> u8)" where
  "receive data idx limit M = (\<lambda>n. case M n of Some b \<Rightarrow> Some b
     | None \<Rightarrow> if idx \<le> n \<and> n < idx + length data \<and> n < limit then Some (data ! (n - idx)) else None)"

lemma receive_Some: "M n = Some b \<Longrightarrow> receive data idx limit M n = Some b"
  by (simp add: receive_def)

lemma receive_same:
  "(\<And>n. idx \<le> n \<Longrightarrow> n < idx + length data \<Longrightarrow> n < limit \<Longrightarrow> M n \<noteq> None) \<Longrightarrow> receive data idx limit M = M"
  by (fastforce simp: receive_def fun_eq_iff split: option.split)

lemma dom_receive:
  "dom (receive data idx limit M) = dom M \<union> {idx..<min (idx + length data) limit}"
  by (auto simp: receive_def dom_def split: option.splits if_splits)

lemma dom_receive_limit: "dom M \<subseteq> {..<lim} \<Longrightarrow> dom (receive data idx lim M) \<subseteq> {..<lim}"
  by (auto simp: dom_receive)

lemma receive_known: "M n \<noteq> None \<Longrightarrow> receive data idx limit M n = M n"
  by (auto simp: receive_def)

text \<open>\<open>frag m\<close> reads the map of fragments by natural positions.\<close>

definition frag :: "fragments \<Rightarrow> nat \<Rightarrow> u8 option" where
  "frag m n = (if n < 2 ^ 64 then map_option hd (Mapping.lookup m (of_nat n)) else None)"

definition frags_from :: "nat \<Rightarrow> (nat \<rightharpoonup> u8) \<Rightarrow> fragments \<Rightarrow> bool" where
  "frags_from w N m \<longleftrightarrow> (\<forall>i v. Mapping.lookup m i = Some v \<longrightarrow> length v = 1) \<and>
     (\<forall>n. frag m n = (if n < w then None else N n))"

lemma frags_from_lookup:
  assumes "frags_from w N m" and "n < 2 ^ 64"
  shows "Mapping.lookup m (of_nat n) = (if n < w then None else map_option (\<lambda>b. [b]) (N n))"
proof -
  have "map_option hd (Mapping.lookup m (of_nat n)) = (if n < w then None else N n)"
    using assms(1) [unfolded frags_from_def, THEN conjunct2, rule_format, of n] assms(2)
    by (simp add: frag_def)
  moreover have "\<exists>b. v = [b]" if "Mapping.lookup m (of_nat n) = Some v" for v
  proof -
    have "length v = 1" using assms(1) that unfolding frags_from_def by blast
    then show ?thesis by (cases v) auto
  qed
  ultimately show ?thesis
    by (cases "Mapping.lookup m (of_nat n)"; cases "N n") (fastforce split: if_splits)+
qed

lemma frags_fromI:
  assumes "\<And>n. n < 2 ^ 64 \<Longrightarrow>
      Mapping.lookup m (of_nat n) = (if n < w then None else map_option (\<lambda>b. [b]) (N n))"
    and "dom N \<subseteq> {..<2 ^ 64}"
  shows "frags_from w N m"
proof -
  have "length v = 1" if "Mapping.lookup m i = Some v" for i v
    using assms(1) [of "unat i"] that by (cases "N (unat i)") (auto split: if_splits)
  moreover have "frag m n = (if n < w then None else N n)" for n
  proof (cases "n < 2 ^ 64")
    case True
    then show ?thesis unfolding frag_def assms(1) [OF True] by (simp add: option.map_comp o_def option.map_ident)
  next
    case False
    then have "N n = None" using assms(2) by auto
    with False show ?thesis by (simp add: frag_def)
  qed
  ultimately show ?thesis unfolding frags_from_def by blast
qed

lemma frags_from_store:
  assumes m: "frags_from w M m" and idx: "unat index + length data < 2 ^ 64"
    and dom: "dom M \<subseteq> {..<lim}" and lim: "lim < 2 ^ 64" and w: "w < 2 ^ 64"
  obtains m' where
    "sr_store (max index (of_nat w)) (min (index + size_of data) (of_nat lim)) index data m = Inr m'"
    and "frags_from w (receive data (unat index) lim M) m'"
proof -
  let ?i = "max index (of_nat w)" and ?e = "min (index + size_of data) (of_nat lim)"
  obtain m' where st: "sr_store ?i ?e index data m = Inr m'"
    and m': "\<And>j. Mapping.lookup m' j =
       (if Mapping.lookup m j = None \<and> ?i \<le> j \<and> j < ?e then Some [data ! unat (j - index)]
        else Mapping.lookup m j)"
    using sr_store_window [of index "of_nat w" data "of_nat lim" m] by blast
  have ad: "addressable data" using idx by (simp add: addressable_def)
  have i: "unat ?i = max (unat index) w" and e: "unat ?e = min (unat index + length data) lim"
    using idx lim w by (simp_all add: size_simps ad unat_of_nat_64)
  have "frags_from w (receive data (unat index) lim M) m'"
  proof (rule frags_fromI)
    fix n :: nat assume n: "n < 2 ^ 64"
    have "?i \<le> of_nat n \<and> of_nat n < ?e \<longleftrightarrow>
        unat index \<le> n \<and> w \<le> n \<and> n < unat index + length data \<and> n < lim"
      using n by (auto simp: size_order i e unat_of_nat_64)
    moreover have "unat (of_nat n - index) = n - unat index" if "unat index \<le> n"
      using n that by (simp add: unat_diff_64 word_le_nat_alt unat_of_nat_64)
    ultimately show "Mapping.lookup m' (of_nat n) =
        (if n < w then None else map_option (\<lambda>b. [b]) (receive data (unat index) lim M n))"
      unfolding m' frags_from_lookup [OF m n] receive_def by (auto split: option.split)
  next
    show "dom (receive data (unat index) lim M) \<subseteq> {..<2 ^ 64}"
      using dom lim by (auto simp: dom_receive)
  qed
  then show ?thesis using st that by blast
qed

lemma drained_bytes:
  assumes "\<And>j. j < k \<Longrightarrow> Mapping.lookup m (of_nat w + of_nat j) = Some [the (N (w + j))]"
  shows "concat (map (\<lambda>j. the (Mapping.lookup m (of_nat w + of_nat j))) [0..<k]) = map (the \<circ> N) [w..<w + k]"
proof -
  have "map (\<lambda>j. the (Mapping.lookup m (of_nat w + of_nat j))) [0..<k] = map (\<lambda>j. [the (N (w + j))]) [0..<k]"
    by (intro map_cong) (auto simp: assms)
  moreover have "map (the \<circ> N) [w..<w + k] = map (\<lambda>j. the (N (w + j))) [0..<k]"
    by (simp add: map_add_upt [symmetric] add.commute)
  ultimately show ?thesis by (simp only: concat_map_singleton)
qed

lemma frags_from_drain:
  assumes m: "frags_from w N m" and dom: "dom N \<subseteq> {..<lim}" and lim: "w \<le> lim" "lim < 2 ^ 64"
  obtains k where "w + k \<le> lim" and "\<And>n. w \<le> n \<Longrightarrow> n < w + k \<Longrightarrow> N n \<noteq> None" and "N (w + k) = None"
    and "fst (sr_drain (of_nat w) [] m) = map (the \<circ> N) [w..<w + k]"
    and "frags_from (w + k) N (snd (sr_drain (of_nat w) [] m))"
proof -
  let ?d = "sr_drain (of_nat w) [] m"
  have look: "Mapping.lookup m (of_nat w + of_nat j) = map_option (\<lambda>b. [b]) (N (w + j))"
    if "w + j < 2 ^ 64" for j
    using frags_from_lookup [OF m that] by simp
  obtain k where acc: "fst ?d = concat (map (\<lambda>j. the (Mapping.lookup m (of_nat w + of_nat j))) [0..<k])"
    and run: "\<And>j. j < k \<Longrightarrow> Mapping.lookup m (of_nat w + of_nat j) \<noteq> None"
    and stop: "Mapping.lookup (snd ?d) (of_nat w + of_nat k) = None"
    and rest: "\<And>i. Mapping.lookup (snd ?d) i =
        (if \<exists>j<k. i = of_nat w + of_nat j then None else Mapping.lookup m i)"
    using sr_drain_spec [of "of_nat w" "[]" m] by auto
  have k: "w + k \<le> lim"
  proof (rule ccontr)
    assume "\<not> w + k \<le> lim"
    then have "Mapping.lookup m (of_nat w + of_nat (lim - w)) \<noteq> None"
      using run [of "lim - w"] lim by simp
    then have "N lim \<noteq> None" using look [of "lim - w"] lim by simp
    then show False using dom by auto
  qed
  have inside: "n < 2 ^ 64 \<Longrightarrow> (\<exists>j<k. of_nat n = (of_nat w + of_nat j :: size_t)) \<longleftrightarrow> w \<le> n \<and> n < w + k"
    for n
    using k lim by (force simp: of_nat_add [symmetric] word_unat_eq_iff unat_of_nat_64
        simp del: of_nat_add intro: exI [of _ "n - w"])
  have filled: "N n \<noteq> None" if "w \<le> n" "n < w + k" for n
    using run [of "n - w"] look [of "n - w"] that k lim by auto
  have gap: "N (w + k) = None"
    using stop rest [of "of_nat w + of_nat k"] inside [of "w + k"] look [of k] k lim
    by (auto split: if_splits)
  have "Mapping.lookup m (of_nat w + of_nat j) = Some [the (N (w + j))]" if "j < k" for j
    using filled [of "w + j"] look [of j] that k lim by auto
  then have "fst ?d = map (the \<circ> N) [w..<w + k]" unfolding acc by (rule drained_bytes)
  moreover have "frags_from (w + k) N (snd ?d)"
    using dom lim by (intro frags_fromI) (auto simp: rest inside frags_from_lookup [OF m])
  ultimately show ?thesis using that k filled gap by blast
qed

section \<open>Refinement\<close>

abbreviation sr_written :: "StreamReassembler \<Rightarrow> nat" where
  "sr_written r \<equiv> unat (bs_bytes_written (sr_output r))"

abbreviation sr_read :: "StreamReassembler \<Rightarrow> nat" where
  "sr_read r \<equiv> unat (bs_bytes_read (sr_output r))"

text \<open>The first position after the window; it must be a \<open>size_t\<close>.\<close>

definition sr_limit :: "StreamReassembler \<Rightarrow> nat" where
  "sr_limit r = sr_read r + unat (sr_capacity r)"

definition sr_ended :: "StreamReassembler \<Rightarrow> bool" where
  "sr_ended r = bs_input_ended (sr_output r)"

text \<open>
  \<open>sr_rep r M\<close>: the reassembler \<open>r\<close> represents the abstract state \<open>M\<close>. The bytes below
  \<open>bytes_written()\<close> are complete, the next one is missing, the unread ones are in the stream's
  buffer and those behind the gap are the fragments, all inside the window.
\<close>

definition sr_rep :: "StreamReassembler \<Rightarrow> (nat \<rightharpoonup> u8) \<Rightarrow> bool" where
  "sr_rep r M \<longleftrightarrow>
     ByteStream_ok (sr_output r) \<and> bs_capacity (sr_output r) = sr_capacity r \<and>
     sr_limit r < 2 ^ 64 \<and> dom M \<subseteq> {..< sr_limit r} \<and>
     (\<forall>n < sr_written r. M n \<noteq> None) \<and> M (sr_written r) = None \<and>
     bs_buffer (sr_output r) = map (the \<circ> M) [sr_read r..< sr_written r] \<and>
     frags_from (sr_written r) M (sr_unassembled r)"

lemma sr_repD:
  assumes "sr_rep r M"
  shows "ByteStream_ok (sr_output r)" "bs_capacity (sr_output r) = sr_capacity r"
    and "sr_limit r < 2 ^ 64" "dom M \<subseteq> {..< sr_limit r}"
    and "n < sr_written r \<Longrightarrow> M n \<noteq> None" "M (sr_written r) = None"
    and "bs_buffer (sr_output r) = map (the \<circ> M) [sr_read r..< sr_written r]"
    and "frags_from (sr_written r) M (sr_unassembled r)"
  using assms unfolding sr_rep_def by blast+

lemma sr_rep_written:
  assumes "sr_rep r M"
  shows "sr_written r = sr_read r + length (bs_buffer (sr_output r))"
    and "sr_written r \<le> sr_limit r"
proof -
  have ok: "ByteStream_ok (sr_output r)" and lim: "sr_limit r < 2 ^ 64"
    and cap: "length (bs_buffer (sr_output r)) \<le> unat (sr_capacity r)"
    using sr_repD(1-3) [OF assms] by (simp_all add: ByteStream_ok_def)
  have "unat (size_of (bs_buffer (sr_output r))) = length (bs_buffer (sr_output r))"
    using ok by (simp add: unat_size_of ByteStream_ok_addressable)
  then show "sr_written r = sr_read r + length (bs_buffer (sr_output r))"
    using ok lim cap unat_add_64 [of "bs_bytes_read (sr_output r)" "size_of (bs_buffer (sr_output r))"]
    by (simp add: ByteStream_ok_def sr_limit_def)
  then show "sr_written r \<le> sr_limit r" using cap by (simp add: sr_limit_def)
qed

lemma sr_rep_new: "sr_rep (StreamReassembler_new c) Map.empty"
proof -
  have "frags_from 0 Map.empty Mapping.empty"
    by (rule frags_fromI) auto
  then show ?thesis
    by (simp add: sr_rep_def StreamReassembler_new_def ByteStream_new_ok)
       (simp add: ByteStream_new_def sr_limit_def)
qed

text \<open>Writing out the drained bytes.\<close>

definition sr_flush :: "bytes \<Rightarrow> ByteStream \<Rightarrow> ByteStream" where
  "sr_flush cs out = (if cs \<noteq> [] then snd (ByteStream_write cs out) else out)"

lemma sr_flush_open:
  assumes "ByteStream_ok out" "\<not> bs_input_ended out" "unat (bs_bytes_written out) + length cs < 2 ^ 64"
    and "length cs \<le> unat (bs_capacity out) - length (bs_buffer out)"
  shows "ByteStream_ok (sr_flush cs out)" "bs_buffer (sr_flush cs out) = bs_buffer out @ cs"
    and "unat (bs_bytes_written (sr_flush cs out)) = unat (bs_bytes_written out) + length cs"
    and "bs_bytes_read (sr_flush cs out) = bs_bytes_read out"
    and "bs_capacity (sr_flush cs out) = bs_capacity out"
    and "bs_input_ended (sr_flush cs out) = bs_input_ended out"
proof -
  have ad: "addressable cs" using assms(3) by (simp add: addressable_def)
  show "bs_buffer (sr_flush cs out) = bs_buffer out @ cs"
    using stream.wr_all(1) [OF assms(1,2) ad assms(4)] by (simp add: sr_flush_def)
  show "unat (bs_bytes_written (sr_flush cs out)) = unat (bs_bytes_written out) + length cs"
    using stream.wr_all(2) [OF assms(1,2) ad assms(4)] assms(3)
    by (simp add: sr_flush_def ByteStream_write_counts unat_add_64)
qed (use assms(1) in \<open>simp_all add: sr_flush_def ByteStream_write_ok\<close>)

text \<open>The state after the loops, before the end of the input is decided.\<close>

lemma sr_rep_assemble:
  assumes rep: "sr_rep r M" and N: "frags_from (sr_written r) N m" "dom N \<subseteq> {..< sr_limit r}"
    "\<And>n. n < sr_written r \<Longrightarrow> N n = M n"
    and open_or_same: "\<not> sr_ended r \<or> N = M"
  defines "d \<equiv> sr_drain (bs_bytes_written (sr_output r)) [] m"
  shows "sr_rep (r\<lparr>sr_unassembled := snd d, sr_output := sr_flush (fst d) (sr_output r)\<rparr>) N"
proof -
  let ?w = "sr_written r" and ?out = "sr_output r"
  let ?r = "r\<lparr>sr_unassembled := snd d, sr_output := sr_flush (fst d) ?out\<rparr>"
  have lim: "?w \<le> sr_limit r" "sr_limit r < 2 ^ 64"
    by (rule sr_rep_written [OF rep] sr_repD(3) [OF rep])+
  obtain k where k: "?w + k \<le> sr_limit r" and run: "\<And>n. ?w \<le> n \<Longrightarrow> n < ?w + k \<Longrightarrow> N n \<noteq> None"
    and gap: "N (?w + k) = None" and bytes: "fst d = map (the \<circ> N) [?w..<?w + k]"
    and frags: "frags_from (?w + k) N (snd d)"
    using frags_from_drain [OF N(1,2) lim] unfolding d_def by auto
  have filled: "N n \<noteq> None" if "n < ?w + k" for n
    using N(3) [of n] sr_repD(5) [OF rep, of n] run [of n] that by (cases "n < ?w") simp_all
  have buf: "bs_buffer ?out = map (the \<circ> N) [sr_read r..<?w]"
    using sr_repD(7) [OF rep] N(3) by simp
  have room: "length (bs_buffer ?out) + k \<le> unat (bs_capacity ?out)"
    using k sr_rep_written [OF rep] sr_repD(2) [OF rep] by (simp add: sr_limit_def)
  have idle: "k = 0" if "sr_ended r"
    using that open_or_same sr_repD(6) [OF rep] run [of ?w] by (cases k) auto
  have flush: "ByteStream_ok (sr_flush (fst d) ?out) \<and>
      bs_buffer (sr_flush (fst d) ?out) = bs_buffer ?out @ fst d \<and>
      unat (bs_bytes_written (sr_flush (fst d) ?out)) = ?w + k \<and>
      bs_bytes_read (sr_flush (fst d) ?out) = bs_bytes_read ?out \<and>
      bs_capacity (sr_flush (fst d) ?out) = bs_capacity ?out"
  proof (cases "sr_ended r")
    case True
    then show ?thesis using idle sr_repD(1) [OF rep] by (simp add: bytes sr_flush_def)
  next
    case False
    then show ?thesis
      using sr_flush_open [of ?out "fst d"] sr_repD(1) [OF rep] room k lim
      by (simp add: bytes sr_ended_def)
  qed
  have "[sr_read r..<?w + k] = [sr_read r..<?w] @ [?w..<?w + k]"
    by (rule upt_add_eq_append) (use sr_rep_written(1) [OF rep] in linarith)
  then show ?thesis
    using flush sr_repD(2,3) [OF rep] frags filled gap buf bytes N(2)
    by (simp add: sr_rep_def sr_limit_def)
qed

text \<open>
  The guard of \<open>push_substring\<close>: a substring whose bytes are all written already, or that starts
  behind the window, is ignored with its \<open>eof\<close> flag.
\<close>

definition sr_ignored :: "bytes \<Rightarrow> nat \<Rightarrow> StreamReassembler \<Rightarrow> bool" where
  "sr_ignored data idx r \<longleftrightarrow> data \<noteq> [] \<and> idx + length data \<le> sr_written r \<or> sr_limit r \<le> idx"

lemma push_guard:
  assumes "sr_rep r M" and "unat index + length data < 2 ^ 64"
  shows "(\<not> size_of data = 0 \<and> index + size_of data \<le> bs_bytes_written (sr_output r)
      \<or> bs_bytes_read (sr_output r) + sr_capacity r \<le> index) = sr_ignored data (unat index) r"
proof -
  have ad: "addressable data" using assms(2) by (simp add: addressable_def)
  have "unat (bs_bytes_read (sr_output r) + sr_capacity r) = sr_limit r"
    using sr_repD(3) [OF assms(1)] by (simp add: sr_limit_def unat_add_64)
  moreover have "unat (index + size_of data) = unat index + length data"
    using assms(2) by (simp add: unat_add_64 unat_size_of ad)
  ultimately show ?thesis
    by (simp add: sr_ignored_def size_of_eq_0_iff ad word_le_nat_alt)
qed

lemma receive_ignored:
  assumes "sr_rep r M" "sr_ignored data idx r"
  shows "receive data idx (sr_limit r) M = M"
  using assms(2) sr_repD(5) [OF assms(1)] unfolding sr_ignored_def by (intro receive_same) auto

text \<open>What \<open>push_substring\<close> does to the end-of-input fields.\<close>

definition sr_eof_step :: "bytes \<Rightarrow> size_t \<Rightarrow> bool \<Rightarrow> StreamReassembler \<Rightarrow> StreamReassembler \<Rightarrow> bool" where
  "sr_eof_step data index eof r r' \<longleftrightarrow>
     sr_eof_flag r' = (eof \<or> sr_eof_flag r) \<and>
     sr_eof_index r' = (if eof then index + size_of data else sr_eof_index r) \<and>
     sr_ended r' = (sr_ended r \<or>
       sr_eof_flag r' \<and> bs_bytes_written (sr_output r') = sr_eof_index r')"

lemma sr_rep_cong:
  assumes "sr_rep r M" "sr_unassembled r' = sr_unassembled r" "sr_capacity r' = sr_capacity r"
    and "sr_output r' = sr_output r \<or> sr_output r' = ByteStream_end_input (sr_output r)"
  shows "sr_rep r' M"
proof -
  have "ByteStream_ok (sr_output r')"
    using sr_repD(1) [OF assms(1)] assms(4) by (auto intro: ByteStream_end_input_ok)
  moreover have "bs_buffer (sr_output r') = bs_buffer (sr_output r)"
    "bs_bytes_written (sr_output r') = bs_bytes_written (sr_output r)"
    "bs_bytes_read (sr_output r') = bs_bytes_read (sr_output r)"
    "bs_capacity (sr_output r') = bs_capacity (sr_output r)"
    using assms(4) by (auto simp: ByteStream_end_input_def)
  ultimately show ?thesis
    using assms(1-3) by (simp add: sr_rep_def sr_limit_def)
qed

lemma sr_flush_ended: "bs_input_ended (sr_flush cs out) = bs_input_ended out"
  and sr_flush_read: "bs_bytes_read (sr_flush cs out) = bs_bytes_read out"
  by (simp_all add: sr_flush_def)

lemma sr_eof_update:
  "sr_output (r\<lparr>sr_eof_index := i, sr_eof_flag := b\<rparr>) = sr_output r"
  "sr_unassembled (r\<lparr>sr_eof_index := i, sr_eof_flag := b\<rparr>) = sr_unassembled r"
  "sr_eof_flag (r\<lparr>sr_eof_index := i, sr_eof_flag := b\<rparr>) = b"
  "sr_eof_index (r\<lparr>sr_eof_index := i, sr_eof_flag := b\<rparr>) = i"
  by simp_all

lemma push_substring_loops:
  assumes rep: "sr_rep r M" and idx: "unat index + length data < 2 ^ 64"
    and acc: "\<not> sr_ignored data (unat index) r"
  obtains m r' where "frags_from (sr_written r) (receive data (unat index) (sr_limit r) M) m"
    and "StreamReassembler_push_substring data index eof r = Inr r'"
    and "sr_unassembled r' = snd (sr_drain (bs_bytes_written (sr_output r)) [] m)"
    and "sr_output r' \<in> (let out = sr_flush (fst (sr_drain (bs_bytes_written (sr_output r)) [] m)) (sr_output r)
           in {out, ByteStream_end_input out})"
    and "sr_eof_step data index eof r r'" and "sr_capacity r' = sr_capacity r"
proof -
  let ?out = "sr_output r"
  let ?r = "if eof then r\<lparr>sr_eof_index := index + size_of data, sr_eof_flag := True\<rparr> else r"
  have w: "of_nat (sr_written r) = bs_bytes_written ?out" by simp
  have lim: "of_nat (sr_limit r) = bs_bytes_read ?out + sr_capacity r"
    by (simp add: sr_limit_def)
  obtain m where st: "sr_store (max index (bs_bytes_written ?out))
      (min (index + size_of data) (bs_bytes_read ?out + sr_capacity r)) index data (sr_unassembled r) = Inr m"
    and m: "frags_from (sr_written r) (receive data (unat index) (sr_limit r) M) m"
    using frags_from_store [OF sr_repD(8) [OF rep] idx sr_repD(4,3) [OF rep] unat_lt_64]
    unfolding w lim by blast
  define d where "d = sr_drain (bs_bytes_written ?out) [] m"
  define out where "out = sr_flush (fst d) ?out"
  define out' where "out' = (if sr_eof_flag ?r \<and> bs_bytes_written out = sr_eof_index ?r
      then ByteStream_end_input out else out)"
  have push: "StreamReassembler_push_substring data index eof r
      = Inr (?r\<lparr>sr_unassembled := snd d, sr_output := out'\<rparr>)"
    unfolding out'_def out_def d_def sr_flush_def
    by (cases eof)
       (simp_all only: StreamReassembler_push_substring_def Let_def ByteStream_bytes_read_def
          ByteStream_bytes_written_def push_guard [OF rep idx] acc if_False if_True
          sr_eof_update st and_then_simps case_prod_unfold)
  have ev: "sr_eof_step data index eof r (?r\<lparr>sr_unassembled := snd d, sr_output := out'\<rparr>)"
    by (auto simp: sr_eof_step_def sr_ended_def out'_def out_def sr_flush_ended ByteStream_end_input_def)
  show ?thesis
    by (rule that [OF m push _ _ ev]) (simp_all add: d_def out_def out'_def Let_def)
qed

lemma push_substring_accepted:
  assumes rep: "sr_rep r M" and idx: "unat index + length data < 2 ^ 64"
    and acc: "\<not> sr_ignored data (unat index) r"
    and open_or_same: "\<not> sr_ended r \<or> receive data (unat index) (sr_limit r) M = M"
  shows "\<exists>r'. StreamReassembler_push_substring data index eof r = Inr r' \<and>
    sr_rep r' (receive data (unat index) (sr_limit r) M) \<and> sr_eof_step data index eof r r' \<and>
    sr_read r' = sr_read r \<and> sr_capacity r' = sr_capacity r"
proof -
  let ?N = "receive data (unat index) (sr_limit r) M"
  obtain m r' where m: "frags_from (sr_written r) ?N m"
    and r': "StreamReassembler_push_substring data index eof r = Inr r'"
      "sr_unassembled r' = snd (sr_drain (bs_bytes_written (sr_output r)) [] m)"
    and out: "sr_output r' \<in> (let out = sr_flush (fst (sr_drain (bs_bytes_written (sr_output r)) [] m)) (sr_output r)
           in {out, ByteStream_end_input out})"
    and ev: "sr_eof_step data index eof r r'" "sr_capacity r' = sr_capacity r"
    by (rule push_substring_loops [OF rep idx acc])
  have "sr_rep r' ?N"
    by (rule sr_rep_cong [OF sr_rep_assemble [OF rep m dom_receive_limit [OF sr_repD(4) [OF rep]]
          receive_known [OF sr_repD(5) [OF rep]] open_or_same]])
       (use r'(2) out ev(2) in \<open>simp_all add: Let_def\<close>)
  moreover have "sr_read r' = sr_read r"
    using out by (auto simp: Let_def sr_flush_read ByteStream_end_input_def)
  ultimately show ?thesis using r' ev by blast
qed

lemma push_substring_ignored:
  assumes "sr_rep r M" "unat index + length data < 2 ^ 64" "sr_ignored data (unat index) r"
  shows "StreamReassembler_push_substring data index eof r = Inr r"
  using push_guard [OF assms(1,2)] assms(3)
  by (simp add: StreamReassembler_push_substring_def Let_def)

lemma push_substring_step:
  assumes rep: "sr_rep r M" and idx: "unat index + length data < 2 ^ 64"
    and open_or_same: "\<not> sr_ended r \<or> receive data (unat index) (sr_limit r) M = M"
  obtains r' where "StreamReassembler_push_substring data index eof r = Inr r'"
    and "sr_rep r' (receive data (unat index) (sr_limit r) M)"
    and "sr_read r' = sr_read r" and "sr_capacity r' = sr_capacity r"
    and "if sr_ignored data (unat index) r then r' = r else sr_eof_step data index eof r r'"
  using push_substring_accepted [OF rep idx _ open_or_same, of eof]
    push_substring_ignored [OF rep idx, of eof] receive_ignored [OF rep, of data "unat index"] rep
  by (cases "sr_ignored data (unat index) r") auto

end
