(* ===== verification/Stream_Reassembly.thy ===== *)
theory Stream_Reassembly
  imports Stream_Reassembler
begin

text \<open>
  Sessions with a reassembler: a sender's stream \<open>s\<close> arrives in substrings, in any order, cut in any
  way and with repetitions, while a reader takes bytes out. The theory shows that the reader sees
  exactly \<open>s\<close>, and when the end of the input is recognised.
\<close>

section \<open>Reading\<close>

lemma sr_rep_read:
  fixes n
  assumes rep: "sr_rep r M" and room: "sr_written r + unat (sr_capacity r) < 2 ^ 64"
  defines "r' \<equiv> snd (StreamReassembler_read n r)"
  shows "sr_rep r' M"
    and "fst (StreamReassembler_read n r) = map (the \<circ> M) [sr_read r..< sr_read r']"
    and "sr_read r \<le> sr_read r'" "sr_read r' \<le> sr_written r" "sr_written r' = sr_written r"
    and "sr_capacity r' = sr_capacity r" "sr_eof_flag r' = sr_eof_flag r"
    and "sr_eof_index r' = sr_eof_index r" "sr_ended r' = sr_ended r"
proof -
  let ?out = "sr_output r" and ?k = "min (unat n) (length (bs_buffer (sr_output r)))"
  have ok: "ByteStream_ok ?out" by (rule sr_repD(1) [OF rep])
  have r': "r' = r\<lparr>sr_output := snd (ByteStream_read n ?out)\<rparr>"
    by (simp add: r'_def StreamReassembler_read_def StreamReassembler_stream_out_def case_prod_unfold
        Let_def)
  have buf: "bs_buffer ?out = map (the \<circ> M) [sr_read r..< sr_written r]"
    by (rule sr_repD(7) [OF rep])
  have w: "sr_written r = sr_read r + length (bs_buffer ?out)"
    by (rule sr_rep_written(1) [OF rep])
  have "unat (size_of (fst (ByteStream_read n ?out))) = ?k"
    using ByteStream_ok_addressable [OF ok] by (simp add: unat_size_of ByteStream_read_eq ok)
  then have rd: "sr_read r' = sr_read r + ?k"
    using room w by (simp add: r' ByteStream_read_counts ok unat_add_64)
  have res: "fst (ByteStream_read n ?out) = take ?k (bs_buffer ?out)"
    and rest: "bs_buffer (snd (ByteStream_read n ?out)) = drop ?k (bs_buffer ?out)"
    by (simp_all add: ByteStream_read_eq ok)
  show wr: "sr_written r' = sr_written r" and cap: "sr_capacity r' = sr_capacity r"
    and "sr_eof_flag r' = sr_eof_flag r" and "sr_eof_index r' = sr_eof_index r"
    and "sr_ended r' = sr_ended r"
    by (simp_all add: r' sr_ended_def)
  show le: "sr_read r \<le> sr_read r'" "sr_read r' \<le> sr_written r" using rd w by simp_all
  show "fst (StreamReassembler_read n r) = map (the \<circ> M) [sr_read r..< sr_read r']"
    using w by (simp add: StreamReassembler_read_def StreamReassembler_stream_out_def
        case_prod_unfold Let_def res rd) (simp add: buf take_map take_upt_min)
  have "bs_buffer (sr_output r') = map (the \<circ> M) [sr_read r'..< sr_written r']"
  proof -
    have "bs_buffer (sr_output r') = drop ?k (bs_buffer ?out)" by (simp add: r' rest)
    then show ?thesis unfolding rd wr using arg_cong [OF buf, of "drop ?k"] by (simp only: drop_map drop_upt)
  qed
  moreover have "sr_limit r \<le> sr_limit r'" "sr_limit r' < 2 ^ 64"
    using le room by (simp_all add: sr_limit_def cap)
  ultimately show "sr_rep r' M"
    using rep ByteStream_read_ok [OF ok, of n] by (auto simp: sr_rep_def r')
qed

section \<open>Sessions\<close>

datatype sr_op = Push bytes size_t bool | Pull size_t

fun sr_exec :: "sr_op \<Rightarrow> StreamReassembler \<Rightarrow> cpp_failure + bytes \<times> StreamReassembler" where
  "sr_exec (Push data index eof) r =
     and_then (StreamReassembler_push_substring data index eof r) (\<lambda>r'. Inr ([], r'))"
| "sr_exec (Pull n) r = Inr (StreamReassembler_read n r)"

fun sr_session :: "sr_op list \<Rightarrow> StreamReassembler \<Rightarrow> cpp_failure + bytes \<times> StreamReassembler" where
  "sr_session [] r = Inr ([], r)"
| "sr_session (op # ops) r =
     and_then (sr_exec op r) (\<lambda>(b, r1). and_then (sr_session ops r1) (\<lambda>(bs, r2). Inr (b @ bs, r2)))"

text \<open>
  A substring of the stream \<open>s\<close>, pushed with the end mark only where it reaches the end of \<open>s\<close>.
\<close>

fun sr_op_of :: "bytes \<Rightarrow> sr_op \<Rightarrow> bool" where
  "sr_op_of s (Push data index eof) \<longleftrightarrow> unat index + length data \<le> length s \<and>
     data = take (length data) (drop (unat index) s) \<and>
     (eof \<longrightarrow> unat index + length data = length s)"
| "sr_op_of s (Pull n) \<longleftrightarrow> True"

fun sr_op_covers :: "sr_op \<Rightarrow> nat \<Rightarrow> bool" where
  "sr_op_covers (Push data index eof) n \<longleftrightarrow> unat index \<le> n \<and> n < unat index + length data"
| "sr_op_covers (Pull _) n \<longleftrightarrow> False"

fun sr_op_marked :: "sr_op \<Rightarrow> bool" where
  "sr_op_marked (Push data index eof) \<longleftrightarrow> eof"
| "sr_op_marked (Pull n) \<longleftrightarrow> False"

text \<open>The reassembler holds bytes of \<open>s\<close> only, and knows its end only as the end of \<open>s\<close>.\<close>

definition sr_sound :: "bytes \<Rightarrow> StreamReassembler \<Rightarrow> (nat \<rightharpoonup> u8) \<Rightarrow> bool" where
  "sr_sound s r M \<longleftrightarrow> sr_rep r M \<and> (\<forall>n b. M n = Some b \<longrightarrow> n < length s \<and> b = s ! n) \<and>
     (sr_eof_flag r \<longrightarrow> unat (sr_eof_index r) = length s) \<and>
     (sr_ended r \<longleftrightarrow> sr_eof_flag r \<and> sr_written r = length s)"

lemma sr_soundD:
  assumes "sr_sound s r M"
  shows "sr_rep r M" "M n = Some b \<Longrightarrow> n < length s" "M n = Some b \<Longrightarrow> b = s ! n"
    and "sr_eof_flag r \<Longrightarrow> unat (sr_eof_index r) = length s"
    and "sr_ended r \<longleftrightarrow> sr_eof_flag r \<and> sr_written r = length s"
  using assms unfolding sr_sound_def by blast+

lemma sr_sound_new: "sr_sound s (StreamReassembler_new c) Map.empty"
  by (simp add: sr_sound_def sr_rep_new)
     (simp add: StreamReassembler_new_def sr_ended_def ByteStream_new_def)

lemma sr_written_le:
  assumes "sr_rep r M" "\<And>n b. M n = Some b \<Longrightarrow> n < length s"
  shows "sr_written r \<le> length s"
proof (rule ccontr)
  assume "\<not> sr_written r \<le> length s"
  then have "M (length s) \<noteq> None" by (intro sr_repD(5) [OF assms(1)]) simp
  then show False using assms(2) by blast
qed

lemma sr_sound_le: "sr_sound s r M \<Longrightarrow> sr_written r \<le> length s"
  by (rule sr_written_le [OF sr_soundD(1)]) (auto dest: sr_soundD(2))

lemma sr_sound_map:
  assumes "sr_sound s r M" "j \<le> sr_written r"
  shows "map (the \<circ> M) [i..<j] = drop i (take j s)"
proof -
  have "(the \<circ> M) n = s ! n" if "n < j" for n
    using sr_repD(5) [OF sr_soundD(1) [OF assms(1)], of n] sr_soundD(3) [OF assms(1), of n] assms(2) that
    by fastforce
  then have "map (the \<circ> M) [i..<j] = map ((!) s) [i..<j]" by simp
  also have "\<dots> = drop i (take j s)"
    using sr_sound_le [OF assms(1)] assms(2) by (simp add: map_nth_upt)
  finally show ?thesis .
qed

text \<open>The first gap only moves up when bytes are added.\<close>

lemma sr_rep_gap_mono:
  assumes "sr_rep r M" "sr_rep r' N" "dom M \<subseteq> dom N"
  shows "sr_written r \<le> sr_written r'"
proof (rule ccontr)
  assume "\<not> sr_written r \<le> sr_written r'"
  then have "sr_written r' \<in> dom M" using sr_repD(5) [OF assms(1)] by auto
  then show False using assms(3) sr_repD(6) [OF assms(2)] by auto
qed

text \<open>One call. \<open>sr_end_known\<close>: whoever has the last byte has seen the end mark.\<close>

definition sr_end_known :: "bytes \<Rightarrow> StreamReassembler \<Rightarrow> (nat \<rightharpoonup> u8) \<Rightarrow> bool" where
  "sr_end_known s r M \<longleftrightarrow> (s \<noteq> [] \<and> M (length s - 1) \<noteq> None \<longrightarrow> sr_eof_flag r)"

definition sr_progress :: "bytes \<Rightarrow> sr_op list \<Rightarrow> StreamReassembler \<Rightarrow> (nat \<rightharpoonup> u8)
    \<Rightarrow> bytes \<Rightarrow> StreamReassembler \<Rightarrow> (nat \<rightharpoonup> u8) \<Rightarrow> bool" where
  "sr_progress s ops r M b r' M' \<longleftrightarrow>
     sr_sound s r' M' \<and> sr_capacity r' = sr_capacity r \<and>
     sr_read r \<le> sr_read r' \<and> b = drop (sr_read r) (take (sr_read r') s) \<and> dom M \<subseteq> dom M' \<and>
     (length s \<le> unat (sr_capacity r) \<longrightarrow> {n. \<exists>op\<in>set ops. sr_op_covers op n} \<subseteq> dom M') \<and>
     dom M' \<subseteq> dom M \<union> {n. \<exists>op\<in>set ops. sr_op_covers op n} \<and>
     (sr_end_known s r M \<and> (\<forall>op\<in>set ops. sr_op_covers op (length s - 1) \<longrightarrow> sr_op_marked op)
        \<longrightarrow> sr_end_known s r' M')"

lemma receive_of_stream:
  assumes "sr_sound s r M" "sr_op_of s (Push data index eof)"
    and "receive data (unat index) (sr_limit r) M n = Some b"
  shows "n < length s \<and> b = s ! n"
proof (cases "M n")
  case None
  with assms(3) have n: "unat index \<le> n" "n < unat index + length data" "b = data ! (n - unat index)"
    by (auto simp: receive_def split: if_splits)
  have "data ! (n - unat index) = take (length data) (drop (unat index) s) ! (n - unat index)"
    using assms(2) by simp
  then show ?thesis using n assms(2) by simp
qed (use assms(3) sr_soundD(2,3) [OF assms(1), of n] in \<open>simp add: receive_def\<close>)

lemma eof_step_of_stream:
  assumes sound: "sr_sound s r M" and op: "sr_op_of s (Push data index eof)"
    and room: "length s < 2 ^ 64" and ev: "sr_eof_step data index eof r r'"
    and le: "sr_written r \<le> sr_written r'" "sr_written r' \<le> length s"
  shows "(sr_eof_flag r' \<longrightarrow> unat (sr_eof_index r') = length s) \<and>
    (sr_ended r' \<longleftrightarrow> sr_eof_flag r' \<and> sr_written r' = length s)"
proof -
  have "unat (index + size_of data) = length s" if eof
    using op that room by (simp add: unat_add_64 unat_size_of addressable_def)
  then have flag: "sr_eof_flag r' \<longrightarrow> unat (sr_eof_index r') = length s"
    using ev sr_soundD(4) [OF sound] by (auto simp: sr_eof_step_def)
  then have "sr_ended r' = (sr_ended r \<or> sr_eof_flag r' \<and> sr_written r' = length s)"
    and "sr_eof_flag r' = (eof \<or> sr_eof_flag r)"
    using ev by (auto simp: sr_eof_step_def word_unat_eq_iff)
  then show ?thesis using flag sr_soundD(5) [OF sound] le by auto
qed

lemma push_of_stream:
  assumes sound: "sr_sound s r M" and op: "sr_op_of s (Push data index eof)"
    and room: "length s + unat (sr_capacity r) < 2 ^ 64"
  shows "\<exists>r' M'. StreamReassembler_push_substring data index eof r = Inr r' \<and>
    sr_progress s [Push data index eof] r M [] r' M'"
proof -
  let ?i = "unat index" and ?M = "receive data (unat index) (sr_limit r) M"
  have rep: "sr_rep r M" by (rule sr_soundD(1) [OF sound])
  have le: "?i + length data \<le> length s" using op by simp
  have idx: "?i + length data < 2 ^ 64" using le room by simp
  have full: "?M = M" if "sr_written r = length s"
    using that le sr_repD(5) [OF rep] by (intro receive_same) simp
  obtain r' where r': "StreamReassembler_push_substring data index eof r = Inr r'"
    and rep': "sr_rep r' ?M" and rd: "sr_read r' = sr_read r" and cap: "sr_capacity r' = sr_capacity r"
    and ev: "if sr_ignored data ?i r then r' = r else sr_eof_step data index eof r r'"
    using push_substring_step [OF rep idx, of eof] full sr_soundD(5) [OF sound] by blast
  note bytes = receive_of_stream [OF sound op]
  have dom: "dom M \<subseteq> dom ?M" and cov: "length s \<le> unat (sr_capacity r) \<Longrightarrow>
      {n. sr_op_covers (Push data index eof) n} \<subseteq> dom ?M"
    and new: "dom ?M \<subseteq> dom M \<union> {n. sr_op_covers (Push data index eof) n}"
    unfolding dom_receive using le by (auto simp: sr_limit_def)
  have bounds: "sr_written r \<le> sr_written r'" "sr_written r' \<le> length s"
    using sr_rep_gap_mono [OF rep rep' dom] sr_written_le [OF rep', of s] bytes by blast+
  have "sr_sound s r' ?M \<and> (sr_end_known s r M \<and>
      (sr_op_covers (Push data index eof) (length s - 1) \<longrightarrow> eof) \<longrightarrow> sr_end_known s r' ?M)"
  proof (cases "sr_ignored data ?i r")
    case True
    then show ?thesis using ev sound receive_ignored [OF rep True] by simp
  next
    case False
    with ev have ev: "sr_eof_step data index eof r r'" by simp
    have "sr_sound s r' ?M"
      unfolding sr_sound_def using eof_step_of_stream [OF sound op _ ev bounds] room rep' bytes by simp
    moreover have "sr_eof_flag r' = (eof \<or> sr_eof_flag r)" using ev by (simp add: sr_eof_step_def)
    ultimately show ?thesis
      unfolding sr_end_known_def domIff [symmetric] dom_receive by auto
  qed
  then have "sr_progress s [Push data index eof] r M [] r' ?M"
    unfolding sr_progress_def using dom cov new rd cap by simp
  then show ?thesis using r' by blast
qed

lemma pull_of_stream:
  assumes sound: "sr_sound s r M" and room: "length s + unat (sr_capacity r) < 2 ^ 64"
  shows "sr_progress s [Pull n] r M (fst (StreamReassembler_read n r)) (snd (StreamReassembler_read n r)) M"
proof -
  have rep: "sr_rep r M" by (rule sr_soundD(1) [OF sound])
  have "sr_written r + unat (sr_capacity r) < 2 ^ 64"
    using room sr_sound_le [OF sound] by linarith
  note rd = sr_rep_read [OF rep this, of n]
  have "sr_sound s (snd (StreamReassembler_read n r)) M"
    using sound rd unfolding sr_sound_def by simp
  then show ?thesis
    unfolding sr_progress_def using rd sr_sound_map [OF sound rd(4)] by (simp add: sr_end_known_def)
qed

lemma sr_progress_refl: "sr_sound s r M \<Longrightarrow> sr_progress s [] r M [] r M"
  by (simp add: sr_progress_def)

lemma sr_progress_trans:
  assumes 1: "sr_progress s [op] r M b r1 M1" and 2: "sr_progress s ops r1 M1 bs r2 M2"
  shows "sr_progress s (op # ops) r M (b @ bs) r2 M2"
proof -
  have dom: "dom M \<subseteq> dom M1" "dom M1 \<subseteq> dom M2" and cap: "sr_capacity r1 = sr_capacity r"
    and rd: "sr_read r \<le> sr_read r1" "sr_read r1 \<le> sr_read r2"
    using 1 2 by (simp_all add: sr_progress_def)
  have "{n. \<exists>x\<in>set (op # ops). sr_op_covers x n} =
      {n. sr_op_covers op n} \<union> {n. \<exists>x\<in>set ops. sr_op_covers x n}" by auto
  then have "length s \<le> unat (sr_capacity r) \<longrightarrow> {n. \<exists>x\<in>set (op # ops). sr_op_covers x n} \<subseteq> dom M2"
    and new: "dom M2 \<subseteq> dom M \<union> {n. \<exists>x\<in>set (op # ops). sr_op_covers x n}"
    using 1 2 dom cap by (simp_all add: sr_progress_def) blast+
  moreover have "b @ bs = drop (sr_read r) (take (sr_read r2) s)"
    using 1 2 drop_take_append_seg [OF rd, of s] by (simp add: sr_progress_def)
  moreover have "sr_end_known s r M \<and> (\<forall>x\<in>set (op # ops). sr_op_covers x (length s - 1) \<longrightarrow> sr_op_marked x)
      \<longrightarrow> sr_end_known s r2 M2"
    using 1 2 by (simp add: sr_progress_def)
  ultimately show ?thesis using 2 dom new cap rd unfolding sr_progress_def by simp
qed

lemma session_of_stream:
  assumes "sr_sound s r M" "length s + unat (sr_capacity r) < 2 ^ 64" "list_all (sr_op_of s) ops"
  shows "\<exists>out r' M'. sr_session ops r = Inr (out, r') \<and> sr_progress s ops r M out r' M'"
  using assms
proof (induction ops arbitrary: r M)
  case Nil
  then show ?case using sr_progress_refl by auto
next
  case (Cons op ops)
  obtain b r1 M1 where ex: "sr_exec op r = Inr (b, r1)" and p1: "sr_progress s [op] r M b r1 M1"
  proof (cases op)
    case (Push data index eof)
    then show ?thesis using push_of_stream [OF Cons.prems(1), of data index eof] Cons.prems(2,3) that by auto
  next
    case (Pull n)
    then show ?thesis using pull_of_stream [OF Cons.prems(1,2), of n] that by (metis prod.collapse sr_exec.simps(2))
  qed
  have "sr_sound s r1 M1" "length s + unat (sr_capacity r1) < 2 ^ 64"
    using p1 Cons.prems(2) by (simp_all add: sr_progress_def)
  then obtain bs r2 M2 where se: "sr_session ops r1 = Inr (bs, r2)"
    and p2: "sr_progress s ops r1 M1 bs r2 M2"
    using Cons.IH [of r1 M1] Cons.prems(3) by auto
  have "sr_session (op # ops) r = Inr (b @ bs, r2)" using ex se by simp
  then show ?case using sr_progress_trans [OF p1 p2] by blast
qed

text \<open>What a whole session from a fresh reassembler gives.\<close>

lemma fresh_session_of_stream:
  assumes "length s + unat c < 2 ^ 64" "list_all (sr_op_of s) ops"
  obtains out r M where "sr_session ops (StreamReassembler_new c) = Inr (out, r)"
    and "sr_progress s ops (StreamReassembler_new c) Map.empty out r M"
    and "out = take (sr_read r) s" and "out @ bs_buffer (sr_output r) = take (sr_written r) s"
proof -
  obtain out r M where se: "sr_session ops (StreamReassembler_new c) = Inr (out, r)"
    and pr: "sr_progress s ops (StreamReassembler_new c) Map.empty out r M"
    using session_of_stream [OF sr_sound_new [of s c] _ assms(2)] assms(1)
    by (auto simp: StreamReassembler_new_def)
  have out: "out = take (sr_read r) s"
    using pr by (simp add: sr_progress_def StreamReassembler_new_def ByteStream_new_def)
  have sound: "sr_sound s r M" using pr by (simp add: sr_progress_def)
  have "bs_buffer (sr_output r) = drop (sr_read r) (take (sr_written r) s)"
    using sr_repD(7) [OF sr_soundD(1) [OF sound]] sr_sound_map [OF sound] by simp
  moreover have "sr_read r \<le> sr_written r"
    using sr_rep_written(1) [OF sr_soundD(1) [OF sound]] by simp
  ultimately have "out @ bs_buffer (sr_output r) = take (sr_written r) s"
    using drop_take_append_seg [of 0 "sr_read r" "sr_written r" s] out by simp
  then show ?thesis using that se pr out by blast
qed

section \<open>Memory\<close>

text \<open>
  Arbitrary substrings, also ones that contradict each other or lie behind the end: after the end
  of the input newly contiguous bytes are dropped, so some abstract state is still represented.
\<close>

lemma sr_flush_closed: "bs_input_ended out \<Longrightarrow> sr_flush cs out = out"
  by (simp add: sr_flush_def ByteStream_write_def)

lemma sr_rep_assemble_any:
  assumes rep: "sr_rep r M" and N: "frags_from (sr_written r) N m" "dom N \<subseteq> {..< sr_limit r}"
    "\<And>n. n < sr_written r \<Longrightarrow> N n = M n"
  defines "d \<equiv> sr_drain (bs_bytes_written (sr_output r)) [] m"
  shows "\<exists>N'. sr_rep (r\<lparr>sr_unassembled := snd d, sr_output := sr_flush (fst d) (sr_output r)\<rparr>) N'"
proof (cases "sr_ended r")
  case False
  then show ?thesis using sr_rep_assemble [OF rep N] unfolding d_def by blast
next
  case True
  let ?w = "sr_written r"
  obtain k where k: "?w + k \<le> sr_limit r" and frags: "frags_from (?w + k) N (snd d)"
    and gap: "N (?w + k) = None"
    using frags_from_drain [OF N(1,2) sr_rep_written(2) [OF rep] sr_repD(3) [OF rep]]
    unfolding d_def by auto
  define N' where "N' = (\<lambda>n. if ?w \<le> n \<and> n < ?w + k then None else N n)"
  have "frags_from ?w N' (snd d)"
    using frags unfolding frags_from_def N'_def by auto
  moreover have "dom N' \<subseteq> {..< sr_limit r}" using N(2) by (auto simp: N'_def dom_def split: if_splits)
  moreover have "N' ?w = None" using gap by (cases k) (simp_all add: N'_def)
  moreover have "N' n = M n" if "n < ?w" for n using N(3) [OF that] that by (simp add: N'_def)
  ultimately have "sr_rep (r\<lparr>sr_unassembled := snd d\<rparr>) N'"
    using rep unfolding sr_rep_def by (simp add: sr_limit_def)
  moreover have "r\<lparr>sr_unassembled := snd d, sr_output := sr_flush (fst d) (sr_output r)\<rparr>
      = r\<lparr>sr_unassembled := snd d\<rparr>"
    using True by (simp add: sr_ended_def sr_flush_closed)
  ultimately show ?thesis by auto
qed

lemma push_substring_any:
  assumes rep: "sr_rep r M" and idx: "unat index + length data < 2 ^ 64"
  shows "\<exists>r' M'. StreamReassembler_push_substring data index eof r = Inr r' \<and> sr_rep r' M' \<and>
    sr_capacity r' = sr_capacity r"
proof (cases "sr_ignored data (unat index) r")
  case True
  then show ?thesis using push_substring_ignored [OF rep idx True] rep by blast
next
  case False
  let ?N = "receive data (unat index) (sr_limit r) M"
  obtain m r' where m: "frags_from (sr_written r) ?N m"
    and r': "StreamReassembler_push_substring data index eof r = Inr r'"
      "sr_unassembled r' = snd (sr_drain (bs_bytes_written (sr_output r)) [] m)"
    and out: "sr_output r' \<in> (let out = sr_flush (fst (sr_drain (bs_bytes_written (sr_output r)) [] m)) (sr_output r)
           in {out, ByteStream_end_input out})"
    and cap: "sr_capacity r' = sr_capacity r"
    by (rule push_substring_loops [OF rep idx False])
  obtain N' where "sr_rep (r\<lparr>sr_unassembled := snd (sr_drain (bs_bytes_written (sr_output r)) [] m),
      sr_output := sr_flush (fst (sr_drain (bs_bytes_written (sr_output r)) [] m)) (sr_output r)\<rparr>) N'"
    using sr_rep_assemble_any [OF rep m dom_receive_limit [OF sr_repD(4) [OF rep]]
          receive_known [OF sr_repD(5) [OF rep]]] by blast
  then have "sr_rep r' N'"
    by (rule sr_rep_cong) (use r'(2) out cap in \<open>simp_all add: Let_def\<close>)
  then show ?thesis using r'(1) cap by blast
qed

text \<open>The fragments are the received bytes behind the gap, each once.\<close>

lemma sr_rep_keys:
  assumes "sr_rep r M"
  shows "Mapping.size (sr_unassembled r) = card {n \<in> dom M. sr_written r < n}"
proof -
  let ?A = "{n \<in> dom M. sr_written r < n}" and ?m = "sr_unassembled r"
  have small: "n < 2 ^ 64" if "n \<in> dom M" for n
    using that sr_repD(3,4) [OF assms] by force
  have "Mapping.keys ?m = of_nat ` ?A"
  proof (intro equalityI subsetI)
    fix i assume "i \<in> Mapping.keys ?m"
    then have held: "Mapping.lookup ?m (of_nat (unat i)) \<noteq> None" by (simp add: keys_dom_lookup domIff)
    then have i: "unat i \<in> dom M" "\<not> unat i < sr_written r"
      unfolding frags_from_lookup [OF sr_repD(8) [OF assms] unat_lt_64]
      by (simp_all add: domIff split: if_splits)
    moreover have "unat i \<noteq> sr_written r" using i(1) sr_repD(6) [OF assms] by (metis domIff)
    ultimately have "unat i \<in> ?A" by simp
    then show "i \<in> of_nat ` ?A" by (rule rev_image_eqI) simp
  next
    fix i :: size_t assume "i \<in> of_nat ` ?A"
    then obtain n y where n: "i = of_nat n" "sr_written r < n" "M n = Some y" by blast
    have "Mapping.lookup ?m (of_nat n) = Some [y]"
      using frags_from_lookup [OF sr_repD(8) [OF assms] small [OF domI [of M, OF n(3)]]] n(2,3) by simp
    then show "i \<in> Mapping.keys ?m" unfolding n(1) keys_dom_lookup by (rule domI)
  qed
  moreover have "inj_on (of_nat :: nat \<Rightarrow> size_t) ?A"
    by (rule inj_on_inverseI [where g = unat]) (use small in \<open>blast intro: unat_of_nat_64\<close>)
  ultimately show ?thesis by (simp add: Mapping.size_def card_image)
qed

lemma sr_rep_memory:
  assumes "sr_rep r M"
  shows "Mapping.size (sr_unassembled r) + length (bs_buffer (sr_output r)) \<le> unat (sr_capacity r)"
proof -
  have "card {n \<in> dom M. sr_written r < n} \<le> card {sr_written r..< sr_limit r}"
    using sr_repD(4) [OF assms] by (intro card_mono) auto
  then show ?thesis
    using sr_rep_written [OF assms] by (simp add: sr_rep_keys [OF assms] sr_limit_def)
qed

text \<open>Reachable reassemblers, under calls whose positions fit a \<open>size_t\<close>.\<close>

inductive sr_reachable :: "size_t \<Rightarrow> StreamReassembler \<Rightarrow> bool" for c where
  reach_new: "sr_reachable c (StreamReassembler_new c)"
| reach_push: "sr_reachable c r \<Longrightarrow> unat index + length data < 2 ^ 64 \<Longrightarrow>
    StreamReassembler_push_substring data index eof r = Inr r' \<Longrightarrow> sr_reachable c r'"
| reach_read: "sr_reachable c r \<Longrightarrow> sr_written r + unat c < 2 ^ 64 \<Longrightarrow>
    sr_reachable c (snd (StreamReassembler_read n r))"

lemma sr_reachable_rep: "sr_reachable c r \<Longrightarrow> (\<exists>M. sr_rep r M) \<and> sr_capacity r = c"
proof (induction rule: sr_reachable.induct)
  case reach_new
  then show ?case using sr_rep_new by (auto simp: StreamReassembler_new_def)
next
  case (reach_push r index data eof r')
  then show ?case using push_substring_any [of r _ index data eof] by fastforce
next
  case (reach_read r n)
  then show ?case using sr_rep_read(1,6) [of r _ n] by auto
qed

lemma sr_unassembled_bytes_eq:
  assumes "sr_rep r M"
  shows "unat (StreamReassembler_unassembled_bytes r) = Mapping.size (sr_unassembled r)"
proof -
  have "Mapping.size (sr_unassembled r) < 2 ^ 64"
    using sr_rep_memory [OF assms] unat_lt_64 [of "sr_capacity r"] by linarith
  then show ?thesis by (simp add: StreamReassembler_unassembled_bytes_def unat_of_nat_64)
qed

lemma sr_rep_empty:
  assumes "sr_rep r M"
  shows "StreamReassembler_empty r \<longleftrightarrow> {n \<in> dom M. sr_written r < n} = {}"
proof -
  have "finite {n \<in> dom M. sr_written r < n}"
    using sr_repD(4) [OF assms] finite_subset [of "dom M" "{..< sr_limit r}"] by auto
  moreover have "StreamReassembler_empty r \<longleftrightarrow> Mapping.size (sr_unassembled r) = 0"
    by (simp add: StreamReassembler_empty_def Mapping.size_def Mapping.is_empty_def)
  ultimately show ?thesis using sr_rep_keys [OF assms] by simp
qed

text \<open>The whole stream in one unmarked substring fills the window and leaves the input open.\<close>

lemma push_whole_unmarked:
  assumes "s \<noteq> []" and "2 * length s < 2 ^ 64"
  obtains r where "StreamReassembler_push_substring s 0 False (StreamReassembler_new (size_of s)) = Inr r"
    and "\<exists>M. sr_rep r M" "sr_written r = length s" "sr_limit r = length s"
    and "bs_buffer (sr_output r) = s" "\<not> sr_ended r"
proof -
  let ?r0 = "StreamReassembler_new (size_of s)" and ?M = "receive s 0 (length s) Map.empty"
  have c: "unat (size_of s) = length s" using assms(2) by (simp add: unat_size_of addressable_def)
  have r0: "\<not> sr_ended ?r0" "sr_limit ?r0 = length s" "sr_written ?r0 = 0" "sr_read ?r0 = 0"
    "\<not> sr_eof_flag ?r0" "sr_capacity ?r0 = size_of s"
    using c by (simp_all add: sr_ended_def sr_limit_def StreamReassembler_new_def ByteStream_new_def)
  obtain r where r: "StreamReassembler_push_substring s 0 False ?r0 = Inr r" and rep: "sr_rep r ?M"
    and rd: "sr_read r = 0" "sr_capacity r = size_of s"
    and ev: "if sr_ignored s 0 ?r0 then r = ?r0 else sr_eof_step s 0 False ?r0 r"
    by (rule push_substring_step [OF sr_rep_new [of "size_of s"], of 0 s False]) (use assms r0 in auto)
  have held: "?M n = (if n < length s then Some (s ! n) else None)" for n by (simp add: receive_def)
  have w: "sr_written r = length s"
    using sr_repD(5) [OF rep, of "length s"] sr_repD(6) [OF rep] unfolding held
    by (cases "sr_written r" "length s" rule: linorder_cases) simp_all
  moreover have "bs_buffer (sr_output r) = s"
    using sr_repD(7) [OF rep] w rd by (intro nth_equalityI) (simp_all add: held)
  moreover have "\<not> sr_ended r" using ev r0 assms(1) by (simp add: sr_ignored_def sr_eof_step_def)
  moreover have "sr_limit r = length s" using rd c by (simp add: sr_limit_def)
  ultimately show ?thesis using that r rep by blast
qed

section \<open>Properties\<close>

text \<open>
  Claim C1. Whatever substrings of a stream \<open>s\<close> arrive, in whatever order and with whatever
  overlaps, and whenever the reader reads: no call fails, the bytes the reader got are a prefix of
  \<open>s\<close>, those still buffered continue it, and the input is only ended after the whole of \<open>s\<close>.
\<close>

theorem reassembly_is_prefix:
  assumes "length s + unat c < 2 ^ 64" and "list_all (sr_op_of s) ops"
  shows "\<exists>out r. sr_session ops (StreamReassembler_new c) = Inr (out, r) \<and>
    out @ bs_buffer (StreamReassembler_stream_out r) =
      take (unat (ByteStream_bytes_written (StreamReassembler_stream_out r))) s \<and>
    (ByteStream_input_ended (StreamReassembler_stream_out r) \<longrightarrow>
      out @ bs_buffer (StreamReassembler_stream_out r) = s)"
proof -
  obtain out r M where "sr_session ops (StreamReassembler_new c) = Inr (out, r)"
    and "sr_progress s ops (StreamReassembler_new c) Map.empty out r M"
    and "out @ bs_buffer (sr_output r) = take (sr_written r) s"
    by (rule fresh_session_of_stream [OF assms])
  then show ?thesis
    by (auto simp: sr_progress_def sr_sound_def sr_ended_def StreamReassembler_stream_out_def)
qed

theorem reassembly_is_prefix_witness:
  "\<exists>out r. sr_session [Push [3, 4] 2 True, Pull 9, Push [1, 2, 3] 0 False, Pull 1] (StreamReassembler_new 3)
      = Inr (out, r) \<and>
    out @ bs_buffer (StreamReassembler_stream_out r) =
      take (unat (ByteStream_bytes_written (StreamReassembler_stream_out r))) [1, 2, 3, 4]"
  using reassembly_is_prefix [of "[1, 2, 3, 4]" 3
      "[Push [3, 4] 2 True, Pull 9, Push [1, 2, 3] 0 False, Pull 1]"] by auto

text \<open>
  Claim C5. Reassembly is complete: if the capacity holds the stream and every byte of a non-empty
  stream \<open>s\<close> is pushed at least once, the reader's bytes and the buffer are exactly \<open>s\<close>; and if
  the substrings that contain the last byte carry the end mark, the input has ended.
\<close>

theorem reassembly_is_complete:
  assumes "length s + unat c < 2 ^ 64" and "list_all (sr_op_of s) ops" and "length s \<le> unat c"
    and all: "\<And>n. n < length s \<Longrightarrow> \<exists>op\<in>set ops. sr_op_covers op n"
  shows "\<exists>out r. sr_session ops (StreamReassembler_new c) = Inr (out, r) \<and>
    out @ bs_buffer (StreamReassembler_stream_out r) = s \<and>
    (s \<noteq> [] \<and> (\<forall>op\<in>set ops. sr_op_covers op (length s - 1) \<longrightarrow> sr_op_marked op) \<longrightarrow>
      ByteStream_input_ended (StreamReassembler_stream_out r))"
proof -
  obtain out r M where se: "sr_session ops (StreamReassembler_new c) = Inr (out, r)"
    and pr: "sr_progress s ops (StreamReassembler_new c) Map.empty out r M"
    and out: "out @ bs_buffer (sr_output r) = take (sr_written r) s"
    by (rule fresh_session_of_stream [OF assms(1,2)])
  have sound: "sr_sound s r M" using pr by (simp add: sr_progress_def)
  have held: "M n \<noteq> None" if "n < length s" for n
    using pr all [OF that] assms(3) by (auto simp: sr_progress_def StreamReassembler_new_def)
  then have w: "sr_written r = length s"
    using sr_repD(6) [OF sr_soundD(1) [OF sound]] sr_sound_le [OF sound] by (metis le_neq_implies_less)
  have "sr_end_known s (StreamReassembler_new c) Map.empty" by (simp add: sr_end_known_def)
  then have "sr_ended r" if "s \<noteq> []"
    "\<forall>op\<in>set ops. sr_op_covers op (length s - 1) \<longrightarrow> sr_op_marked op"
    using pr that held [of "length s - 1"] w sr_soundD(5) [OF sound]
    by (simp add: sr_progress_def sr_end_known_def)
  then show ?thesis
    using se out w by (auto simp: StreamReassembler_stream_out_def sr_ended_def)
qed

theorem reassembly_is_complete_witness:
  "\<exists>out r. sr_session [Push [2, 3] 1 True, Push [1, 2] 0 False] (StreamReassembler_new 3) = Inr (out, r) \<and>
    out @ bs_buffer (StreamReassembler_stream_out r) = [1, 2, 3] \<and>
    ByteStream_input_ended (StreamReassembler_stream_out r)"
proof -
  have "\<exists>op\<in>set [Push [2, 3] 1 True, Push [1, 2] 0 False]. sr_op_covers op n" if "n < length [1, 2, 3 :: u8]" for n
    using that by auto
  from reassembly_is_complete [of "[1, 2, 3]" 3, OF _ _ _ this] show ?thesis by auto
qed

text \<open>
  Claim C20. \<open>push_substring\<close> has no undefined behaviour: for every state and every argument, also
  where \<open>index + data.length()\<close> or the end of the window wraps around, all reads of \<open>data\<close> are in
  range and the call returns.
\<close>

theorem push_substring_returns:
  "\<exists>r'. StreamReassembler_push_substring data index eof r = Inr r'"
proof -
  have "\<exists>m'. sr_store (max index lo) (min (index + size_of data) hi) index data m = Inr m'" for lo hi m
    using sr_store_window [of index lo data hi m] by blast
  then show ?thesis
    unfolding StreamReassembler_push_substring_def Let_def and_then_Inr_iff
    by (auto simp: case_prod_unfold and_then_Inr_iff)
qed

text \<open>
  Claim C4. \<open>push_substring\<close> implements the abstract reassembler: a reassembler that represents the
  received bytes \<open>M\<close> and whose input has not ended represents, after the call, \<open>M\<close> with the new
  bytes inside the window added; so its output is the longest prefix without a gap.
\<close>

theorem push_substring_refines:
  assumes "sr_rep r M" and "\<not> sr_ended r" and "unat index + length data < 2 ^ 64"
  shows "\<exists>r'. StreamReassembler_push_substring data index eof r = Inr r' \<and>
    sr_rep r' (receive data (unat index) (sr_limit r) M)"
  using push_substring_step [OF assms(1,3)] assms(2) by blast

theorem push_substring_refines_witness:
  "\<exists>r'. StreamReassembler_push_substring [7, 8] 1 False (StreamReassembler_new 2) = Inr r' \<and>
    sr_rep r' (receive [7, 8] 1 2 Map.empty)"
proof -
  have "sr_limit (StreamReassembler_new 2) = 2" "\<not> sr_ended (StreamReassembler_new 2)"
    by (simp_all add: sr_ended_def sr_limit_def StreamReassembler_new_def ByteStream_new_def)
  then show ?thesis using push_substring_refines [OF sr_rep_new [of 2], of 1 "[7, 8]" False] by simp
qed

text \<open>
  Claim C12. The capacity bounds all memory: in every reachable state, whatever was pushed, the
  unassembled bytes (each counted once) and the unread bytes together never exceed the capacity.
\<close>

theorem reassembler_memory_bounded:
  assumes "sr_reachable c r"
  shows "unat (StreamReassembler_unassembled_bytes r) +
    length (bs_buffer (StreamReassembler_stream_out r)) \<le> unat c"
proof -
  obtain M where rep: "sr_rep r M" and c: "sr_capacity r = c" using sr_reachable_rep [OF assms] by blast
  show ?thesis
    using sr_rep_memory [OF rep] sr_unassembled_bytes_eq [OF rep]
    by (simp add: c StreamReassembler_stream_out_def)
qed

theorem reassembler_memory_bounded_witness:
  "\<exists>r. StreamReassembler_push_substring [5, 6, 7, 8] 1 False (StreamReassembler_new 3) = Inr r \<and>
    unat (StreamReassembler_unassembled_bytes r) = 2 \<and>
    unat (StreamReassembler_unassembled_bytes r) + length (bs_buffer (StreamReassembler_stream_out r)) \<le> 3"
proof -
  obtain r where r: "StreamReassembler_push_substring [5, 6, 7, 8] 1 False (StreamReassembler_new 3) = Inr r"
    using push_substring_any [OF sr_rep_new [of 3], of 1 "[5, 6, 7, 8]" False] by auto
  have "sr_reachable 3 r" by (rule reach_push [OF reach_new _ r]) simp
  note reassembler_memory_bounded [OF this]
  moreover have "map_sum id StreamReassembler_unassembled_bytes
      (StreamReassembler_push_substring [5, 6, 7, 8] 1 False (StreamReassembler_new 3)) = Inr 2"
    by code_simp
  ultimately show ?thesis using r by simp
qed

text \<open>
  Claim C36. \<open>unassembled_bytes()\<close> counts each byte once however often it was pushed: after any session
  with substrings of a stream \<open>s\<close> that the capacity holds, in any order and with any overlaps and reads,
  \<open>bytes_written()\<close> is the first position that no push covered, \<open>unassembled_bytes()\<close> is the number of
  positions behind it that some push covered, and \<open>empty()\<close> holds exactly when there are none.
\<close>

theorem unassembled_bytes_counts_once:
  assumes "length s + unat c < 2 ^ 64" and "list_all (sr_op_of s) ops" and "length s \<le> unat c"
  shows "\<exists>out r. sr_session ops (StreamReassembler_new c) = Inr (out, r) \<and>
    (let w = unat (ByteStream_bytes_written (StreamReassembler_stream_out r));
         pushed = {n. \<exists>op\<in>set ops. sr_op_covers op n}
     in {..<w} \<subseteq> pushed \<and> w \<notin> pushed \<and>
       unat (StreamReassembler_unassembled_bytes r) = card {n \<in> pushed. w < n} \<and>
       (StreamReassembler_empty r \<longleftrightarrow> {n \<in> pushed. w < n} = {}))"
proof -
  obtain out r M where se: "sr_session ops (StreamReassembler_new c) = Inr (out, r)"
    and pr: "sr_progress s ops (StreamReassembler_new c) Map.empty out r M"
    by (rule fresh_session_of_stream [OF assms(1,2)])
  have rep: "sr_rep r M" using pr by (simp add: sr_progress_def sr_sound_def)
  have dom: "dom M = {n. \<exists>op\<in>set ops. sr_op_covers op n}"
    using pr assms(3) by (auto simp: sr_progress_def StreamReassembler_new_def)
  show ?thesis
    unfolding Let_def dom [symmetric]
    using se sr_repD(5,6) [OF rep] sr_unassembled_bytes_eq [OF rep] sr_rep_keys [OF rep] sr_rep_empty [OF rep]
    by (auto simp: StreamReassembler_stream_out_def)
qed

text \<open>The bytes at 2, 3 and 4 wait behind the gap at 1; the byte at 3 was pushed twice.\<close>

theorem unassembled_bytes_counts_once_witness:
  "\<exists>out r. sr_session [Push [4, 5] 3 True, Push [3, 4] 2 False, Push [1] 0 False, Pull 1] (StreamReassembler_new 5) = Inr (out, r) \<and>
    unat (StreamReassembler_unassembled_bytes r) = 3 \<and> \<not> StreamReassembler_empty r"
proof -
  let ?ops = "[Push [4, 5] 3 True, Push [3, 4] 2 False, Push [1] 0 False, Pull 1]"
  have pushed: "{n. \<exists>op\<in>set ?ops. sr_op_covers op n} = {0, 2, 3, 4}" by auto
  have w: "w = 1" if "{..<w} \<subseteq> {0, 2, 3, 4}" "w \<notin> {0, 2, 3, 4}" for w :: nat
    using that by (cases "1 < w") (auto simp: subset_iff)
  have "{n \<in> {0, 2, 3, 4}. 1 < n} = {2, 3, 4 :: nat}" by auto
  then have "card {n \<in> {0, 2, 3, 4 :: nat}. 1 < n} = 3" "{n \<in> {0, 2, 3, 4}. 1 < n} \<noteq> ({} :: nat set)" by simp_all
  then show ?thesis
    using unassembled_bytes_counts_once [of "[1, 2, 3, 4, 5]" 5 ?ops] w unfolding pushed Let_def by force
qed

text \<open>
  Claim C39. An end mark that comes with a substring \<open>push_substring\<close> ignores is lost: when all of a
  non-empty stream \<open>s\<close> has been written and a retransmission of it carries the end mark, or the end
  mark comes alone while the reader has not yet made room, the input has not ended although the
  whole stream and its end mark were received.
\<close>

theorem end_mark_of_ignored_substring_is_lost:
  assumes "s \<noteq> []" and "2 * length s < 2 ^ 64" and "op \<in> {Push s 0 True, Push [] (size_of s) True}"
  shows "\<exists>r. sr_session [Push s 0 False, op] (StreamReassembler_new (size_of s)) = Inr ([], r) \<and>
    bs_buffer (StreamReassembler_stream_out r) = s \<and>
    \<not> ByteStream_input_ended (StreamReassembler_stream_out r)"
proof -
  have c: "unat (size_of s) = length s" using assms(2) by (simp add: unat_size_of addressable_def)
  obtain r where r: "StreamReassembler_push_substring s 0 False (StreamReassembler_new (size_of s)) = Inr r"
    and rep: "\<exists>M. sr_rep r M" and st: "sr_written r = length s" "sr_limit r = length s"
      "bs_buffer (sr_output r) = s" "\<not> sr_ended r"
    by (rule push_whole_unmarked [OF assms(1,2)])
  have "sr_exec op r = Inr ([], r)"
    using assms rep st c push_substring_ignored [of r _ 0 s True] push_substring_ignored [of r _ "size_of s" "[]" True]
    by (auto simp: sr_ignored_def)
  then show ?thesis using r st(3,4) by (simp add: StreamReassembler_stream_out_def sr_ended_def)
qed

theorem end_mark_of_ignored_substring_is_lost_witness:
  "\<exists>r. sr_session [Push [1, 2] 0 False, Push [1, 2] 0 True] (StreamReassembler_new (size_of [1, 2 :: u8]))
      = Inr ([], r) \<and>
    bs_buffer (StreamReassembler_stream_out r) = [1, 2] \<and>
    \<not> ByteStream_input_ended (StreamReassembler_stream_out r)"
  using end_mark_of_ignored_substring_is_lost [of "[1, 2]" "Push [1, 2] 0 True"] by simp

end
