(* ===== verification/Wrapping_Integers.thy ===== *)
theory Wrapping_Integers
  imports Sponge_Prelude
begin

unbundle bit_operations_syntax

text \<open>
  32-bit sequence numbers relative to an initial sequence number, and the conversion to and from
  64-bit absolute sequence numbers: \<open>libsponge/wrapping_integers.hh\<close> and \<open>wrapping_integers.cc\<close>.
\<close>

section \<open>Data and operators\<close>

datatype WrappingInt32 = WrappingInt32 (raw_value: u32)

text \<open>
  The result type of \<open>a - b\<close> is \<open>int32_t\<close>: the word is kept, its value is read with \<open>sint\<close>.
\<close>

definition WrappingInt32_diff :: "WrappingInt32 \<Rightarrow> WrappingInt32 \<Rightarrow> u32" where
  "WrappingInt32_diff a b = raw_value a - raw_value b"

definition WrappingInt32_eq :: "WrappingInt32 \<Rightarrow> WrappingInt32 \<Rightarrow> bool" where
  "WrappingInt32_eq a b \<longleftrightarrow> raw_value a = raw_value b"

definition WrappingInt32_neq :: "WrappingInt32 \<Rightarrow> WrappingInt32 \<Rightarrow> bool" where
  "WrappingInt32_neq a b \<longleftrightarrow> \<not> WrappingInt32_eq a b"

definition WrappingInt32_plus :: "WrappingInt32 \<Rightarrow> u32 \<Rightarrow> WrappingInt32" where
  "WrappingInt32_plus a b = WrappingInt32 (raw_value a + b)"

definition WrappingInt32_minus :: "WrappingInt32 \<Rightarrow> u32 \<Rightarrow> WrappingInt32" where
  "WrappingInt32_minus a b = WrappingInt32_plus a (- b)"

definition wrap :: "u64 \<Rightarrow> WrappingInt32 \<Rightarrow> WrappingInt32" where
  "wrap n isn = WrappingInt32_plus isn (ucast n)"

text \<open>
  \<open>abs(static_cast<int64_t>(x))\<close>. The C++ function is undefined at the least \<open>int64_t\<close>; lemma
  \<open>unwrap_distances\<close> shows that \<open>unwrap\<close> never gets there.
\<close>

definition int64_abs :: "u64 \<Rightarrow> int" where
  "int64_abs x = \<bar>sint x\<bar>"

definition unwrap :: "WrappingInt32 \<Rightarrow> WrappingInt32 \<Rightarrow> u64 \<Rightarrow> u64" where
  "unwrap n isn checkpoint =
     (let offset = WrappingInt32_diff n isn;
          base = checkpoint AND 0xFFFFFFFF00000000;
          candidate = base + ucast offset;
          best = candidate;
          best = (if push_bit 32 1 \<le> candidate then
                    let cand2 = candidate - push_bit 32 1 in
                    if int64_abs (cand2 - checkpoint) < int64_abs (best - checkpoint)
                    then cand2 else best
                  else best);
          cand3 = candidate + push_bit 32 1;
          best = (if int64_abs (cand3 - checkpoint) < int64_abs (best - checkpoint)
                  then cand3 else best)
      in best)"

section \<open>The candidates as integers\<close>

text \<open>
  \<open>epoch c\<close> is the multiple of \<open>2 ^ 32\<close> below \<open>c\<close>, \<open>low c\<close> the rest, and \<open>seq_offset n isn\<close> the
  unsigned distance from the initial sequence number.
\<close>

definition low :: "u64 \<Rightarrow> int" where
  "low c = uint c mod 2 ^ 32"

definition epoch :: "u64 \<Rightarrow> int" where
  "epoch c = uint c - low c"

definition seq_offset :: "WrappingInt32 \<Rightarrow> WrappingInt32 \<Rightarrow> int" where
  "seq_offset n isn = uint (WrappingInt32_diff n isn)"

lemma low_bounds: "0 \<le> low c" "low c < 2 ^ 32"
  by (simp_all add: low_def)

lemma seq_offset_bounds: "0 \<le> seq_offset n isn" "seq_offset n isn < 2 ^ 32"
  using uint_lt2p [of "WrappingInt32_diff n isn"] by (simp_all add: seq_offset_def)

lemma epoch_div: "epoch c = uint c div 2 ^ 32 * 2 ^ 32"
  by (simp add: epoch_def low_def minus_mod_eq_div_mult)

lemma epoch_bounds: "0 \<le> epoch c" "epoch c \<le> 2 ^ 64 - 2 ^ 32" "2 ^ 32 dvd epoch c"
proof -
  have "uint c div 2 ^ 32 \<le> 2 ^ 32 - 1" "0 \<le> uint c div 2 ^ 32"
    using uint_lt2p [of c] by (simp_all add: div_int_pos_iff)
  then show "0 \<le> epoch c" "epoch c \<le> 2 ^ 64 - 2 ^ 32" "2 ^ 32 dvd epoch c"
    by (simp_all add: epoch_div)
qed

lemma epoch_low: "uint c = epoch c + low c"
  by (simp add: epoch_def)

lemma unwrap_bounds:
  "0 \<le> low c \<and> low c < 2 ^ 32 \<and> 0 \<le> seq_offset n isn \<and> seq_offset n isn < 2 ^ 32 \<and>
   0 \<le> epoch c \<and> epoch c \<le> 2 ^ 64 - 2 ^ 32"
  by (intro conjI low_bounds seq_offset_bounds epoch_bounds)

lemma sint_of_int_64: "- (2 ^ 63) \<le> k \<Longrightarrow> k < 2 ^ 63 \<Longrightarrow> sint (of_int k :: u64) = k"
  by (simp add: sint_sbintrunc' signed_take_bit_int_eq_self)

lemma uint_of_int_64: "0 \<le> k \<Longrightarrow> k < 2 ^ 64 \<Longrightarrow> uint (of_int k :: u64) = k"
  by (simp add: uint_word_of_int_eq take_bit_int_eq_self)

lemma uint_2p_32: "uint (2 ^ 32 :: u64) = 2 ^ 32"
  by simp

lemma high_half: "(c AND 0xFFFFFFFF00000000 :: u64) = of_int (epoch c)"
proof -
  have m: "(0xFFFFFFFF00000000 :: u64) = push_bit 32 (mask 32)"
    by (simp add: mask_eq_exp_minus_1)
  have "c AND push_bit 32 (mask 32) = push_bit 32 (drop_bit 32 c)"
    by (rule bit_word_eqI) (auto simp: bit_simps)
  then have "c AND 0xFFFFFFFF00000000 = c div 2 ^ 32 * 2 ^ 32"
    by (simp add: m push_bit_eq_mult drop_bit_eq_div)
  moreover have "(of_int (epoch c) :: u64) = of_int (uint (c div 2 ^ 32)) * 2 ^ 32"
    by (simp only: epoch_div uint_div of_int_mult of_int_power of_int_numeral uint_2p_32)
  ultimately show ?thesis by simp
qed

lemma candidate_eq:
  "(c AND 0xFFFFFFFF00000000) + ucast (WrappingInt32_diff n isn) = of_int (epoch c + seq_offset n isn)"
  by (simp add: high_half seq_offset_def)

lemma candidate_guard:
  "(push_bit 32 1 \<le> (of_int (epoch c + seq_offset n isn) :: u64)) = (2 ^ 32 \<le> epoch c)"
proof -
  have "uint (of_int (epoch c + seq_offset n isn) :: u64) = epoch c + seq_offset n isn"
    by (rule uint_of_int_64) (use unwrap_bounds [of c n isn] in linarith)+
  moreover have "2 ^ 32 \<le> epoch c + seq_offset n isn \<longleftrightarrow> 2 ^ 32 \<le> epoch c"
    using unwrap_bounds [of c n isn] epoch_bounds(3) [of c] by (auto elim!: dvdE)
  ultimately show ?thesis by (simp add: word_le_def)
qed

text \<open>
  The distances compared by \<open>unwrap\<close>, for \<open>k\<close> one of \<open>0\<close>, \<open>- (2 ^ 32)\<close> and \<open>2 ^ 32\<close>: all are far
  inside the range of \<open>int64_t\<close>, so neither the cast nor \<open>abs\<close> overflows.
\<close>

lemma unwrap_distances:
  assumes "\<bar>k\<bar> \<le> 2 ^ 32"
  shows "int64_abs (of_int (epoch c + seq_offset n isn + k) - c) = \<bar>seq_offset n isn - low c + k\<bar>"
    and "\<bar>seq_offset n isn - low c + k\<bar> < 2 ^ 34"
proof -
  show b: "\<bar>seq_offset n isn - low c + k\<bar> < 2 ^ 34"
    using assms unwrap_bounds [of c n isn] by (simp add: abs_less_iff abs_le_iff)
  have "epoch c + seq_offset n isn + k - uint c = seq_offset n isn - low c + k"
    by (simp add: epoch_low)
  then have "(of_int (epoch c + seq_offset n isn + k) :: u64) - c
      = of_int (seq_offset n isn - low c + k)"
    by (metis of_int_diff word_of_int_uint)
  then show "int64_abs (of_int (epoch c + seq_offset n isn + k) - c)
      = \<bar>seq_offset n isn - low c + k\<bar>"
    using b sint_of_int_64 [of "seq_offset n isn - low c + k"]
    by (simp only: int64_abs_def) (simp add: abs_less_iff)
qed

lemma unwrap_eq:
  "unwrap n isn c = of_int (epoch c + seq_offset n isn +
     (if 2 ^ 31 < seq_offset n isn - low c \<and> 2 ^ 32 \<le> epoch c then - (2 ^ 32)
      else if seq_offset n isn - low c < - (2 ^ 31) then 2 ^ 32 else 0))"
  using unwrap_distances(1) [of 0 c n isn] unwrap_distances(1) [of "- (2 ^ 32)" c n isn]
    unwrap_distances(1) [of "2 ^ 32" c n isn] unwrap_bounds [of c n isn]
  unfolding unwrap_def Let_def candidate_eq candidate_guard
  by (auto simp: algebra_simps)

section \<open>Which absolute numbers wrap to a sequence number\<close>

lemma wrap_eq_iff: "wrap m isn = n \<longleftrightarrow> uint m mod 2 ^ 32 = seq_offset n isn"
proof -
  have "wrap m isn = n \<longleftrightarrow> ucast m = WrappingInt32_diff n isn"
    by (cases n; cases isn)
       (auto simp: wrap_def WrappingInt32_plus_def WrappingInt32_diff_def algebra_simps)
  also have "\<dots> \<longleftrightarrow> uint (ucast m :: u32) = uint (WrappingInt32_diff n isn)"
    by (simp add: word_uint_eq_iff)
  also have "uint (ucast m :: u32) = uint m mod 2 ^ 32"
    by (simp add: unsigned_ucast_eq take_bit_eq_mod)
  finally show ?thesis by (simp add: seq_offset_def)
qed

lemma wrap_preimage:
  assumes "wrap m isn = n"
  obtains j where "uint m = epoch c + seq_offset n isn + j * 2 ^ 32"
proof -
  have "uint m = uint m div 2 ^ 32 * 2 ^ 32 + seq_offset n isn"
    using assms unfolding wrap_eq_iff by (metis div_mult_mod_eq)
  then have "uint m = epoch c + seq_offset n isn + (uint m div 2 ^ 32 - uint c div 2 ^ 32) * 2 ^ 32"
    unfolding epoch_div by (simp add: algebra_simps)
  then show ?thesis by (rule that)
qed

lemma uint_of_int_mod_32: "uint (of_int k :: u64) mod 2 ^ 32 = k mod 2 ^ 32"
  by (simp add: uint_word_of_int_eq take_bit_eq_mod mod_mod_cancel)

lemma nearest_multiple:
  fixes d j :: int
  assumes "\<bar>d\<bar> < 2 ^ 32" and "down \<or> 0 \<le> j"
  shows "\<bar>d + (if 2 ^ 31 < d \<and> down then - (2 ^ 32) else if d < - (2 ^ 31) then 2 ^ 32 else 0)\<bar>
     \<le> \<bar>d + j * 2 ^ 32\<bar>"
proof -
  consider "j \<le> - 1" | "j = 0" | "1 \<le> j" by linarith
  then show ?thesis using assms by cases auto
qed

text \<open>A number near the checkpoint is recovered.\<close>

lemma unwrap_wrap_near:
  assumes "\<bar>uint m - uint checkpoint\<bar> < 2 ^ 31"
  shows "unwrap (wrap m isn) isn checkpoint = m"
proof -
  let ?n = "wrap m isn" and ?c = checkpoint
  obtain j where j: "uint m = epoch ?c + seq_offset ?n isn + j * 2 ^ 32"
    by (rule wrap_preimage [OF refl])
  have d: "\<bar>seq_offset ?n isn - low ?c + j * 2 ^ 32\<bar> < 2 ^ 31"
    using assms unfolding j epoch_low [of ?c] by simp
  then have "j = (if 2 ^ 31 < seq_offset ?n isn - low ?c then - 1
       else if seq_offset ?n isn - low ?c < - (2 ^ 31) then 1 else 0)"
    using unwrap_bounds [of ?c ?n isn] by (auto simp: abs_less_iff)
  moreover have "j = - 1 \<Longrightarrow> 2 ^ 32 \<le> epoch ?c"
    using uint_ge_0 [of m] unwrap_bounds [of ?c ?n isn] epoch_bounds(3) [of ?c]
    unfolding j by (auto elim!: dvdE)
  ultimately have "unwrap ?n isn ?c = of_int (uint m)"
    unfolding unwrap_eq j by (auto split: if_splits)
  then show ?thesis by simp
qed

section \<open>Properties\<close>

text \<open>
  Claim C22. \<open>unwrap\<close> inverts \<open>wrap\<close> near the checkpoint: an absolute sequence number less than
  \<open>2 ^ 31\<close> away from the checkpoint is recovered exactly from its 32-bit form.
\<close>

theorem unwrap_wrap:
  assumes "\<bar>uint m - uint checkpoint\<bar> < 2 ^ 31"
  shows "unwrap (wrap m isn) isn checkpoint = m"
  using assms by (rule unwrap_wrap_near)

theorem unwrap_wrap_witness:
  "unwrap (wrap 0x100000005 (WrappingInt32 0xFFFFFFFA)) (WrappingInt32 0xFFFFFFFA) 0xFFFFFFFE
     = 0x100000005"
  by (rule unwrap_wrap) simp

text \<open>
  \<open>unwrap\<close> always returns a number that wraps to the given sequence number.
\<close>

theorem wrap_unwrap: "wrap (unwrap n isn checkpoint) isn = n"
proof -
  have "seq_offset n isn mod 2 ^ 32 = seq_offset n isn"
    using seq_offset_bounds [of n isn] by simp
  then show ?thesis
    unfolding wrap_eq_iff unwrap_eq uint_of_int_mod_32
    using epoch_bounds(3) [of checkpoint] by (auto elim!: dvdE simp: mod_simps)
qed

text \<open>
  Claim C3. As long as the checkpoint is not in the last \<open>2 ^ 31\<close> numbers of the 64-bit range,
  \<open>unwrap\<close> returns a number that wraps to \<open>n\<close>, and among all numbers that do it is one closest to the
  checkpoint.
\<close>

theorem unwrap_closest:
  assumes "uint checkpoint \<le> 2 ^ 64 - 2 ^ 31" and "wrap m isn = n"
  shows "wrap (unwrap n isn checkpoint) isn = n \<and>
    \<bar>uint (unwrap n isn checkpoint) - uint checkpoint\<bar> \<le> \<bar>uint m - uint checkpoint\<bar>"
proof (rule conjI [OF wrap_unwrap])
  let ?c = checkpoint and ?o = "seq_offset n isn"
  define k :: int where "k = (if 2 ^ 31 < ?o - low ?c \<and> 2 ^ 32 \<le> epoch ?c then - (2 ^ 32)
      else if ?o - low ?c < - (2 ^ 31) then 2 ^ 32 else 0)"
  obtain j where j: "uint m = epoch ?c + ?o + j * 2 ^ 32"
    by (rule wrap_preimage [OF assms(2)])
  have "0 \<le> epoch ?c + ?o + k \<and> epoch ?c + ?o + k < 2 ^ 64"
    using unwrap_bounds [of ?c n isn] epoch_bounds(3) [of ?c] assms(1)
    unfolding k_def epoch_low [of ?c] by (auto elim!: dvdE)
  then have u: "uint (unwrap n isn ?c) = epoch ?c + ?o + k"
    unfolding unwrap_eq k_def [symmetric] by (intro uint_of_int_64) auto
  have "epoch ?c = 0 \<or> 2 ^ 32 \<le> epoch ?c"
    using epoch_bounds [of ?c] by (auto elim!: dvdE)
  moreover have "epoch ?c = 0 \<Longrightarrow> 0 \<le> j"
    using uint_ge_0 [of m] unwrap_bounds [of ?c n isn] unfolding j by auto
  ultimately have "\<bar>?o - low ?c + k\<bar> \<le> \<bar>?o - low ?c + j * 2 ^ 32\<bar>"
    unfolding k_def using unwrap_bounds [of ?c n isn] by (intro nearest_multiple) auto
  then show "\<bar>uint (unwrap n isn ?c) - uint ?c\<bar> \<le> \<bar>uint m - uint ?c\<bar>" unfolding u j epoch_low [of ?c] by simp
qed

theorem unwrap_closest_witness:
  "wrap (unwrap (WrappingInt32 17) (WrappingInt32 15) 0xFFFFFFFF) (WrappingInt32 15) = WrappingInt32 17 \<and>
   \<bar>uint (unwrap (WrappingInt32 17) (WrappingInt32 15) 0xFFFFFFFF) - 0xFFFFFFFF\<bar> \<le> \<bar>2 - (0xFFFFFFFF :: int)\<bar>"
proof -
  have "wrap 2 (WrappingInt32 15) = WrappingInt32 17"
    by (simp add: wrap_def WrappingInt32_plus_def)
  from unwrap_closest [of "0xFFFFFFFF", OF _ this] show ?thesis by simp
qed

text \<open>
  In the last \<open>2 ^ 31\<close> numbers of the 64-bit range the third candidate wraps around to
  a small number and can win: the result is then not the closest one, although a closer number
  that wraps to \<open>n\<close> exists.
\<close>

theorem unwrap_not_closest_at_top:
  "\<exists>n isn checkpoint m. wrap m isn = n \<and>
     \<bar>uint m - uint checkpoint\<bar> < \<bar>uint (unwrap n isn checkpoint) - uint checkpoint\<bar>"
proof (intro exI conjI)
  let ?n = "WrappingInt32 0" and ?c = "0xFFFFFFFFFFFFFFFF :: u64" and ?m = "0xFFFFFFFF00000000 :: u64"
  show "wrap ?m ?n = ?n" by (simp add: wrap_def WrappingInt32_plus_def)
  have "unwrap ?n ?n ?c = 0" by code_simp
  then show "\<bar>uint ?m - uint ?c\<bar> < \<bar>uint (unwrap ?n ?n ?c) - uint ?c\<bar>" by simp
qed

text \<open>
  \<open>a - b\<close> is the number of increments from \<open>b\<close> to \<open>a\<close>, or minus the number of
  decrements where that is not larger, and stepping \<open>b\<close> by it leads to \<open>a\<close>.
\<close>

theorem WrappingInt32_diff_spec:
  "WrappingInt32_plus b (WrappingInt32_diff a b) = a \<and>
   sint (WrappingInt32_diff a b) =
     (let up = uint (raw_value a - raw_value b); down = uint (raw_value b - raw_value a)
      in if up \<noteq> 0 \<and> down \<le> up then - down else up)"
proof (rule conjI)
  show "WrappingInt32_plus b (WrappingInt32_diff a b) = a"
    by (simp add: WrappingInt32_plus_def WrappingInt32_diff_def)
  define d where "d = raw_value a - raw_value b"
  have neg: "raw_value b - raw_value a = - d" by (simp add: d_def)
  have down: "uint (- d) = (if d = 0 then 0 else 2 ^ 32 - uint d)"
    using uint_lt2p [of d] by (simp add: uint_word_ariths zmod_zminus1_eq_if uint_0_iff)
  have up: "(uint d + 2147483648) mod 4294967296 = uint d - 2147483648" if "\<not> uint d < 2147483648"
    using that uint_lt2p [of d] mod_add_self2 [of "uint d - 2147483648" "4294967296"]
    by (simp add: add.commute)
  have "sint d = (if uint d < 2 ^ 31 then uint d else uint d - 2 ^ 32)"
    using uint_lt2p [of d] by (simp add: sint_uint signed_take_bit_eq_take_bit_shift take_bit_eq_mod up)
  then show "sint (WrappingInt32_diff a b) =
     (let up = uint (raw_value a - raw_value b); down = uint (raw_value b - raw_value a)
      in if up \<noteq> 0 \<and> down \<le> up then - down else up)"
    unfolding WrappingInt32_diff_def neg d_def [symmetric] Let_def down by auto
qed

end
