(* ===== verification/Buffer.thy ===== *)
theory Buffer
  imports Sponge_Prelude
begin

text \<open>
  Byte strings that discard bytes from the front: \<open>libsponge/util/buffer.hh\<close> and \<open>buffer.cc\<close>.
  \<open>Buffer\<close> is one shared string with an offset, \<open>BufferList\<close> a queue of them and
  \<open>BufferViewList\<close> a queue of views. All three keep the same contract, the locale
  \<open>discardable_string\<close>.
\<close>

section \<open>Buffer\<close>

text \<open>
  The storage is shared between copies but never written, so a copy of the string stands for it.
  An empty \<open>shared_ptr\<close> is \<open>None\<close>.
\<close>

record Buffer =
  bf_storage :: "bytes option"
  bf_starting_offset :: size_t

definition Buffer_empty :: Buffer where
  "Buffer_empty = \<lparr>bf_storage = None, bf_starting_offset = 0\<rparr>"

definition Buffer_of :: "bytes \<Rightarrow> Buffer" where
  "Buffer_of str = \<lparr>bf_storage = Some str, bf_starting_offset = 0\<rparr>"

definition Buffer_str :: "Buffer \<Rightarrow> bytes" where
  "Buffer_str b = (case bf_storage b of
      None \<Rightarrow> []
    | Some s \<Rightarrow> take (unat (size_of s - bf_starting_offset b)) (drop (unat (bf_starting_offset b)) s))"

definition Buffer_at :: "size_t \<Rightarrow> Buffer \<Rightarrow> cpp_failure + u8" where
  "Buffer_at n b = (if unat n < length (Buffer_str b) then Inr (Buffer_str b ! unat n)
                    else Inl (out_of_range ''basic_string_view::at''))"

definition Buffer_size :: "Buffer \<Rightarrow> size_t" where
  "Buffer_size b = size_of (Buffer_str b)"

definition Buffer_copy :: "Buffer \<Rightarrow> bytes" where
  "Buffer_copy b = Buffer_str b"

definition Buffer_remove_prefix :: "size_t \<Rightarrow> Buffer \<Rightarrow> cpp_failure + Buffer" where
  "Buffer_remove_prefix n b =
     (if size_of (Buffer_str b) < n then Inl (out_of_range ''Buffer::remove_prefix'')
      else
        let b = b\<lparr>bf_starting_offset := bf_starting_offset b + n\<rparr>
        in Inr (case bf_storage b of
                  Some s \<Rightarrow> if bf_starting_offset b = size_of s then b\<lparr>bf_storage := None\<rparr> else b
                | None \<Rightarrow> b))"

section \<open>BufferList\<close>

record BufferList =
  bl_buffers :: "Buffer list"

definition BufferList_empty :: BufferList where
  "BufferList_empty = \<lparr>bl_buffers = []\<rparr>"

definition BufferList_of_buffer :: "Buffer \<Rightarrow> BufferList" where
  "BufferList_of_buffer buffer = \<lparr>bl_buffers = [buffer]\<rparr>"

definition BufferList_buffers :: "BufferList \<Rightarrow> Buffer list" where
  "BufferList_buffers l = bl_buffers l"

declare BufferList_buffers_def [simp]

definition BufferList_append :: "BufferList \<Rightarrow> BufferList \<Rightarrow> BufferList" where
  "BufferList_append other l =
     l\<lparr>bl_buffers := foldl (\<lambda>bufs buf. bufs @ [buf]) (bl_buffers l) (bl_buffers other)\<rparr>"

definition BufferList_of_string :: "bytes \<Rightarrow> BufferList" where
  "BufferList_of_string str = BufferList_append (BufferList_of_buffer (Buffer_of str)) BufferList_empty"

definition BufferList_to_Buffer :: "BufferList \<Rightarrow> cpp_failure + Buffer" where
  "BufferList_to_Buffer l = (case bl_buffers l of
      [] \<Rightarrow> Inr Buffer_empty
    | [b] \<Rightarrow> Inr b
    | _ \<Rightarrow> Inl (runtime_error
        ''BufferList: please use concatenate() to combine a multi-Buffer BufferList into one Buffer''))"

definition BufferList_concatenate :: "BufferList \<Rightarrow> bytes" where
  "BufferList_concatenate l = foldl (\<lambda>ret buf. ret @ Buffer_str buf) [] (bl_buffers l)"

definition BufferList_size :: "BufferList \<Rightarrow> size_t" where
  "BufferList_size l = foldl (\<lambda>ret buf. ret + Buffer_size buf) 0 (bl_buffers l)"

text \<open>
  The loop throws only at an empty list: a \<open>BufferList\<close> whose \<open>remove_prefix\<close> threw has lost all its
  buffers. The result \<open>Inl\<close> therefore does not repeat the list; the same holds for the views below.
\<close>

fun BufferList_remove_loop :: "size_t \<Rightarrow> Buffer list \<Rightarrow> cpp_failure + Buffer list" where
  "BufferList_remove_loop n [] =
     (if 0 < n then Inl (out_of_range ''BufferList::remove_prefix'') else Inr [])"
| "BufferList_remove_loop n (b # bs) =
     (if 0 < n then
        if n < size_of (Buffer_str b) then and_then (Buffer_remove_prefix n b) (\<lambda>b'. Inr (b' # bs))
        else BufferList_remove_loop (n - size_of (Buffer_str b)) bs
      else Inr (b # bs))"

definition BufferList_remove_prefix :: "size_t \<Rightarrow> BufferList \<Rightarrow> cpp_failure + BufferList" where
  "BufferList_remove_prefix n l =
     and_then (BufferList_remove_loop n (bl_buffers l)) (\<lambda>bs. Inr (l\<lparr>bl_buffers := bs\<rparr>))"

section \<open>BufferViewList\<close>

text \<open>A \<open>string_view\<close> is the bytes it shows; that what it points to is still alive is assumed.\<close>

record BufferViewList =
  bv_views :: "bytes list"

definition BufferViewList_of_view :: "bytes \<Rightarrow> BufferViewList" where
  "BufferViewList_of_view str = \<lparr>bv_views = [str]\<rparr>"

definition BufferViewList_of_string :: "bytes \<Rightarrow> BufferViewList" where
  "BufferViewList_of_string str = BufferViewList_of_view str"

text \<open>A C string is the memory from its pointer on; the view ends before the first zero byte.\<close>

definition BufferViewList_of_c_str :: "bytes \<Rightarrow> BufferViewList" where
  "BufferViewList_of_c_str s = BufferViewList_of_view (takeWhile (\<lambda>b. b \<noteq> 0) s)"

lemma BufferViewList_of_string_eq [simp]: "BufferViewList_of_string = BufferViewList_of_view"
  by (simp add: BufferViewList_of_string_def fun_eq_iff)

lemma BufferViewList_of_literal: "0 \<notin> set str \<Longrightarrow> BufferViewList_of_c_str (str @ 0 # mem) = BufferViewList_of_view str"
  using takeWhile_append2 [of str "\<lambda>b. b \<noteq> 0" "0 # mem"] by (fastforce simp: BufferViewList_of_c_str_def)

definition BufferViewList_of_list :: "BufferList \<Rightarrow> BufferViewList" where
  "BufferViewList_of_list buffers =
     \<lparr>bv_views = foldl (\<lambda>views x. views @ [Buffer_str x]) [] (BufferList_buffers buffers)\<rparr>"

fun BufferViewList_remove_loop :: "size_t \<Rightarrow> bytes list \<Rightarrow> cpp_failure + bytes list" where
  "BufferViewList_remove_loop n [] =
     (if 0 < n then Inl (out_of_range ''BufferListView::remove_prefix'') else Inr [])"
| "BufferViewList_remove_loop n (v # vs) =
     (if 0 < n then
        if n < size_of v then Inr (drop (unat n) v # vs)
        else BufferViewList_remove_loop (n - size_of v) vs
      else Inr (v # vs))"

definition BufferViewList_remove_prefix :: "size_t \<Rightarrow> BufferViewList \<Rightarrow> cpp_failure + BufferViewList" where
  "BufferViewList_remove_prefix n l =
     and_then (BufferViewList_remove_loop n (bv_views l)) (\<lambda>vs. Inr (l\<lparr>bv_views := vs\<rparr>))"

definition BufferViewList_size :: "BufferViewList \<Rightarrow> size_t" where
  "BufferViewList_size l = foldl (\<lambda>ret v. ret + size_of v) 0 (bv_views l)"

text \<open>An \<open>iovec\<close>: the bytes it points to and its length.\<close>

definition BufferViewList_as_iovecs :: "BufferViewList \<Rightarrow> (bytes \<times> size_t) list" where
  "BufferViewList_as_iovecs l = foldl (\<lambda>ret x. ret @ [(x, size_of x)]) [] (bv_views l)"

section \<open>The contract\<close>

text \<open>
  A string of type \<open>'s\<close> that is valid under \<open>ok\<close>, shows the bytes \<open>str\<close>, reports their number and
  discards a prefix, or throws \<open>out_of_range\<close> where there are not that many bytes.
\<close>

locale discardable_string =
  fixes ok :: "'s \<Rightarrow> bool" and str :: "'s \<Rightarrow> bytes" and sz :: "'s \<Rightarrow> size_t"
    and discard :: "size_t \<Rightarrow> 's \<Rightarrow> cpp_failure + 's"
  assumes sz: "ok b \<Longrightarrow> unat (sz b) = length (str b)"
    and discard: "ok b \<Longrightarrow> unat n \<le> length (str b) \<Longrightarrow>
      \<exists>b'. discard n b = Inr b' \<and> ok b' \<and> str b' = drop (unat n) (str b)"
    and discard_beyond: "ok b \<Longrightarrow> length (str b) < unat n \<Longrightarrow> \<exists>msg. discard n b = Inl (out_of_range msg)"
begin

lemma discard_Inr:
  assumes "ok b" and "discard n b = Inr b'"
  shows "unat n \<le> length (str b)" "ok b'" "str b' = drop (unat n) (str b)"
    and "sz b' = sz b - n"
proof -
  show le: "unat n \<le> length (str b)"
    using discard_beyond [OF assms(1), of n] assms(2) by (cases "length (str b) < unat n") auto
  show *: "ok b'" "str b' = drop (unat n) (str b)" using discard [OF assms(1) le] assms(2) by auto
  have "n \<le> sz b" using le sz [OF assms(1)] by (simp add: word_le_nat_alt)
  then show "sz b' = sz b - n"
    using sz [OF assms(1)] sz [OF *(1)] *(2) by (simp add: word_unat_eq_iff unat_diff_64)
qed

text \<open>Any number of calls removes the sum, or the calls fail exactly when the sum is too big.\<close>

lemma discard_all:
  assumes "ok b"
  shows "if sum_list (map unat ns) \<le> length (str b)
    then \<exists>b'. foldl (\<lambda>r n. and_then r (discard n)) (Inr b) ns = Inr b' \<and> ok b' \<and>
      str b' = drop (sum_list (map unat ns)) (str b)
    else \<exists>msg. foldl (\<lambda>r n. and_then r (discard n)) (Inr b) ns = Inl (out_of_range msg)"
  using assms
proof (induction ns arbitrary: b)
  case Nil
  then show ?case by simp
next
  case (Cons n ns)
  have stuck: "foldl (\<lambda>r n. and_then r (discard n)) (Inl e) ns = Inl e" for e by (induction ns) auto
  show ?case
  proof (cases "unat n \<le> length (str b)")
    case True
    then obtain b' where "discard n b = Inr b'" "ok b'" "str b' = drop (unat n) (str b)"
      using discard [OF Cons.prems] by blast
    moreover have "sum_list (map unat ns) \<le> length (str b) - unat n \<longleftrightarrow>
        unat n + sum_list (map unat ns) \<le> length (str b)" using True by linarith
    ultimately show ?thesis using Cons.IH [of b']
      by (cases "unat n + sum_list (map unat ns) \<le> length (str b)") (simp_all add: add.commute)
  next
    case False
    then show ?thesis using discard_beyond [OF Cons.prems, of n] stuck by auto
  qed
qed

end

section \<open>Invariants\<close>

definition Buffer_ok :: "Buffer \<Rightarrow> bool" where
  "Buffer_ok b = (case bf_storage b of
      None \<Rightarrow> True
    | Some s \<Rightarrow> addressable s \<and> unat (bf_starting_offset b) \<le> length s)"

definition BufferList_ok :: "BufferList \<Rightarrow> bool" where
  "BufferList_ok l \<longleftrightarrow> list_all Buffer_ok (bl_buffers l) \<and>
     addressable (concat (map Buffer_str (bl_buffers l)))"

definition BufferViewList_ok :: "BufferViewList \<Rightarrow> bool" where
  "BufferViewList_ok l \<longleftrightarrow> addressable (concat (bv_views l))"

text \<open>The accumulating loops as library functions.\<close>

lemma foldl_append_each: "foldl (\<lambda>acc x. acc @ f x) acc xs = acc @ concat (map f xs)"
  by (induction xs arbitrary: acc) simp_all

lemma foldl_push_back: "foldl (\<lambda>acc x. acc @ [f x]) acc xs = acc @ map f xs"
  by (induction xs arbitrary: acc) simp_all

lemma foldl_size_of: "foldl (\<lambda>acc x. acc + size_of (f x)) acc xs = acc + size_of (concat (map f xs))"
  by (induction xs arbitrary: acc) (simp_all add: add.assoc)

lemma BufferList_append_buffers [simp]:
  "bl_buffers (BufferList_append other l) = bl_buffers l @ bl_buffers other"
  by (simp add: BufferList_append_def foldl_push_back [of "\<lambda>x. x", simplified])

lemma BufferList_concatenate_eq: "BufferList_concatenate l = concat (map Buffer_str (bl_buffers l))"
  by (simp add: BufferList_concatenate_def foldl_append_each)

lemma BufferList_size_eq: "BufferList_size l = size_of (BufferList_concatenate l)"
  by (simp add: BufferList_size_def Buffer_size_def foldl_size_of BufferList_concatenate_eq)

lemma BufferViewList_of_list_views: "bv_views (BufferViewList_of_list l) = map Buffer_str (bl_buffers l)"
  by (simp add: BufferViewList_of_list_def foldl_push_back)

lemma BufferViewList_size_eq: "BufferViewList_size l = size_of (concat (bv_views l))"
  using foldl_size_of [of "\<lambda>x :: bytes. x"] by (simp add: BufferViewList_size_def)

lemma Buffer_str_drop:
  "Buffer_ok b \<Longrightarrow> bf_storage b = Some s \<Longrightarrow> Buffer_str b = drop (unat (bf_starting_offset b)) s"
  by (simp add: Buffer_str_def Buffer_ok_def unat_diff_64 unat_size_of word_le_nat_alt)

lemma Buffer_ok_addressable: "Buffer_ok b \<Longrightarrow> addressable (Buffer_str b)"
  by (cases "bf_storage b") (auto simp: Buffer_str_def Buffer_ok_def)

lemma Buffer_of_ok [simp]: "addressable s \<Longrightarrow> Buffer_ok (Buffer_of s)"
  and Buffer_of_str [simp]: "addressable s \<Longrightarrow> Buffer_str (Buffer_of s) = s"
  by (simp_all add: Buffer_of_def Buffer_ok_def Buffer_str_def unat_size_of)

lemma Buffer_remove_prefix_ok:
  assumes ok: "Buffer_ok b" and n: "unat n \<le> length (Buffer_str b)"
  shows "\<exists>b'. Buffer_remove_prefix n b = Inr b' \<and> Buffer_ok b' \<and>
    Buffer_str b' = drop (unat n) (Buffer_str b)"
proof (cases "bf_storage b")
  case None
  then show ?thesis
    using n by (simp add: Buffer_remove_prefix_def Buffer_ok_def Buffer_str_def word_less_nat_alt)
next
  case (Some s)
  let ?off = "bf_starting_offset b" and ?b = "b\<lparr>bf_starting_offset := bf_starting_offset b + n\<rparr>"
  have s: "addressable s" "unat ?off \<le> length s" using ok Some by (simp_all add: Buffer_ok_def)
  have str: "Buffer_str b = drop (unat ?off) s" by (rule Buffer_str_drop [OF ok Some])
  have le: "unat ?off + unat n \<le> length s" using n s(2) by (simp add: str)
  then have off: "unat (?off + n) = unat ?off + unat n"
    using s(1) by (simp add: unat_add_64 addressable_def)
  have ok': "Buffer_ok ?b" using s(1) le off Some by (simp add: Buffer_ok_def)
  have "\<not> size_of (Buffer_str b) < n"
    using n Buffer_ok_addressable [OF ok] by (simp add: word_less_nat_alt unat_size_of)
  then have step: "Buffer_remove_prefix n b =
      Inr (if ?off + n = size_of s then ?b\<lparr>bf_storage := None\<rparr> else ?b)"
    using Some by (simp add: Buffer_remove_prefix_def Let_def)
  show ?thesis
  proof (cases "?off + n = size_of s")
    case True
    then have "length s \<le> unat ?off + unat n" using off s(1) by (simp add: unat_size_of)
    then have "drop (unat n) (Buffer_str b) = []" by (simp add: str)
    then show ?thesis using step True by (simp add: Buffer_ok_def Buffer_str_def)
  next
    case False
    then show ?thesis
      using step ok' Buffer_str_drop [OF ok'] Some off by (simp add: str add.commute)
  qed
qed

interpretation buf: discardable_string Buffer_ok Buffer_str Buffer_size Buffer_remove_prefix
proof
  show "unat (Buffer_size b) = length (Buffer_str b)" if "Buffer_ok b" for b
    using Buffer_ok_addressable [OF that] by (simp add: Buffer_size_def unat_size_of)
  show "\<exists>msg. Buffer_remove_prefix n b = Inl (out_of_range msg)"
    if "Buffer_ok b" "length (Buffer_str b) < unat n" for n b
    using that Buffer_ok_addressable [OF that(1)]
    by (simp add: Buffer_remove_prefix_def word_less_nat_alt unat_size_of)
qed (rule Buffer_remove_prefix_ok)

text \<open>The two list loops: that of the views drops a prefix, that of the buffers does the same.\<close>

lemma BufferViewList_remove_loop_spec:
  assumes "addressable (concat vs)"
  shows "if unat n \<le> length (concat vs)
    then \<exists>vs'. BufferViewList_remove_loop n vs = Inr vs' \<and> concat vs' = drop (unat n) (concat vs)
    else BufferViewList_remove_loop n vs = Inl (out_of_range ''BufferListView::remove_prefix'')"
  using assms
proof (induction n vs rule: BufferViewList_remove_loop.induct)
  case (1 n)
  then show ?case by (auto simp: word_less_nat_alt)
next
  case (2 n v vs)
  have ad: "addressable v" "addressable (concat vs)"
    using "2.prems" by (simp_all add: addressable_def)
  have zero: "n = 0 \<longleftrightarrow> unat n = 0" by (simp add: unat_eq_0)
  show ?case
  proof (cases "0 < n \<and> \<not> n < size_of v")
    case True
    then have le: "size_of v \<le> n" "length v \<le> unat n" using ad by (simp_all add: size_order unat_size_of)
    have n': "unat (n - size_of v) = unat n - length v" using le ad by (simp add: unat_diff_64 unat_size_of)
    have "BufferViewList_remove_loop n (v # vs) = BufferViewList_remove_loop (n - size_of v) vs"
      using True by simp
    moreover have "unat n - length v \<le> length (concat vs) \<longleftrightarrow> unat n \<le> length (concat (v # vs))"
      using le by auto
    moreover have "drop (unat n) (concat (v # vs)) = drop (unat n - length v) (concat vs)"
      using le by simp
    moreover have "if unat n - length v \<le> length (concat vs)
        then \<exists>vs'. BufferViewList_remove_loop (n - size_of v) vs = Inr vs' \<and>
          concat vs' = drop (unat n - length v) (concat vs)
        else BufferViewList_remove_loop (n - size_of v) vs =
          Inl (out_of_range ''BufferListView::remove_prefix'')"
      using "2.IH" [unfolded n'] True ad(2) by blast
    ultimately show ?thesis by (simp only:)
  next
    case False
    then consider "n = 0" | "0 < n" "n < size_of v" by (auto simp: word_gt_0)
    then show ?thesis using ad by cases (auto simp: size_order unat_size_of)
  qed
qed

lemma BufferList_remove_loop_views:
  assumes "list_all Buffer_ok bs"
  shows "case BufferList_remove_loop n bs of
      Inr bs' \<Rightarrow> list_all Buffer_ok bs' \<and>
        BufferViewList_remove_loop n (map Buffer_str bs) = Inr (map Buffer_str bs')
    | Inl e \<Rightarrow> e = out_of_range ''BufferList::remove_prefix'' \<and>
        BufferViewList_remove_loop n (map Buffer_str bs) =
          Inl (out_of_range ''BufferListView::remove_prefix'')"
  using assms
proof (induction n bs rule: BufferList_remove_loop.induct)
  case (2 n b bs)
  have "\<exists>b'. Buffer_remove_prefix n b = Inr b' \<and> Buffer_ok b' \<and> Buffer_str b' = drop (unat n) (Buffer_str b)"
    if "n < size_of (Buffer_str b)"
    using "2.prems" that unat_size_of_le [of "Buffer_str b"]
    by (intro Buffer_remove_prefix_ok) (simp_all add: word_less_nat_alt)
  with 2 show ?case by (auto split: sum.splits)
qed simp

interpretation views: discardable_string BufferViewList_ok "\<lambda>l. concat (bv_views l)"
  BufferViewList_size BufferViewList_remove_prefix
proof
  fix b :: BufferViewList and n assume ok: "BufferViewList_ok b"
  note loop = BufferViewList_remove_loop_spec [OF ok [unfolded BufferViewList_ok_def], of n]
  show "unat (BufferViewList_size b) = length (concat (bv_views b))"
    using ok by (simp only: BufferViewList_size_eq BufferViewList_ok_def unat_size_of)
  show "\<exists>b'. BufferViewList_remove_prefix n b = Inr b' \<and> BufferViewList_ok b' \<and>
      concat (bv_views b') = drop (unat n) (concat (bv_views b))"
    if "unat n \<le> length (concat (bv_views b))"
    using loop that ok
    by (auto simp: BufferViewList_remove_prefix_def BufferViewList_ok_def simp del: length_concat)
  show "\<exists>msg. BufferViewList_remove_prefix n b = Inl (out_of_range msg)"
    if "length (concat (bv_views b)) < unat n"
    using loop that by (auto simp: BufferViewList_remove_prefix_def simp del: length_concat)
qed

lemma BufferList_remove_prefix_views:
  assumes "BufferList_ok l"
  shows "case BufferList_remove_prefix n l of
      Inr l' \<Rightarrow> BufferList_ok l' \<and>
        BufferViewList_remove_prefix n (BufferViewList_of_list l) = Inr (BufferViewList_of_list l')
    | Inl e \<Rightarrow> e = out_of_range ''BufferList::remove_prefix'' \<and>
        BufferViewList_remove_prefix n (BufferViewList_of_list l) =
          Inl (out_of_range ''BufferListView::remove_prefix'')"
proof -
  have oks: "list_all Buffer_ok (bl_buffers l)" and ad: "addressable (concat (map Buffer_str (bl_buffers l)))"
    using assms by (simp_all add: BufferList_ok_def)
  note loop = BufferList_remove_loop_views [OF oks, of n]
  show ?thesis
  proof (cases "BufferList_remove_loop n (bl_buffers l)")
    case (Inl e)
    then show ?thesis
      using loop by (simp add: BufferList_remove_prefix_def BufferViewList_remove_prefix_def
          BufferViewList_of_list_views)
  next
    case (Inr bs)
    then have "addressable (concat (map Buffer_str bs))"
      using loop BufferViewList_remove_loop_spec [OF ad, of n] ad by (auto split: if_splits)
    then show ?thesis
      using loop Inr by (simp add: BufferList_remove_prefix_def BufferViewList_remove_prefix_def
          BufferViewList_of_list_def BufferList_ok_def foldl_push_back)
  qed
qed

interpretation bufs: discardable_string BufferList_ok BufferList_concatenate BufferList_size
  BufferList_remove_prefix
proof
  fix b :: BufferList and n assume ok: "BufferList_ok b"
  have views: "BufferViewList_ok (BufferViewList_of_list b)"
    and shown: "\<And>b. concat (bv_views (BufferViewList_of_list b)) = BufferList_concatenate b"
    using ok by (simp_all add: BufferViewList_ok_def BufferViewList_of_list_views BufferList_ok_def
        BufferList_concatenate_eq)
  note sim = BufferList_remove_prefix_views [OF ok, of n]
  show "unat (BufferList_size b) = length (BufferList_concatenate b)"
    using ok by (simp only: BufferList_size_eq BufferList_concatenate_eq BufferList_ok_def unat_size_of)
  show "\<exists>b'. BufferList_remove_prefix n b = Inr b' \<and> BufferList_ok b' \<and>
      BufferList_concatenate b' = drop (unat n) (BufferList_concatenate b)"
    if "unat n \<le> length (BufferList_concatenate b)"
    using views.discard [OF views, of n] that sim unfolding shown by (auto simp: shown split: sum.splits)
  show "\<exists>msg. BufferList_remove_prefix n b = Inl (out_of_range msg)"
    if "length (BufferList_concatenate b) < unat n"
    using views.discard_beyond [OF views, of n] that sim unfolding shown by (auto split: sum.splits)
qed

section \<open>Properties\<close>

text \<open>
  Claim C31. A \<open>BufferList\<close> behaves as the one string \<open>concatenate()\<close> shows: any sequence of
  \<open>remove_prefix\<close> calls removes as many bytes as the calls ask for in total, across the borders of
  the buffers, and throws \<open>out_of_range\<close> exactly when the string is shorter than that.
\<close>

theorem BufferList_remove_prefixes:
  assumes "BufferList_ok l"
  shows "if sum_list (map unat ns) \<le> length (BufferList_concatenate l)
    then \<exists>l'. foldl (\<lambda>r n. and_then r (BufferList_remove_prefix n)) (Inr l) ns = Inr l' \<and>
      BufferList_concatenate l' = drop (sum_list (map unat ns)) (BufferList_concatenate l) \<and>
      unat (BufferList_size l') = length (BufferList_concatenate l) - sum_list (map unat ns)
    else \<exists>msg. foldl (\<lambda>r n. and_then r (BufferList_remove_prefix n)) (Inr l) ns = Inl (out_of_range msg)"
  using bufs.discard_all [OF assms, of ns] bufs.sz by (auto split: if_splits)

theorem BufferList_remove_prefixes_witness:
  "\<exists>l'. foldl (\<lambda>r n. and_then r (BufferList_remove_prefix n))
      (Inr (BufferList_append (BufferList_of_string [4, 5, 6]) (BufferList_of_string [1, 2]))) [1, 3] = Inr l' \<and>
    BufferList_concatenate l' = [6]"
proof -
  let ?l = "BufferList_append (BufferList_of_string [4, 5, 6]) (BufferList_of_string [1, 2])"
  have "BufferList_ok ?l" and c: "BufferList_concatenate ?l = [1, 2, 4, 5, 6]"
    by (simp_all add: BufferList_ok_def BufferList_concatenate_eq BufferList_of_string_def
        BufferList_of_buffer_def BufferList_empty_def addressable_def)
  from BufferList_remove_prefixes [OF this(1), of "[1, 3]"] show ?thesis unfolding c by auto
qed

text \<open>
  Viewing a \<open>BufferList\<close> commutes with discarding: \<open>remove_prefix\<close> on the views gives
  the views of the list after \<open>remove_prefix\<close>, view for view, and fails exactly when that fails.
\<close>

theorem BufferViewList_remove_prefix_simulates:
  assumes "BufferList_ok l"
  shows "case BufferList_remove_prefix n l of
      Inr l' \<Rightarrow> BufferViewList_remove_prefix n (BufferViewList_of_list l) = Inr (BufferViewList_of_list l')
    | Inl e \<Rightarrow> BufferViewList_remove_prefix n (BufferViewList_of_list l) =
        Inl (out_of_range ''BufferListView::remove_prefix'')"
  using BufferList_remove_prefix_views [OF assms, of n] by (auto split: sum.splits)

theorem BufferViewList_remove_prefix_simulates_witness:
  "BufferViewList_remove_prefix 2 (BufferViewList_of_list (BufferList_of_string [1, 2, 3])) =
     Inr (BufferViewList_of_view [3])"
proof -
  have ok: "BufferList_ok (BufferList_of_string [1, 2, 3])"
    by (simp add: BufferList_ok_def BufferList_of_string_def BufferList_of_buffer_def
        BufferList_empty_def addressable_def)
  have "map_sum id BufferViewList_of_list (BufferList_remove_prefix 2 (BufferList_of_string [1, 2, 3])) =
      Inr (BufferViewList_of_view [3])"
    by code_simp
  then show ?thesis
    using BufferViewList_remove_prefix_simulates [OF ok, of 2] by (auto split: sum.splits)
qed

end
