(* ===== verification/Net_Parser.thy ===== *)
theory Net_Parser
  imports Buffer
begin

unbundle bit_operations_syntax

text \<open>
  Integers in network byte order: \<open>libsponge/util/parser.hh\<close> and \<open>parser.cc\<close>. The templates
  \<open>_parse_int<T>\<close> and \<open>_unparse_int<T>\<close> are polymorphic in the word type, and their three instances
  share the contract of the locale \<open>net_field\<close>.
\<close>

section \<open>ParseResult\<close>

datatype ParseResult =
    NoError
  | BadChecksum
  | PacketTooShort
  | WrongIPVersion
  | HeaderTooShort
  | TruncatedPacket
  | Unsupported

text \<open>The underlying value of an enumerator, which \<open>static_cast<size_t>\<close> gives.\<close>

primrec ParseResult_value :: "ParseResult \<Rightarrow> size_t" where
  "ParseResult_value NoError = 0"
| "ParseResult_value BadChecksum = 1"
| "ParseResult_value PacketTooShort = 2"
| "ParseResult_value WrongIPVersion = 3"
| "ParseResult_value HeaderTooShort = 4"
| "ParseResult_value TruncatedPacket = 5"
| "ParseResult_value Unsupported = 6"

lemma ParseResult_value_inject: "ParseResult_value a = ParseResult_value b \<longleftrightarrow> a = b"
  by (cases a; cases b) simp_all

text \<open>C++ compares the values of an \<open>enum class\<close> by their underlying integers.\<close>

instantiation ParseResult :: linorder
begin

definition less_eq_ParseResult :: "ParseResult \<Rightarrow> ParseResult \<Rightarrow> bool" where
  "a \<le> b \<longleftrightarrow> ParseResult_value a \<le> ParseResult_value b"

definition less_ParseResult :: "ParseResult \<Rightarrow> ParseResult \<Rightarrow> bool" where
  "a < b \<longleftrightarrow> ParseResult_value a < ParseResult_value b"

instance
  by standard (auto simp: less_eq_ParseResult_def less_ParseResult_def less_le ParseResult_value_inject)

end

definition parse_result_names :: "string list" where
  "parse_result_names =
     [''NoError'', ''BadChecksum'', ''PacketTooShort'', ''WrongIPVersion'', ''HeaderTooShort'',
      ''TruncatedPacket'']"

definition as_string :: "ParseResult \<Rightarrow> cpp_failure + string" where
  "as_string r =
     (if unat (ParseResult_value r) < length parse_result_names
      then Inr (parse_result_names ! unat (ParseResult_value r))
      else Inl undefined_behaviour)"

section \<open>NetParser\<close>

record NetParser =
  np_buffer :: Buffer
  np_error :: ParseResult

definition NetParser_new :: "Buffer \<Rightarrow> NetParser" where
  "NetParser_new buffer = \<lparr>np_buffer = buffer, np_error = NoError\<rparr>"

definition NetParser_buffer :: "NetParser \<Rightarrow> Buffer" where
  "NetParser_buffer p = np_buffer p"

definition NetParser_get_error :: "NetParser \<Rightarrow> ParseResult" where
  "NetParser_get_error p = np_error p"

definition NetParser_set_error :: "ParseResult \<Rightarrow> NetParser \<Rightarrow> NetParser" where
  "NetParser_set_error res p = p\<lparr>np_error := res\<rparr>"

definition NetParser_error :: "NetParser \<Rightarrow> bool" where
  "NetParser_error p \<longleftrightarrow> NetParser_get_error p \<noteq> NoError"

definition NetParser_check_size :: "size_t \<Rightarrow> NetParser \<Rightarrow> NetParser" where
  "NetParser_check_size n p =
     (if Buffer_size (np_buffer p) < n then NetParser_set_error PacketTooShort p else p)"

definition parse_int_loop :: "nat \<Rightarrow> Buffer \<Rightarrow> cpp_failure + 'a::len word" where
  "parse_int_loop len b =
     foldl (\<lambda>r i. and_then r (\<lambda>ret. and_then (Buffer_at (of_nat i) b) (\<lambda>c. Inr (push_bit 8 ret + ucast c))))
       (Inr 0) [0..<len]"

definition NetParser_parse_int :: "NetParser \<Rightarrow> cpp_failure + 'a::len word \<times> NetParser" where
  "NetParser_parse_int p =
     (let len = LENGTH('a) div 8;
          p = NetParser_check_size (of_nat len) p
      in if NetParser_error p then Inr (0, p)
         else and_then (parse_int_loop len (np_buffer p))
           (\<lambda>ret. and_then (Buffer_remove_prefix (of_nat len) (np_buffer p))
             (\<lambda>b. Inr (ret, p\<lparr>np_buffer := b\<rparr>))))"

definition NetParser_remove_prefix :: "size_t \<Rightarrow> NetParser \<Rightarrow> cpp_failure + NetParser" where
  "NetParser_remove_prefix n p =
     (let p = NetParser_check_size n p
      in if NetParser_error p then Inr p
         else and_then (Buffer_remove_prefix n (np_buffer p)) (\<lambda>b. Inr (p\<lparr>np_buffer := b\<rparr>)))"

definition NetParser_u32 :: "NetParser \<Rightarrow> cpp_failure + u32 \<times> NetParser" where
  "NetParser_u32 p = NetParser_parse_int p"

definition NetParser_u16 :: "NetParser \<Rightarrow> cpp_failure + u16 \<times> NetParser" where
  "NetParser_u16 p = NetParser_parse_int p"

definition NetParser_u8 :: "NetParser \<Rightarrow> cpp_failure + u8 \<times> NetParser" where
  "NetParser_u8 p = NetParser_parse_int p"

section \<open>NetUnparser\<close>

definition NetUnparser_unparse_int :: "bytes \<Rightarrow> 'a::len word \<Rightarrow> bytes" where
  "NetUnparser_unparse_int s val =
     (let len = LENGTH('a) div 8
      in foldl (\<lambda>s i. s @ [ucast (drop_bit ((len - i - 1) * 8) val AND 0xff)]) s [0..<len])"

definition NetUnparser_u32 :: "bytes \<Rightarrow> u32 \<Rightarrow> bytes" where
  "NetUnparser_u32 s val = NetUnparser_unparse_int s val"

definition NetUnparser_u16 :: "bytes \<Rightarrow> u16 \<Rightarrow> bytes" where
  "NetUnparser_u16 s val = NetUnparser_unparse_int s val"

definition NetUnparser_u8 :: "bytes \<Rightarrow> u8 \<Rightarrow> bytes" where
  "NetUnparser_u8 s val = NetUnparser_unparse_int s val"

section \<open>Big-endian numbers\<close>

definition be_value :: "bytes \<Rightarrow> nat" where
  "be_value bs = foldl (\<lambda>n b. n * 256 + unat b) 0 bs"

definition be_bytes :: "nat \<Rightarrow> 'a::len word \<Rightarrow> bytes" where
  "be_bytes k val = map (\<lambda>i. ucast (drop_bit ((k - i - 1) * 8) val)) [0..<k]"

lemma be_value_snoc: "be_value (bs @ [b]) = be_value bs * 256 + unat b"
  by (simp add: be_value_def)

lemma be_value_Nil [simp]: "be_value [] = 0"
  by (simp add: be_value_def)

lemma be_value_Cons: "be_value (b # bs) = unat b * 256 ^ length bs + be_value bs"
  by (induction bs rule: rev_induct)
     (simp_all only: be_value_snoc append_Cons [symmetric], simp_all add: be_value_def algebra_simps)

lemma length_be_bytes [simp]: "length (be_bytes k val) = k"
  by (simp add: be_bytes_def)

lemma be_bytes_Suc: "be_bytes (Suc k) val = ucast (drop_bit (k * 8) val) # be_bytes k val"
  by (simp add: be_bytes_def upt_conv_Cons map_Suc_upt [symmetric] del: upt_Suc)

lemma unat_ucast_drop_bit:
  "unat (ucast (drop_bit (k * 8) (val :: 'a::len word)) :: u8) = unat val div 256 ^ k mod 256"
proof -
  have "(2 :: nat) ^ (k * 8) = 256 ^ k" by (simp add: mult.commute [of k] power_mult)
  then show ?thesis
    unfolding unsigned_ucast_eq unsigned_drop_bit_eq by (simp add: drop_bit_eq_div take_bit_eq_mod)
qed

lemma be_value_be_bytes: "be_value (be_bytes k val) = unat val mod 256 ^ k"
proof (induction k)
  case 0
  then show ?case by (simp add: be_bytes_def)
next
  case (Suc k)
  then show ?case
    using mod_mult2_eq [of "unat val" "256 ^ k" 256]
    by (simp add: be_bytes_Suc be_value_Cons unat_ucast_drop_bit mult.commute)
qed

lemma be_value_be_bytes_word:
  assumes "8 dvd LENGTH('a)"
  shows "(of_nat (be_value (be_bytes (LENGTH('a) div 8) val)) :: 'a::len word) = val"
proof -
  have "(256 :: nat) ^ (LENGTH('a) div 8) = 2 ^ LENGTH('a)"
    using assms power_mult [of "2 :: nat" 8 "LENGTH('a) div 8"] by simp
  then show ?thesis using unsigned_less [of val] by (simp add: be_value_be_bytes)
qed

lemma NetUnparser_unparse_int_eq:
  "NetUnparser_unparse_int s (val :: 'a::len word) = s @ be_bytes (LENGTH('a) div 8) val"
proof -
  have ff: "(0xff :: 'a word) = mask 8" by (simp add: mask_eq_exp_minus_1)
  have "ucast (w AND 0xff) = (ucast w :: u8)" for w :: "'a word"
    unfolding ff by (rule bit_word_eqI) (auto simp: bit_simps dest: bit_imp_le_length)
  then show ?thesis by (simp add: NetUnparser_unparse_int_def be_bytes_def foldl_push_back Let_def)
qed

section \<open>The parser by the bytes it shows\<close>

text \<open>\<open>np_at p e bs\<close>: the parser is valid, its error is \<open>e\<close> and it has the bytes \<open>bs\<close> left.\<close>

definition np_at :: "NetParser \<Rightarrow> ParseResult \<Rightarrow> bytes \<Rightarrow> bool" where
  "np_at p e bs \<longleftrightarrow> Buffer_ok (np_buffer p) \<and> np_error p = e \<and> Buffer_str (np_buffer p) = bs"

lemma np_at_new: "Buffer_ok b \<Longrightarrow> np_at (NetParser_new b) NoError (Buffer_str b)"
  by (simp add: np_at_def NetParser_new_def)

lemma np_at_error: "np_at p e bs \<Longrightarrow> NetParser_get_error p = e" "np_at p e bs \<Longrightarrow> NetParser_error p \<longleftrightarrow> e \<noteq> NoError"
  and np_at_buffer: "np_at p e bs \<Longrightarrow> Buffer_str (NetParser_buffer p) = bs"
    "np_at p e bs \<Longrightarrow> Buffer_ok (NetParser_buffer p)"
  by (simp_all add: np_at_def NetParser_error_def NetParser_get_error_def NetParser_buffer_def)

text \<open>The error a call that needs \<open>k\<close> bytes leaves behind.\<close>

definition np_after :: "nat \<Rightarrow> ParseResult \<Rightarrow> bytes \<Rightarrow> ParseResult" where
  "np_after k e bs = (if length bs < k then PacketTooShort else e)"

lemma np_after_simps [simp]:
  "k \<le> length bs \<Longrightarrow> np_after k e bs = e"
  "length bs < k \<Longrightarrow> np_after k e bs = PacketTooShort"
  "np_after k PacketTooShort bs = PacketTooShort"
  "np_after k e bs = NoError \<longleftrightarrow> k \<le> length bs \<and> e = NoError"
  by (auto simp: np_after_def)

lemma np_at_check:
  assumes "np_at p e bs"
  shows "np_at (NetParser_check_size n p) (np_after (unat n) e bs) bs"
proof -
  have "Buffer_size (np_buffer p) < n \<longleftrightarrow> length bs < unat n"
    using assms buf.sz [of "np_buffer p"] by (simp add: np_at_def word_less_nat_alt)
  then show ?thesis
    using assms by (simp add: np_at_def np_after_def NetParser_check_size_def NetParser_set_error_def)
qed

lemma np_at_remove_prefix:
  assumes "np_at p e bs"
  shows "\<exists>p'. NetParser_remove_prefix n p = Inr p' \<and>
    np_at p' (np_after (unat n) e bs) (if np_after (unat n) e bs = NoError then drop (unat n) bs else bs)"
proof -
  let ?p = "NetParser_check_size n p"
  have at: "np_at ?p (np_after (unat n) e bs) bs" by (rule np_at_check [OF assms])
  show ?thesis
  proof (cases "np_after (unat n) e bs = NoError")
    case True
    then obtain b where b: "Buffer_remove_prefix n (np_buffer ?p) = Inr b" "Buffer_ok b"
        "Buffer_str b = drop (unat n) bs"
      using at buf.discard [of "np_buffer ?p" n] by (auto simp: np_at_def split: if_splits)
    then have "NetParser_remove_prefix n p = Inr (?p\<lparr>np_buffer := b\<rparr>)"
      using True np_at_error(2) [OF at] by (simp add: NetParser_remove_prefix_def Let_def)
    then show ?thesis using b at True by (simp add: np_at_def)
  next
    case False
    then show ?thesis using at np_at_error(2) [OF at] by (auto simp: NetParser_remove_prefix_def Let_def)
  qed
qed

lemma parse_int_loop_eq:
  "k \<le> length (Buffer_str b) \<Longrightarrow> k < 2 ^ 64 \<Longrightarrow>
   parse_int_loop k b = Inr (of_nat (be_value (take k (Buffer_str b))) :: 'a::len word)"
proof (induction k)
  case 0
  then show ?case by (simp add: parse_int_loop_def)
next
  case (Suc k)
  have "Buffer_at (of_nat k) b = Inr (Buffer_str b ! k)"
    using Suc.prems by (simp add: Buffer_at_def unat_of_nat_64)
  moreover have "parse_int_loop k b = Inr (of_nat (be_value (take k (Buffer_str b))) :: 'a word)"
    using Suc by simp
  ultimately show ?case
    using Suc.prems
    by (simp add: parse_int_loop_def take_Suc_conv_app_nth be_value_snoc push_bit_eq_mult mult.commute)
qed

lemma np_at_parse_int:
  assumes "np_at p e bs" and "LENGTH('a) < 2 ^ 64"
  defines "k \<equiv> LENGTH('a) div 8"
  shows "\<exists>p'. NetParser_parse_int p =
      Inr (if np_after k e bs = NoError then of_nat (be_value (take k bs)) :: 'a::len word else 0, p') \<and>
    np_at p' (np_after k e bs) (if np_after k e bs = NoError then drop k bs else bs)"
proof -
  let ?p = "NetParser_check_size (of_nat k) p"
  have k: "k < 2 ^ 64" using assms(2) unfolding k_def by (meson div_le_dividend le_less_trans)
  then have un: "unat (of_nat k :: size_t) = k" by (rule unat_of_nat_64)
  have at: "np_at ?p (np_after k e bs) bs" using np_at_check [OF assms(1), of "of_nat k"] by (simp only: un)
  have int: "NetParser_parse_int p = (if NetParser_error ?p then Inr (0 :: 'a word, ?p) else
      and_then (parse_int_loop k (np_buffer ?p)) (\<lambda>ret. and_then (Buffer_remove_prefix (of_nat k) (np_buffer ?p))
        (\<lambda>b. Inr (ret, ?p\<lparr>np_buffer := b\<rparr>))))"
    by (simp add: NetParser_parse_int_def k_def Let_def)
  show ?thesis
  proof (cases "np_after k e bs = NoError")
    case True
    then have str: "Buffer_str (np_buffer ?p) = bs" "k \<le> length bs" "Buffer_ok (np_buffer ?p)"
      using at by (auto simp: np_at_def split: if_splits)
    obtain b where b: "Buffer_remove_prefix (of_nat k) (np_buffer ?p) = Inr b" "Buffer_ok b"
        "Buffer_str b = drop k bs"
      using buf.discard [OF str(3), of "of_nat k"] str by (auto simp: un)
    have "parse_int_loop k (np_buffer ?p) = Inr (of_nat (be_value (take k bs)) :: 'a word)"
      using parse_int_loop_eq [of k "np_buffer ?p"] k str by simp
    then have "NetParser_parse_int p = Inr (of_nat (be_value (take k bs)) :: 'a word, ?p\<lparr>np_buffer := b\<rparr>)"
      using int True np_at_error(2) [OF at] b by simp
    then show ?thesis using b at True by (simp add: np_at_def)
  next
    case False
    then show ?thesis using at np_at_error(2) [OF at] int by auto
  qed
qed

text \<open>Fewer than \<open>n\<close> bytes are left, or a read has already failed for lack of bytes.\<close>

definition np_lack :: "nat \<Rightarrow> NetParser \<Rightarrow> bool" where
  "np_lack n p \<longleftrightarrow> (\<exists>e bs. np_at p e bs \<and> (e = PacketTooShort \<or> e = NoError \<and> length bs < n))"

section \<open>The contract of the fields\<close>

text \<open>
  A field of \<open>k\<close> bytes: \<open>rd\<close> decodes the next \<open>k\<close> bytes, or leaves the bytes alone, yields 0 and
  records an error; \<open>wr\<close> appends the encoding.
\<close>

locale net_field =
  fixes k :: nat and rd :: "NetParser \<Rightarrow> cpp_failure + 'w::len word \<times> NetParser"
    and wr :: "bytes \<Rightarrow> 'w word \<Rightarrow> bytes" and dec :: "bytes \<Rightarrow> 'w word" and enc :: "'w word \<Rightarrow> bytes"
  assumes rd: "np_at p e bs \<Longrightarrow>
      \<exists>p'. rd p = Inr (if np_after k e bs = NoError then dec (take k bs) else 0, p') \<and>
        np_at p' (np_after k e bs) (if np_after k e bs = NoError then drop k bs else bs)"
    and wr: "wr s v = s @ enc v"
    and length_enc: "length (enc v) = k"
    and dec_enc: "dec (enc v) = v"
begin

lemma rd_next:
  assumes "np_at p NoError bs" "k \<le> length bs"
  obtains p' where "rd p = Inr (dec (take k bs), p')" "np_at p' NoError (drop k bs)"
  using rd [OF assms(1)] assms(2) by (auto split: if_splits)

lemma rd_enc:
  assumes "np_at p NoError (enc v @ bs)"
  obtains p' where "rd p = Inr (v, p')" "np_at p' NoError bs"
  using rd_next [OF assms] length_enc [of v] dec_enc [of v] by auto

lemma rd_stuck:
  assumes "np_at p e bs" "np_after k e bs \<noteq> NoError"
  obtains p' where "rd p = Inr (0, p')" "np_at p' (np_after k e bs) bs"
  using rd [OF assms(1)] assms(2) by (auto split: if_splits)

lemma rd_lack:
  assumes "np_lack n p" "k \<le> n"
  shows "\<exists>v p'. rd p = Inr (v, p') \<and> np_lack (n - k) p'"
proof -
  obtain e bs where at: "np_at p e bs" and e: "e = PacketTooShort \<or> e = NoError \<and> length bs < n"
    using assms(1) by (auto simp: np_lack_def)
  let ?bs = "if np_after k e bs = NoError then drop k bs else bs"
  have "np_after k e bs = PacketTooShort \<or> np_after k e bs = NoError \<and> length ?bs < n - k"
    using e assms(2) by (auto simp: np_after_def)
  then show ?thesis using rd [OF at] unfolding np_lack_def by blast
qed

lemma length_wr: "length (wr s v) = length s + k"
  by (simp add: wr length_enc)

end

lemma net_field_parse_int:
  fixes k :: nat
  assumes "8 dvd LENGTH('a)" "LENGTH('a) < 2 ^ 64" "k = LENGTH('a) div 8"
  shows "net_field k NetParser_parse_int NetUnparser_unparse_int
    (\<lambda>bs. of_nat (be_value bs) :: 'a::len word) (be_bytes k)"
  unfolding assms(3)
  by (rule net_field.intro)
     (simp_all only: NetUnparser_unparse_int_eq length_be_bytes be_value_be_bytes_word [OF assms(1)]
       np_at_parse_int [OF _ assms(2)])

interpretation f32: net_field 4 NetParser_u32 NetUnparser_u32 "\<lambda>bs. of_nat (be_value bs)" "be_bytes 4"
  unfolding NetParser_u32_def [abs_def] NetUnparser_u32_def [abs_def]
  by (rule net_field_parse_int) simp_all

interpretation f16: net_field 2 NetParser_u16 NetUnparser_u16 "\<lambda>bs. of_nat (be_value bs)" "be_bytes 2"
  unfolding NetParser_u16_def [abs_def] NetUnparser_u16_def [abs_def]
  by (rule net_field_parse_int) simp_all

interpretation f8: net_field 1 NetParser_u8 NetUnparser_u8 "\<lambda>bs. of_nat (be_value bs)" "be_bytes 1"
  unfolding NetParser_u8_def [abs_def] NetUnparser_u8_def [abs_def]
  by (rule net_field_parse_int) simp_all

section \<open>Records of fields\<close>

text \<open>A record of integers, written one after the other and read back field by field.\<close>

datatype net_value = V8 u8 | V16 u16 | V32 u32

fun net_write :: "bytes \<Rightarrow> net_value \<Rightarrow> bytes" where
  "net_write s (V8 v) = NetUnparser_u8 s v"
| "net_write s (V16 v) = NetUnparser_u16 s v"
| "net_write s (V32 v) = NetUnparser_u32 s v"

text \<open>Read a value of the same width as the given one.\<close>

fun net_read :: "net_value \<Rightarrow> NetParser \<Rightarrow> cpp_failure + net_value \<times> NetParser" where
  "net_read (V8 _) p = and_then (NetParser_u8 p) (\<lambda>(v, p). Inr (V8 v, p))"
| "net_read (V16 _) p = and_then (NetParser_u16 p) (\<lambda>(v, p). Inr (V16 v, p))"
| "net_read (V32 _) p = and_then (NetParser_u32 p) (\<lambda>(v, p). Inr (V32 v, p))"

fun net_read_all :: "net_value list \<Rightarrow> NetParser \<Rightarrow> cpp_failure + net_value list \<times> NetParser" where
  "net_read_all [] p = Inr ([], p)"
| "net_read_all (v # vs) p =
     and_then (net_read v p) (\<lambda>(x, p). and_then (net_read_all vs p) (\<lambda>(xs, p). Inr (x # xs, p)))"

fun net_width :: "net_value \<Rightarrow> nat" where
  "net_width (V8 _) = 1" | "net_width (V16 _) = 2" | "net_width (V32 _) = 4"

lemma net_write_append: "net_write s v = s @ net_write [] v"
  by (cases v) (simp_all add: f8.wr f16.wr f32.wr)

lemma length_net_write [simp]: "length (net_write s v) = length s + net_width v"
  by (cases v) (simp_all add: f8.length_wr f16.length_wr f32.length_wr)

lemma foldl_net_write: "foldl net_write s vs = s @ foldl net_write [] vs"
proof (induction vs arbitrary: s)
  case (Cons v vs)
  from Cons [of "net_write s v"] Cons [of "net_write [] v"] show ?case
    by (simp add: net_write_append [of s v])
qed simp

lemma net_read_write:
  assumes "np_at p NoError (net_write [] v @ bs)"
  shows "\<exists>p'. net_read v p = Inr (v, p') \<and> np_at p' NoError bs"
proof (cases v)
  case (V8 x)
  then show ?thesis using f8.rd_enc [of p x bs] assms by (simp add: f8.wr) (metis and_then_simps(2) case_prod_conv)
next
  case (V16 x)
  then show ?thesis using f16.rd_enc [of p x bs] assms by (simp add: f16.wr) (metis and_then_simps(2) case_prod_conv)
next
  case (V32 x)
  then show ?thesis using f32.rd_enc [of p x bs] assms by (simp add: f32.wr) (metis and_then_simps(2) case_prod_conv)
qed

lemma net_read_at:
  assumes "np_at p e bs"
  shows "\<exists>x p'. net_read v p = Inr (x, p') \<and>
    np_at p' (np_after (net_width v) e bs)
      (if np_after (net_width v) e bs = NoError then drop (net_width v) bs else bs)"
  using f8.rd [OF assms] f16.rd [OF assms] f32.rd [OF assms] by (cases v) auto

lemma net_read_all_at:
  assumes "np_at p e bs" "e \<in> {NoError, PacketTooShort}"
  shows "\<exists>xs p' rest. net_read_all vs p = Inr (xs, p') \<and> np_at p' (np_after (sum_list (map net_width vs)) e bs) rest"
  using assms
proof (induction vs arbitrary: p e bs)
  case Nil
  then show ?case by auto
next
  case (Cons v vs)
  let ?e = "np_after (net_width v) e bs" and ?bs = "if np_after (net_width v) e bs = NoError then drop (net_width v) bs else bs"
  obtain x p' where x: "net_read v p = Inr (x, p')" and at: "np_at p' ?e ?bs"
    using net_read_at [OF Cons.prems(1), of v] by blast
  have "?e \<in> {NoError, PacketTooShort}" using Cons.prems(2) by (auto simp: np_after_def)
  from Cons.IH [OF at this] obtain xs p'' rest where
    xs: "net_read_all vs p' = Inr (xs, p'')" "np_at p'' (np_after (sum_list (map net_width vs)) ?e ?bs) rest"
    by blast
  moreover have "np_after (sum_list (map net_width vs)) ?e ?bs = np_after (sum_list (map net_width (v # vs))) e bs"
    using Cons.prems(2) by (auto simp: np_after_def)
  ultimately show ?case using x by auto
qed

lemma net_read_all_write:
  assumes "np_at p NoError (foldl net_write [] vs @ bs)"
  shows "\<exists>p'. net_read_all vs p = Inr (vs, p') \<and> np_at p' NoError bs"
  using assms
proof (induction vs arbitrary: p)
  case (Cons v vs)
  have "np_at p NoError (net_write [] v @ foldl net_write [] vs @ bs)"
    using Cons.prems by (simp add: foldl_net_write [of "net_write [] v"])
  then obtain p' where "net_read v p = Inr (v, p')" "np_at p' NoError (foldl net_write [] vs @ bs)"
    using net_read_write by blast
  then show ?case using Cons.IH [of p'] by auto
qed simp

section \<open>Properties\<close>

text \<open>
  Claim C19. What \<open>NetUnparser\<close> writes \<open>NetParser\<close> reads: after any sequence of 8, 16 and 32-bit
  integers has been written, a parser on a buffer that starts with those bytes returns the same
  integers, without error, and stands at the first byte after them.
\<close>

theorem net_parse_unparse:
  assumes "Buffer_ok b" and "Buffer_str b = foldl net_write [] vs @ rest"
  shows "\<exists>p. net_read_all vs (NetParser_new b) = Inr (vs, p) \<and> \<not> NetParser_error p \<and>
    Buffer_str (NetParser_buffer p) = rest"
proof -
  obtain p where "net_read_all vs (NetParser_new b) = Inr (vs, p)" "np_at p NoError rest"
    using net_read_all_write [of "NetParser_new b" vs rest] np_at_new [OF assms(1)] assms(2) by auto
  then show ?thesis using np_at_error(2) np_at_buffer(1) by blast
qed

theorem net_parse_unparse_witness:
  "\<exists>p. net_read_all [V16 0x1234, V8 7, V32 0xDEADBEEF]
      (NetParser_new (Buffer_of [0x12, 0x34, 7, 0xDE, 0xAD, 0xBE, 0xEF, 99])) =
        Inr ([V16 0x1234, V8 7, V32 0xDEADBEEF], p) \<and> \<not> NetParser_error p \<and>
      Buffer_str (NetParser_buffer p) = [99]"
proof -
  have "foldl net_write [] [V16 0x1234, V8 7, V32 0xDEADBEEF] = [0x12, 0x34, 7, 0xDE, 0xAD, 0xBE, 0xEF]"
    by code_simp
  then show ?thesis by (intro net_parse_unparse) (simp_all add: addressable_def)
qed

text \<open>
  Claim C38. Reading integers from any buffer never throws, although \<open>Buffer::at\<close> and
  \<open>Buffer::remove_prefix\<close> can: all reads return, and the error afterwards is \<open>PacketTooShort\<close> if the
  buffer holds fewer bytes than the fields together need, and \<open>NoError\<close> otherwise.
\<close>

theorem net_parse_never_throws:
  assumes "Buffer_ok b"
  shows "\<exists>xs p. net_read_all vs (NetParser_new b) = Inr (xs, p) \<and>
    NetParser_get_error p =
      (if length (Buffer_str b) < sum_list (map net_width vs) then PacketTooShort else NoError)"
  using net_read_all_at [OF np_at_new [OF assms], of vs] np_at_error(1) by (fastforce simp: np_after_def)

theorem net_parse_never_throws_witness:
  "\<exists>xs p. net_read_all [V16 0, V32 0] (NetParser_new (Buffer_of [1, 2, 3])) = Inr (xs, p) \<and>
    NetParser_get_error p = PacketTooShort"
  using net_parse_never_throws [of "Buffer_of [1, 2, 3]" "[V16 0, V32 0]"] by (simp add: addressable_def)

text \<open>
  \<open>as_string\<close> names every \<open>ParseResult\<close> except the last one: \<open>_names\<close> has no entry for
  \<open>Unsupported\<close>, and the call reads behind the end of the array.
\<close>

theorem as_string_undefined_iff:
  "as_string r = Inl undefined_behaviour \<longleftrightarrow> r = Unsupported"
  by (cases r) (simp_all add: as_string_def parse_result_names_def)

end
