(* ===== verification/TCP_Header.thy ===== *)
theory TCP_Header
  imports Net_Parser Wrapping_Integers
begin

unbundle bit_operations_syntax

text \<open>
  The TCP header: \<open>libsponge/tcp_helpers/tcp_header.hh\<close> and \<open>tcp_header.cc\<close>.
\<close>

section \<open>State and operations\<close>

record TCPHeader =
  th_sport :: u16
  th_dport :: u16
  th_seqno :: WrappingInt32
  th_ackno :: WrappingInt32
  th_doff :: u8
  th_urg :: bool
  th_ack :: bool
  th_psh :: bool
  th_rst :: bool
  th_syn :: bool
  th_fin :: bool
  th_win :: u16
  th_cksum :: u16
  th_uptr :: u16

definition TCPHeader_LENGTH :: size_t where
  "TCPHeader_LENGTH = 20"

definition TCPHeader_new :: TCPHeader where
  "TCPHeader_new = \<lparr>th_sport = 0, th_dport = 0, th_seqno = WrappingInt32 0, th_ackno = WrappingInt32 0,
     th_doff = ucast (TCPHeader_LENGTH div 4), th_urg = False, th_ack = False, th_psh = False,
     th_rst = False, th_syn = False, th_fin = False, th_win = 0, th_cksum = 0, th_uptr = 0\<rparr>"

definition TCPHeader_parse ::
  "NetParser \<Rightarrow> TCPHeader \<Rightarrow> cpp_failure + ParseResult \<times> TCPHeader \<times> NetParser" where
  "TCPHeader_parse p h =
     and_then (NetParser_u16 p) (\<lambda>(sport, p).
     and_then (NetParser_u16 p) (\<lambda>(dport, p).
     and_then (NetParser_u32 p) (\<lambda>(seqno, p).
     and_then (NetParser_u32 p) (\<lambda>(ackno, p).
     and_then (NetParser_u8 p) (\<lambda>(off, p).
     and_then (NetParser_u8 p) (\<lambda>(fl_b, p).
     and_then (NetParser_u16 p) (\<lambda>(win, p).
     and_then (NetParser_u16 p) (\<lambda>(cksum, p).
     and_then (NetParser_u16 p) (\<lambda>(uptr, p).
       let doff = drop_bit 4 off;
           h = h\<lparr>th_sport := sport, th_dport := dport, th_seqno := WrappingInt32 seqno,
             th_ackno := WrappingInt32 ackno, th_doff := doff,
             th_urg := fl_b AND 0x20 \<noteq> 0, th_ack := fl_b AND 0x10 \<noteq> 0, th_psh := fl_b AND 0x08 \<noteq> 0,
             th_rst := fl_b AND 0x04 \<noteq> 0, th_syn := fl_b AND 0x02 \<noteq> 0, th_fin := fl_b AND 0x01 \<noteq> 0,
             th_win := win, th_cksum := cksum, th_uptr := uptr\<rparr>
       in if doff < 5 then Inr (HeaderTooShort, h, p)
          else and_then (NetParser_remove_prefix (ucast doff * 4 - TCPHeader_LENGTH) p) (\<lambda>p.
            if NetParser_error p then Inr (NetParser_get_error p, h, p)
            else Inr (NoError, h, p)))))))))))"

definition TCPHeader_flags :: "TCPHeader \<Rightarrow> u8" where
  "TCPHeader_flags h =
     (if th_urg h then 0x20 else 0) OR (if th_ack h then 0x10 else 0) OR (if th_psh h then 0x08 else 0) OR
     (if th_rst h then 0x04 else 0) OR (if th_syn h then 0x02 else 0) OR (if th_fin h then 0x01 else 0)"

definition TCPHeader_serialize :: "TCPHeader \<Rightarrow> cpp_failure + bytes" where
  "TCPHeader_serialize h =
     (if th_doff h < 5 then Inl (runtime_error ''TCP header too short'')
      else
        let ret = [];
            ret = NetUnparser_u16 ret (th_sport h);
            ret = NetUnparser_u16 ret (th_dport h);
            ret = NetUnparser_u32 ret (raw_value (th_seqno h));
            ret = NetUnparser_u32 ret (raw_value (th_ackno h));
            ret = NetUnparser_u8 ret (push_bit 4 (th_doff h));
            fl_b = TCPHeader_flags h;
            ret = NetUnparser_u8 ret fl_b;
            ret = NetUnparser_u16 ret (th_win h);
            ret = NetUnparser_u16 ret (th_cksum h);
            ret = NetUnparser_u16 ret (th_uptr h)
        in Inr (string_resize (4 * unat (th_doff h)) ret))"

definition TCPHeader_eq :: "TCPHeader \<Rightarrow> TCPHeader \<Rightarrow> bool" where
  "TCPHeader_eq h other \<longleftrightarrow>
     WrappingInt32_eq (th_seqno h) (th_seqno other) \<and> WrappingInt32_eq (th_ackno h) (th_ackno other) \<and>
     th_doff h = th_doff other \<and> th_urg h = th_urg other \<and> th_ack h = th_ack other \<and>
     th_psh h = th_psh other \<and> th_rst h = th_rst other \<and> th_syn h = th_syn other \<and>
     th_fin h = th_fin other \<and> th_win h = th_win other \<and> th_uptr h = th_uptr other"

section \<open>Wire format\<close>

text \<open>The fields of a header of at least 20 bytes by their positions.\<close>

definition u16_at :: "nat \<Rightarrow> bytes \<Rightarrow> u16" where
  "u16_at i bs = of_nat (be_value (take 2 (drop i bs)))"

definition u32_at :: "nat \<Rightarrow> bytes \<Rightarrow> u32" where
  "u32_at i bs = of_nat (be_value (take 4 (drop i bs)))"

definition TCPHeader_of :: "bytes \<Rightarrow> TCPHeader" where
  "TCPHeader_of bs = \<lparr>th_sport = u16_at 0 bs, th_dport = u16_at 2 bs,
     th_seqno = WrappingInt32 (u32_at 4 bs), th_ackno = WrappingInt32 (u32_at 8 bs),
     th_doff = drop_bit 4 (bs ! 12), th_urg = bit (bs ! 13) 5, th_ack = bit (bs ! 13) 4,
     th_psh = bit (bs ! 13) 3, th_rst = bit (bs ! 13) 2, th_syn = bit (bs ! 13) 1, th_fin = bit (bs ! 13) 0,
     th_win = u16_at 14 bs, th_cksum = u16_at 16 bs, th_uptr = u16_at 18 bs\<rparr>"

lemma AND_bit: "(w :: u8) AND 2 ^ n \<noteq> 0 \<longleftrightarrow> bit w n"
  by (simp add: and_exp_eq_0_iff_not_bit)

lemmas flag_bits = AND_bit [of _ 5, simplified] AND_bit [of _ 4, simplified] AND_bit [of _ 3, simplified]
  AND_bit [of _ 2, simplified] AND_bit [of _ 1, simplified] AND_bit [of _ 0, simplified]

lemma be_value_byte: "i < length bs \<Longrightarrow> (of_nat (be_value (take 1 (drop i bs))) :: u8) = bs ! i"
  by (simp add: take_Suc_conv_app_nth be_value_Cons hd_drop_conv_nth take_Suc)

text \<open>The data offset: four bits, in units of four bytes.\<close>

lemma doff_lt: "unat (drop_bit 4 (b :: u8)) < 16"
  using unat_lt_8 [of b] unfolding unsigned_drop_bit_eq
  by (simp add: take_bit_nat_eq_self) (simp add: drop_bit_eq_div)

lemma doff_skip:
  assumes "\<not> (doff :: u8) < 5"
  shows "unat (ucast doff * 4 - TCPHeader_LENGTH) = 4 * unat doff - 20"
proof -
  have "unat (ucast doff * 4 :: size_t) = 4 * unat doff"
    using unat_lt_8 [of doff] by (simp add: unat_word_ariths unat_ucast_up)
  then show ?thesis
    using assms by (simp add: TCPHeader_LENGTH_def unat_sub word_le_nat_alt word_less_nat_alt)
qed

text \<open>What \<open>parse\<close> does after the nine reads.\<close>

definition TCPHeader_finish ::
  "TCPHeader \<Rightarrow> NetParser \<Rightarrow> cpp_failure + ParseResult \<times> TCPHeader \<times> NetParser" where
  "TCPHeader_finish h p =
     (if th_doff h < 5 then Inr (HeaderTooShort, h, p)
      else and_then (NetParser_remove_prefix (ucast (th_doff h) * 4 - TCPHeader_LENGTH) p) (\<lambda>p.
        if NetParser_error p then Inr (NetParser_get_error p, h, p)
        else Inr (NoError, h, p)))"

definition TCPHeader_fields ::
  "TCPHeader \<Rightarrow> u16 \<Rightarrow> u16 \<Rightarrow> u32 \<Rightarrow> u32 \<Rightarrow> u8 \<Rightarrow> u8 \<Rightarrow> u16 \<Rightarrow> u16 \<Rightarrow> u16 \<Rightarrow> TCPHeader" where
  "TCPHeader_fields h sport dport seqno ackno off fl_b win cksum uptr =
     h\<lparr>th_sport := sport, th_dport := dport, th_seqno := WrappingInt32 seqno,
       th_ackno := WrappingInt32 ackno, th_doff := drop_bit 4 off, th_urg := bit fl_b 5,
       th_ack := bit fl_b 4, th_psh := bit fl_b 3, th_rst := bit fl_b 2, th_syn := bit fl_b 1,
       th_fin := bit fl_b 0, th_win := win, th_cksum := cksum, th_uptr := uptr\<rparr>"

lemma TCPHeader_parse_eq:
  assumes "NetParser_u16 p = Inr (sport, p1)" "NetParser_u16 p1 = Inr (dport, p2)"
    "NetParser_u32 p2 = Inr (seqno, p3)" "NetParser_u32 p3 = Inr (ackno, p4)" "NetParser_u8 p4 = Inr (off, p5)"
    "NetParser_u8 p5 = Inr (fl_b, p6)" "NetParser_u16 p6 = Inr (win, p7)" "NetParser_u16 p7 = Inr (cksum, p8)"
    "NetParser_u16 p8 = Inr (uptr, p9)"
  shows "TCPHeader_parse p h =
    TCPHeader_finish (TCPHeader_fields h sport dport seqno ackno off fl_b win cksum uptr) p9"
  by (simp add: TCPHeader_parse_def assms flag_bits Let_def TCPHeader_finish_def TCPHeader_fields_def)

lemma TCPHeader_reads:
  assumes at: "np_at p NoError bs" and len: "20 \<le> length bs"
  shows "\<exists>p'. TCPHeader_parse p h = TCPHeader_finish (TCPHeader_of bs) p' \<and> np_at p' NoError (drop 20 bs)"
proof -
  obtain p1 where 1: "NetParser_u16 p = Inr (u16_at 0 bs, p1)" "np_at p1 NoError (drop 2 bs)"
    by (rule f16.rd_next [OF at]) (use len in \<open>simp_all add: u16_at_def\<close>)
  obtain p2 where 2: "NetParser_u16 p1 = Inr (u16_at 2 bs, p2)" "np_at p2 NoError (drop 4 bs)"
    by (rule f16.rd_next [OF 1(2)]) (use len in \<open>simp_all add: u16_at_def\<close>)
  obtain p3 where 3: "NetParser_u32 p2 = Inr (u32_at 4 bs, p3)" "np_at p3 NoError (drop 8 bs)"
    by (rule f32.rd_next [OF 2(2)]) (use len in \<open>simp_all add: u32_at_def\<close>)
  obtain p4 where 4: "NetParser_u32 p3 = Inr (u32_at 8 bs, p4)" "np_at p4 NoError (drop 12 bs)"
    by (rule f32.rd_next [OF 3(2)]) (use len in \<open>simp_all add: u32_at_def\<close>)
  obtain p5 where 5: "NetParser_u8 p4 = Inr (bs ! 12, p5)" "np_at p5 NoError (drop 13 bs)"
    by (rule f8.rd_next [OF 4(2)]) (use len be_value_byte [of 12 bs] in simp_all)
  obtain p6 where 6: "NetParser_u8 p5 = Inr (bs ! 13, p6)" "np_at p6 NoError (drop 14 bs)"
    by (rule f8.rd_next [OF 5(2)]) (use len be_value_byte [of 13 bs] in simp_all)
  obtain p7 where 7: "NetParser_u16 p6 = Inr (u16_at 14 bs, p7)" "np_at p7 NoError (drop 16 bs)"
    by (rule f16.rd_next [OF 6(2)]) (use len in \<open>simp_all add: u16_at_def\<close>)
  obtain p8 where 8: "NetParser_u16 p7 = Inr (u16_at 16 bs, p8)" "np_at p8 NoError (drop 18 bs)"
    by (rule f16.rd_next [OF 7(2)]) (use len in \<open>simp_all add: u16_at_def\<close>)
  obtain p9 where 9: "NetParser_u16 p8 = Inr (u16_at 18 bs, p9)" "np_at p9 NoError (drop 20 bs)"
    by (rule f16.rd_next [OF 8(2)]) (use len in \<open>simp_all add: u16_at_def\<close>)
  have "TCPHeader_fields h (u16_at 0 bs) (u16_at 2 bs) (u32_at 4 bs) (u32_at 8 bs) (bs ! 12) (bs ! 13)
      (u16_at 14 bs) (u16_at 16 bs) (u16_at 18 bs) = TCPHeader_of bs"
    by (cases h) (simp add: TCPHeader_of_def TCPHeader_fields_def)
  then have "TCPHeader_parse p h = TCPHeader_finish (TCPHeader_of bs) p9"
    using TCPHeader_parse_eq [OF 1(1) 2(1) 3(1) 4(1) 5(1) 6(1) 7(1) 8(1) 9(1), of h] by simp
  then show ?thesis using 9(2) by blast
qed

lemma TCPHeader_parse_long:
  assumes at: "np_at p NoError bs" and len: "20 \<le> length bs"
  defines "doff \<equiv> unat (th_doff (TCPHeader_of bs))"
  shows "\<exists>p'. TCPHeader_parse p h =
      Inr (if doff < 5 then HeaderTooShort else np_after (4 * doff) NoError bs, TCPHeader_of bs, p') \<and>
    np_at p' (if doff < 5 then NoError else np_after (4 * doff) NoError bs)
      (drop (if 5 \<le> doff \<and> 4 * doff \<le> length bs then 4 * doff else 20) bs)"
proof -
  let ?h = "TCPHeader_of bs"
  obtain p9 where parse: "TCPHeader_parse p h = TCPHeader_finish ?h p9" and 9: "np_at p9 NoError (drop 20 bs)"
    using TCPHeader_reads [OF at len] by blast
  show ?thesis
  proof (cases "th_doff ?h < 5")
    case True
    then have "doff < 5" by (simp add: doff_def word_less_nat_alt)
    then show ?thesis using parse True 9 by (simp add: TCPHeader_finish_def)
  next
    case False
    then have ge: "5 \<le> doff" by (simp add: doff_def word_less_nat_alt)
    let ?n = "ucast (th_doff ?h) * 4 - TCPHeader_LENGTH"
    have n: "unat ?n = 4 * doff - 20" using doff_skip [OF False] by (simp add: doff_def)
    have after: "np_after (unat ?n) NoError (drop 20 bs) = np_after (4 * doff) NoError bs"
      using ge len by (simp add: n np_after_def) arith
    have "drop (4 * doff) bs = drop (unat ?n) (drop 20 bs)" using ge by (simp add: n)
    then have rest: "(if np_after (4 * doff) NoError bs = NoError then drop (unat ?n) (drop 20 bs) else drop 20 bs)
        = drop (if 4 * doff \<le> length bs then 4 * doff else 20) bs" by simp
    obtain p' where p': "NetParser_remove_prefix ?n p9 = Inr p'"
      "np_at p' (np_after (4 * doff) NoError bs) (drop (if 4 * doff \<le> length bs then 4 * doff else 20) bs)"
      using np_at_remove_prefix [OF 9, of ?n] unfolding after rest by blast
    then show ?thesis
      using parse False ge np_at_error [OF p'(2)] by (auto simp: TCPHeader_finish_def)
  qed
qed

text \<open>Fewer than 20 bytes: the parser's error is \<open>PacketTooShort\<close>, whatever the result says.\<close>

lemma TCPHeader_parse_short:
  assumes at: "np_at p NoError bs" and len: "length bs < 20"
  shows "\<exists>r h' p' rest. TCPHeader_parse p h = Inr (r, h', p') \<and> r \<in> {HeaderTooShort, PacketTooShort} \<and>
    np_at p' PacketTooShort rest"
proof -
  have "np_lack 20 p" using at len by (auto simp: np_lack_def)
  from f16.rd_lack [OF this, simplified] obtain v1 p1 where 1: "NetParser_u16 p = Inr (v1, p1)" "np_lack 18 p1" by auto
  from f16.rd_lack [OF 1(2), simplified] obtain v2 p2 where 2: "NetParser_u16 p1 = Inr (v2, p2)" "np_lack 16 p2" by auto
  from f32.rd_lack [OF 2(2), simplified] obtain v3 p3 where 3: "NetParser_u32 p2 = Inr (v3, p3)" "np_lack 12 p3" by auto
  from f32.rd_lack [OF 3(2), simplified] obtain v4 p4 where 4: "NetParser_u32 p3 = Inr (v4, p4)" "np_lack 8 p4" by auto
  from f8.rd_lack [OF 4(2), simplified] obtain v5 p5 where 5: "NetParser_u8 p4 = Inr (v5, p5)" "np_lack 7 p5" by auto
  from f8.rd_lack [OF 5(2), simplified] obtain v6 p6 where 6: "NetParser_u8 p5 = Inr (v6, p6)" "np_lack 6 p6" by auto
  from f16.rd_lack [OF 6(2), simplified] obtain v7 p7 where 7: "NetParser_u16 p6 = Inr (v7, p7)" "np_lack 4 p7" by auto
  from f16.rd_lack [OF 7(2), simplified] obtain v8 p8 where 8: "NetParser_u16 p7 = Inr (v8, p8)" "np_lack 2 p8" by auto
  from f16.rd_lack [OF 8(2), simplified] obtain v9 p9 where 9: "NetParser_u16 p8 = Inr (v9, p9)" "np_lack 0 p9" by auto
  obtain rest where rest: "np_at p9 PacketTooShort rest" using 9(2) by (auto simp: np_lack_def)
  obtain h' where h': "TCPHeader_parse p h = TCPHeader_finish h' p9"
    using TCPHeader_parse_eq [OF 1(1) 2(1) 3(1) 4(1) 5(1) 6(1) 7(1) 8(1) 9(1), of h] by blast
  obtain p' where "NetParser_remove_prefix (ucast (th_doff h') * 4 - TCPHeader_LENGTH) p9 = Inr p'"
    and "np_at p' PacketTooShort rest"
    using np_at_remove_prefix [OF rest, of "ucast (th_doff h') * 4 - TCPHeader_LENGTH"] by auto
  then show ?thesis
    using h' rest np_at_error [of p' PacketTooShort rest] by (auto simp: TCPHeader_finish_def)
qed

section \<open>What \<open>serialize\<close> writes\<close>

text \<open>The bytes before and after the checksum field.\<close>

definition wire_pre :: "TCPHeader \<Rightarrow> bytes" where
  "wire_pre h = be_bytes 2 (th_sport h) @ be_bytes 2 (th_dport h) @ be_bytes 4 (raw_value (th_seqno h)) @
     be_bytes 4 (raw_value (th_ackno h)) @ be_bytes 1 (push_bit 4 (th_doff h)) @
     be_bytes 1 (TCPHeader_flags h) @ be_bytes 2 (th_win h)"

definition wire_post :: "TCPHeader \<Rightarrow> bytes" where
  "wire_post h = be_bytes 2 (th_uptr h) @ replicate (4 * unat (th_doff h) - 20) 0"

lemma length_wire: "length (wire_pre h) = 16" "length (wire_post h) = 2 + (4 * unat (th_doff h) - 20)"
  by (simp_all add: wire_pre_def wire_post_def)

lemma wire_cksum [simp]:
  "wire_pre (h\<lparr>th_cksum := c\<rparr>) = wire_pre h" "wire_post (h\<lparr>th_cksum := c\<rparr>) = wire_post h"
  by (simp_all add: wire_pre_def wire_post_def TCPHeader_flags_def)

lemma TCPHeader_serialize_eq:
  assumes "5 \<le> unat (th_doff h)"
  shows "TCPHeader_serialize h = Inr (wire_pre h @ be_bytes 2 (th_cksum h) @ wire_post h)"
proof -
  have "\<not> th_doff h < 5" using assms by (simp add: word_less_nat_alt)
  then show ?thesis
    using assms by (simp add: TCPHeader_serialize_def string_resize_def wire_pre_def wire_post_def
        f8.wr f16.wr f32.wr)
qed

lemma be_bytes_1 [simp]: "be_bytes 1 (w :: u8) = [w]" "be_bytes (Suc 0) (w :: u8) = [w]"
  by (simp_all add: be_bytes_def)

lemma doff_nibble:
  assumes "unat (d :: u8) < 16"
  shows "drop_bit 4 (push_bit 4 d) = d"
proof -
  have "unat (push_bit 4 d) = 16 * unat d"
    using assms by (simp add: push_bit_eq_mult unat_word_ariths)
  then have "unat (drop_bit 4 (push_bit 4 d)) = unat d"
    unfolding unsigned_drop_bit_eq using assms
    by (simp add: take_bit_nat_eq_self) (simp add: drop_bit_eq_div)
  then show ?thesis by (simp add: word_unat_eq_iff)
qed

lemma TCPHeader_flags_bits:
  "bit (TCPHeader_flags h) 5 = th_urg h" "bit (TCPHeader_flags h) 4 = th_ack h"
  "bit (TCPHeader_flags h) 3 = th_psh h" "bit (TCPHeader_flags h) 2 = th_rst h"
  "bit (TCPHeader_flags h) 1 = th_syn h" "bit (TCPHeader_flags h) 0 = th_fin h"
  unfolding TCPHeader_flags_def bit_or_iff
  by (cases "th_urg h"; cases "th_ack h"; cases "th_psh h"; cases "th_rst h"; cases "th_syn h"; cases "th_fin h";
      simp)+

lemma TCPHeader_of_wire:
  assumes "unat (th_doff h) < 16"
  shows "TCPHeader_of (wire_pre h @ be_bytes 2 (th_cksum h) @ wire_post h @ rest) = h"
proof -
  have nth: "(wire_pre h @ be_bytes 2 (th_cksum h) @ wire_post h @ rest) ! 12 = push_bit 4 (th_doff h)"
    "(wire_pre h @ be_bytes 2 (th_cksum h) @ wire_post h @ rest) ! 13 = TCPHeader_flags h"
    by (simp_all add: wire_pre_def nth_append)
  show ?thesis
    unfolding TCPHeader_of_def nth TCPHeader_flags_bits doff_nibble [OF assms]
    by (cases h) (simp add: u16_at_def u32_at_def wire_pre_def wire_post_def f16.dec_enc f32.dec_enc)
qed

section \<open>Properties\<close>

text \<open>
  Claim C13. Header round trip: a header whose \<open>doff\<close> is in its legal range of 5 to 15 words
  serializes to \<open>4 * doff\<close> bytes, and parsing those bytes, whatever follows them, succeeds, gives
  back every field and leaves the parser at the first byte after the header.
\<close>

theorem TCPHeader_roundtrip:
  assumes "5 \<le> unat (th_doff h)" and "unat (th_doff h) < 16"
    and "Buffer_ok b" and "TCPHeader_serialize h = Inr s" and "Buffer_str b = s @ rest"
  shows "length s = 4 * unat (th_doff h) \<and>
    (\<exists>p. TCPHeader_parse (NetParser_new b) h0 = Inr (NoError, h, p) \<and> Buffer_str (NetParser_buffer p) = rest)"
proof -
  have s: "s = wire_pre h @ be_bytes 2 (th_cksum h) @ wire_post h"
    using TCPHeader_serialize_eq [OF assms(1)] assms(4) by simp
  then have len: "length s = 4 * unat (th_doff h)" using assms(1) by (simp add: length_wire)
  have h: "TCPHeader_of (s @ rest) = h" using TCPHeader_of_wire [OF assms(2), of rest] by (simp add: s)
  have "np_at (NetParser_new b) NoError (s @ rest)" using np_at_new [OF assms(3)] assms(5) by simp
  from TCPHeader_parse_long [OF this, of h0] len assms(1) np_at_buffer(1)
  show ?thesis by (fastforce simp: h)
qed

theorem TCPHeader_roundtrip_witness:
  "\<exists>p. TCPHeader_parse (NetParser_new (Buffer_of
        ([0x12, 0x34, 0, 80, 0, 0, 0, 7, 0, 0, 0, 0, 0x60, 0x02, 0, 0, 0xAB, 0xCD, 0, 0, 0, 0, 0, 0] @ [65, 66])))
      TCPHeader_new = Inr (NoError, TCPHeader_new\<lparr>th_sport := 0x1234, th_dport := 80,
        th_seqno := WrappingInt32 7, th_doff := 6, th_syn := True, th_cksum := 0xABCD\<rparr>, p) \<and>
    Buffer_str (NetParser_buffer p) = [65, 66]"
proof -
  let ?h = "TCPHeader_new\<lparr>th_sport := 0x1234, th_dport := 80,
        th_seqno := WrappingInt32 7, th_doff := 6, th_syn := True, th_cksum := 0xABCD\<rparr>"
  let ?s = "[0x12, 0x34, 0, 80, 0, 0, 0, 7, 0, 0, 0, 0, 0x60, 0x02, 0, 0, 0xAB, 0xCD, 0, 0, 0, 0, 0, 0] :: bytes"
  have "TCPHeader_serialize ?h = Inr ?s" by code_simp
  from TCPHeader_roundtrip [OF _ _ _ this, of "Buffer_of (?s @ [65, 66])" "[65, 66]" TCPHeader_new]
  show ?thesis by (simp add: addressable_def)
qed

text \<open>
  Claim C30. The result of parsing any bytes into a header, on every branch: with at least 20 bytes
  the fields are those the bytes encode, and the result is \<open>HeaderTooShort\<close> if the offset is below 5,
  \<open>PacketTooShort\<close> if the header is longer than the bytes, and \<open>NoError\<close> otherwise, with the options
  skipped; with fewer bytes the parser's error is \<open>PacketTooShort\<close> and the result is not \<open>NoError\<close>. No
  exception is thrown.
\<close>

theorem TCPHeader_parse_total:
  assumes "Buffer_ok b"
  defines "bs \<equiv> Buffer_str b" and "doff \<equiv> unat (th_doff (TCPHeader_of (Buffer_str b)))"
  shows "\<exists>r h p. TCPHeader_parse (NetParser_new b) h0 = Inr (r, h, p) \<and>
    (if length bs < 20 then r \<noteq> NoError \<and> NetParser_get_error p = PacketTooShort
     else h = TCPHeader_of bs \<and>
       (if doff < 5 then r = HeaderTooShort \<and> NetParser_get_error p = NoError
        else if length bs < 4 * doff then r = PacketTooShort \<and> NetParser_get_error p = PacketTooShort
        else r = NoError \<and> NetParser_get_error p = NoError \<and>
          Buffer_str (NetParser_buffer p) = drop (4 * doff) bs))"
proof -
  have at: "np_at (NetParser_new b) NoError bs" unfolding bs_def by (rule np_at_new [OF assms(1)])
  show ?thesis
  proof (cases "length bs < 20")
    case True
    then show ?thesis using TCPHeader_parse_short [OF at, of h0] np_at_error(1) by fastforce
  next
    case False
    then obtain p where "TCPHeader_parse (NetParser_new b) h0 =
        Inr (if doff < 5 then HeaderTooShort else np_after (4 * doff) NoError bs, TCPHeader_of bs, p)"
      and "np_at p (if doff < 5 then NoError else np_after (4 * doff) NoError bs)
        (drop (if 5 \<le> doff \<and> 4 * doff \<le> length bs then 4 * doff else 20) bs)"
      using TCPHeader_parse_long [OF at, of h0] unfolding doff_def bs_def by auto
    moreover from np_at_error(1) [OF this(2)] np_at_buffer(1) [OF this(2)] False
    have "if doff < 5 then NetParser_get_error p = NoError
      else if length bs < 4 * doff then NetParser_get_error p = PacketTooShort
      else NetParser_get_error p = NoError \<and> Buffer_str (NetParser_buffer p) = drop (4 * doff) bs"
      by simp
    ultimately show ?thesis using False by simp
  qed
qed

theorem TCPHeader_parse_total_witness:
  "\<exists>r h p. TCPHeader_parse (NetParser_new (Buffer_of (replicate 12 0 @ [0x60] @ replicate 7 0))) TCPHeader_new
      = Inr (r, h, p) \<and> r = PacketTooShort \<and> NetParser_get_error p = PacketTooShort"
proof -
  let ?bs = "replicate 12 0 @ [0x60] @ replicate 7 0 :: bytes"
  have "unat (th_doff (TCPHeader_of ?bs)) = 6" by code_simp
  with TCPHeader_parse_total [of "Buffer_of ?bs" TCPHeader_new] show ?thesis
    by (auto simp: addressable_def)
qed

text \<open>
  \<open>serialize\<close> throws exactly when \<open>doff\<close> is below the minimum, and otherwise writes exactly
  the number of bytes \<open>doff\<close> advertises.
\<close>

theorem TCPHeader_serialize_cases:
  "case TCPHeader_serialize h of
     Inl e \<Rightarrow> th_doff h < 5 \<and> e = runtime_error ''TCP header too short''
   | Inr s \<Rightarrow> 5 \<le> th_doff h \<and> length s = 4 * unat (th_doff h)"
proof (cases "th_doff h < 5")
  case True
  then show ?thesis by (simp add: TCPHeader_serialize_def)
next
  case False
  then have ge: "5 \<le> unat (th_doff h)" "5 \<le> th_doff h" by (simp_all add: size_order)
  then have "length (wire_pre h @ be_bytes 2 (th_cksum h) @ wire_post h) = 4 * unat (th_doff h)"
    by (simp add: length_wire)
  then show ?thesis using ge by (simp only: TCPHeader_serialize_eq sum.case)
qed

end
