(* ===== verification/Internet_Checksum.thy ===== *)
theory Internet_Checksum
  imports Net_Parser
begin

unbundle bit_operations_syntax

text \<open>
  The Internet checksum: class \<open>InternetChecksum\<close> of \<open>libsponge/util/util.hh\<close> and \<open>util.cc\<close>.
  The running sum is a 32-bit word, the octets count alternately as high and low bytes, and
  \<open>value\<close> folds the sum to 16 bits and complements it.
\<close>

section \<open>State and operations\<close>

record InternetChecksum =
  ic_sum :: u32
  ic_parity :: bool

definition InternetChecksum_new :: "u32 \<Rightarrow> InternetChecksum" where
  "InternetChecksum_new initial_sum = \<lparr>ic_sum = initial_sum, ic_parity = False\<rparr>"

definition InternetChecksum_add_byte :: "InternetChecksum \<Rightarrow> u8 \<Rightarrow> InternetChecksum" where
  "InternetChecksum_add_byte c b =
     (let val = (ucast b :: u16);
          val = (if \<not> ic_parity c then push_bit 8 val else val)
      in c\<lparr>ic_sum := ic_sum c + ucast val, ic_parity := \<not> ic_parity c\<rparr>)"

definition InternetChecksum_add :: "bytes \<Rightarrow> InternetChecksum \<Rightarrow> InternetChecksum" where
  "InternetChecksum_add data c = foldl InternetChecksum_add_byte c data"

lemma div_add_mod_less: "65535 < n \<Longrightarrow> n div 65536 + n mod 65536 < n" for n :: nat
  using div_mult_mod_eq [of n 65536] div_greater_zero_iff [of n 65536] by linarith

lemma fold_step: "unat (drop_bit 16 (ret :: u32) + (ret AND 0xffff)) = unat ret div 65536 + unat ret mod 65536"
proof -
  have "ret AND 0xffff = take_bit 16 ret" by (simp add: take_bit_eq_mask mask_eq_exp_minus_1)
  then have "unat (ret AND 0xffff) = unat ret mod 65536"
    by (simp add: unsigned_take_bit_eq) (simp add: take_bit_eq_mod)
  moreover have "unat (drop_bit 16 ret) = unat ret div 65536"
    using unat_lt_32 [of ret] unfolding unsigned_drop_bit_eq
    by (simp add: take_bit_nat_eq_self) (simp add: drop_bit_eq_div)
  moreover have "unat ret div 65536 + unat ret mod 65536 < 2 ^ 32"
    using div_mult_mod_eq [of "unat ret" 65536] unat_lt_32 [of ret] by simp
  ultimately show ?thesis by (simp add: unat_word_ariths)
qed

text \<open>The folding loop of \<open>value\<close>; every round makes the sum smaller.\<close>

function InternetChecksum_fold :: "u32 \<Rightarrow> u32" where
  "InternetChecksum_fold ret =
     (if 0xffff < ret then InternetChecksum_fold (drop_bit 16 ret + (ret AND 0xffff)) else ret)"
  by pat_completeness auto
termination
proof (relation "measure unat")
  fix ret :: u32
  assume "0xffff < ret"
  then have "65535 < unat ret" by (simp add: word_less_nat_alt)
  then show "(drop_bit 16 ret + (ret AND 0xffff), ret) \<in> measure unat"
    by (simp only: in_measure fold_step div_add_mod_less)
qed simp

declare InternetChecksum_fold.simps [simp del]

definition InternetChecksum_value :: "InternetChecksum \<Rightarrow> u16" where
  "InternetChecksum_value c = ucast (NOT (InternetChecksum_fold (ic_sum c)))"

section \<open>Reference: the ones' complement sum\<close>

text \<open>The octets as numbers, alternately of weight 256 and 1; \<open>low\<close> says which comes first.\<close>

fun octet_sum :: "bool \<Rightarrow> bytes \<Rightarrow> nat" where
  "octet_sum low [] = 0"
| "octet_sum low (b # bs) = (if low then unat b else 256 * unat b) + octet_sum (\<not> low) bs"

text \<open>Addition modulo 65535 where only the sum 0 is written 0.\<close>

definition ones_complement :: "nat \<Rightarrow> nat" where
  "ones_complement n = (if n = 0 then 0 else if n mod 65535 = 0 then 65535 else n mod 65535)"

definition inet_checksum :: "nat \<Rightarrow> bytes \<Rightarrow> nat" where
  "inet_checksum initial data = 65535 - ones_complement (initial + octet_sum False data)"

lemma octet_sum_append:
  "octet_sum low (xs @ ys) = octet_sum low xs + octet_sum (if even (length xs) then low else \<not> low) ys"
  by (induction xs arbitrary: low) auto

lemma octet_sum_bound: "octet_sum low bs \<le> 65535 * ((length bs + 1) div 2)"
proof (induction bs arbitrary: low rule: induct_list012)
  case (2 b)
  then show ?case using unat_lt_8 [of b] by auto
next
  case (3 a b bs)
  have "(length (a # b # bs) + 1) div 2 = Suc ((length bs + 1) div 2)" by simp
  moreover have "octet_sum low (a # b # bs) \<le> 65535 + octet_sum low bs"
    using unat_lt_8 [of a] unat_lt_8 [of b] by auto
  ultimately show ?case using "3.IH"(1) [of low] by simp
qed simp

lemma ones_complement_le: "ones_complement n \<le> 65535"
  by (simp add: ones_complement_def less_imp_le)

lemma ones_complement_unique:
  assumes "m \<le> 65535" "m mod 65535 = n mod 65535" "m = 0 \<longleftrightarrow> n = 0"
  shows "ones_complement n = m"
proof (cases "m = 65535")
  case False
  then have "m mod 65535 = m" using assms(1) by simp
  then show ?thesis using assms by (auto simp: ones_complement_def)
qed (use assms in \<open>auto simp: ones_complement_def\<close>)

lemma ones_complement_eq_top_iff: "ones_complement n = 65535 \<longleftrightarrow> n \<noteq> 0 \<and> 65535 dvd n"
  using mod_less_divisor [of 65535 n] by (auto simp: ones_complement_def dvd_eq_mod_eq_0)

section \<open>The code computes the reference\<close>

lemma unat_fold: "unat (InternetChecksum_fold ret) = ones_complement (unat ret)"
proof (induction ret rule: InternetChecksum_fold.induct)
  case (1 ret)
  show ?case
  proof (cases "0xffff < ret")
    case True
    let ?r = "unat ret"
    have big: "65535 < ?r" using True by (simp add: word_less_nat_alt)
    have "?r = 65535 * (?r div 65536) + (?r div 65536 + ?r mod 65536)"
      using div_mult_mod_eq [of ?r 65536] by linarith
    then have "(?r div 65536 + ?r mod 65536) mod 65535 = ?r mod 65535" by (metis mod_mult_self4)
    moreover have "?r div 65536 + ?r mod 65536 \<noteq> 0" using big by auto
    ultimately have "ones_complement (?r div 65536 + ?r mod 65536) = ones_complement ?r"
      using big by (simp only: ones_complement_def) simp
    then show ?thesis
      using "1.IH" [OF True] True by (simp only: InternetChecksum_fold.simps [of ret] fold_step if_True)
  next
    case False
    then have "ones_complement (unat ret) = unat ret"
      by (intro ones_complement_unique) (simp_all add: word_less_nat_alt)
    then show ?thesis using False by (simp add: InternetChecksum_fold.simps [of ret])
  qed
qed

lemma unat_value: "unat (InternetChecksum_value c) = 65535 - ones_complement (unat (ic_sum c))"
proof -
  let ?f = "InternetChecksum_fold (ic_sum c)"
  have le: "unat ?f \<le> 65535" by (simp add: unat_fold ones_complement_le)
  have "ucast (NOT ?f) = (NOT (ucast ?f) :: u16)" by (rule bit_word_eqI) (simp add: bit_simps)
  moreover have "unat (NOT w) = 65535 - unat w" for w :: u16
  proof -
    have "NOT w = - 1 - w" by (simp add: not_eq_complement)
    moreover have "unat (- 1 - w) = unat (- 1 :: u16) - unat w" by (rule unat_sub) simp
    ultimately show ?thesis by (simp add: unsigned_minus_1_eq_mask mask_eq_exp_minus_1)
  qed
  moreover have "unat (ucast ?f :: u16) = unat ?f" using le by (simp add: unsigned_ucast_eq take_bit_nat_eq_self)
  ultimately show ?thesis by (simp add: InternetChecksum_value_def unat_fold)
qed

lemma add_byte:
  "ic_sum (InternetChecksum_add_byte c b) = ic_sum c + of_nat (octet_sum (ic_parity c) [b])"
  "ic_parity (InternetChecksum_add_byte c b) = (\<not> ic_parity c)"
proof -
  have "unat (push_bit 8 (ucast b :: u16)) = 256 * unat b"
    using unat_lt_8 [of b] by (simp add: push_bit_eq_mult unat_word_ariths unat_ucast_up)
  then have "(ucast (push_bit 8 (ucast b :: u16)) :: u32) = of_nat (256 * unat b)"
    unfolding ucast_of_unat [where 'a = 16] by (simp only:)
  moreover have "(ucast (ucast b :: u16) :: u32) = of_nat (unat b)"
    unfolding ucast_of_unat [where 'a = 16] by (simp add: unat_ucast_up)
  ultimately show "ic_sum (InternetChecksum_add_byte c b) = ic_sum c + of_nat (octet_sum (ic_parity c) [b])"
    by (simp add: InternetChecksum_add_byte_def Let_def)
  show "ic_parity (InternetChecksum_add_byte c b) = (\<not> ic_parity c)"
    by (simp add: InternetChecksum_add_byte_def Let_def)
qed

lemma add_sum:
  "ic_sum (InternetChecksum_add data c) = ic_sum c + of_nat (octet_sum (ic_parity c) data)"
  "ic_parity (InternetChecksum_add data c) = (ic_parity c \<noteq> odd (length data))"
  by (induction data arbitrary: c) (auto simp: InternetChecksum_add_def add_byte)

lemma add_chunks:
  "foldl (\<lambda>c d. InternetChecksum_add d c) c chunks = InternetChecksum_add (concat chunks) c"
  by (induction chunks arbitrary: c) (simp_all add: InternetChecksum_add_def)

text \<open>\<open>sum_fits init n\<close>: no carry out of 32 bits can occur over \<open>n\<close> bytes.\<close>

definition sum_fits :: "u32 \<Rightarrow> nat \<Rightarrow> bool" where
  "sum_fits init n \<longleftrightarrow> unat init + 65535 * ((n + 1) div 2) < 2 ^ 32"

lemma unat_sum_fits:
  assumes "sum_fits init (length data)"
  shows "unat (ic_sum (InternetChecksum_add data (InternetChecksum_new init))) =
    unat init + octet_sum False data"
proof -
  have le: "unat init + octet_sum False data < 4294967296"
    using assms octet_sum_bound [of False data] by (simp add: sum_fits_def)
  have "InternetChecksum_add data (InternetChecksum_new init) = InternetChecksum_add data
      \<lparr>ic_sum = init, ic_parity = False\<rparr>" by (simp add: InternetChecksum_new_def)
  then have "ic_sum (InternetChecksum_add data (InternetChecksum_new init)) =
      of_nat (unat init + octet_sum False data)" by (simp add: add_sum)
  then show ?thesis using le by (simp only: unat_of_nat) simp
qed

lemma value_fits:
  "sum_fits init (length data) \<Longrightarrow>
   unat (InternetChecksum_value (InternetChecksum_add data (InternetChecksum_new init))) =
     inet_checksum (unat init) data"
  by (simp add: unat_value unat_sum_fits inet_checksum_def)

lemma inet_checksum_lt: "inet_checksum i data < 65536"
  by (simp add: inet_checksum_def)

lemma inet_checksum_0_iff:
  "inet_checksum i data = 0 \<longleftrightarrow> i + octet_sum False data \<noteq> 0 \<and> 65535 dvd i + octet_sum False data"
  using ones_complement_le [of "i + octet_sum False data"]
  unfolding inet_checksum_def ones_complement_eq_top_iff [symmetric] by linarith

lemma value_0_iff:
  assumes "sum_fits init (length data)"
  shows "InternetChecksum_value (InternetChecksum_add data (InternetChecksum_new init)) = 0 \<longleftrightarrow>
    unat init + octet_sum False data \<noteq> 0 \<and> 65535 dvd unat init + octet_sum False data"
  using value_fits [OF assms] inet_checksum_0_iff by (metis unat_eq_0)

text \<open>Adding the checksum of a sum to it gives a multiple of 65535.\<close>

lemma complement_sum: "65535 dvd n + (65535 - ones_complement n)" "n + (65535 - ones_complement n) \<noteq> 0"
proof -
  have "65535 dvd n + (65535 - n mod 65535)"
  proof -
    have "n + (65535 - n mod 65535) = 65535 * (n div 65535) + 65535"
      using div_mult_mod_eq [of n 65535] mod_less_divisor [of 65535 n] by linarith
    then show ?thesis by simp
  qed
  then show "65535 dvd n + (65535 - ones_complement n)"
    by (cases "n = 0 \<or> n mod 65535 \<noteq> 0") (auto simp: ones_complement_def dvd_eq_mod_eq_0)
  show "n + (65535 - ones_complement n) \<noteq> 0" by (auto simp: ones_complement_def)
qed

lemma octet_sum_field:
  assumes "even (length pre)"
  shows "octet_sum low (pre @ be_bytes 2 (v :: u16) @ post) = octet_sum low (pre @ [0, 0] @ post) +
    (if low then 256 * (unat v mod 256) + unat v div 256 else unat v)"
proof -
  have "be_bytes 2 v = [ucast (drop_bit (1 * 8) v), ucast (drop_bit (0 * 8) v)]"
    by (simp add: numeral_2_eq_2 be_bytes_Suc) (simp add: be_bytes_def)
  then have "octet_sum low (be_bytes 2 v) = (if low then 256 * (unat v mod 256) + unat v div 256 else unat v)"
    using unat_lt_16 [of v] by (simp only: octet_sum.simps unat_ucast_drop_bit) auto
  then show ?thesis using assms by (simp add: octet_sum_append)
qed

lemma inet_field_verifies:
  assumes "even (length pre)" and "sum_fits init (length (pre @ [0, 0] @ post))"
  defines "ck \<equiv> InternetChecksum_value (InternetChecksum_add (pre @ [0, 0] @ post) (InternetChecksum_new init))"
  shows "InternetChecksum_value
    (InternetChecksum_add (pre @ be_bytes 2 ck @ post) (InternetChecksum_new init)) = 0"
proof -
  let ?n = "unat init + octet_sum False (pre @ [0, 0] @ post)"
  have "unat ck = 65535 - ones_complement ?n" unfolding assms(3) unat_value unat_sum_fits [OF assms(2)] ..
  then have "unat init + octet_sum False (pre @ be_bytes 2 ck @ post) = ?n + (65535 - ones_complement ?n)"
    using octet_sum_field [OF assms(1), of False ck post] by simp
  then have "unat init + octet_sum False (pre @ be_bytes 2 ck @ post) \<noteq> 0 \<and>
      65535 dvd unat init + octet_sum False (pre @ be_bytes 2 ck @ post)"
    using complement_sum [of ?n] by (simp only:) simp
  moreover have "sum_fits init (length (pre @ be_bytes 2 ck @ post))" using assms(2) by simp
  ultimately show ?thesis using value_0_iff by blast
qed

lemma inet_byte_change:
  assumes "sum_fits init (length (pre @ [a] @ post))" and "a \<noteq> b"
    and "InternetChecksum_value (InternetChecksum_add (pre @ [a] @ post) (InternetChecksum_new init)) = 0"
  shows "InternetChecksum_value (InternetChecksum_add (pre @ [b] @ post) (InternetChecksum_new init)) \<noteq> 0"
proof
  assume "InternetChecksum_value (InternetChecksum_add (pre @ [b] @ post) (InternetChecksum_new init)) = 0"
  then have both: "65535 dvd unat init + octet_sum False (pre @ [a] @ post)"
    "65535 dvd unat init + octet_sum False (pre @ [b] @ post)"
    using assms(1,3) by (simp_all add: value_0_iff)
  define w :: int where "w = (if even (length pre) then 256 else 1)"
  have "int 65535 dvd int (unat init + octet_sum False (pre @ [a] @ post)) -
      int (unat init + octet_sum False (pre @ [b] @ post))"
    using both by (intro dvd_diff) (simp_all only: of_nat_dvd_iff)
  then have "65535 dvd w * (int (unat a) - int (unat b))"
    by (simp add: octet_sum_append w_def right_diff_distrib split: if_splits)
  moreover have "w * (int (unat a) - int (unat b)) \<noteq> 0"
    using assms(2) by (simp add: w_def word_uint_eq_iff)
  ultimately have "65535 \<le> \<bar>w * (int (unat a) - int (unat b))\<bar>"
    by (metis abs_numeral dvd_imp_le_int)
  moreover have "\<bar>int (unat a) - int (unat b)\<bar> \<le> 255"
    using unat_lt_8 [of a] unat_lt_8 [of b] by linarith
  moreover have "w = 256 \<or> w = 1" by (simp add: w_def)
  ultimately show False unfolding abs_mult by auto
qed

section \<open>Properties\<close>

text \<open>
  Claim C11. The code computes the ones' complement checksum: however the data is split over calls
  of \<open>add\<close>, also at odd positions, \<open>value()\<close> is the 16-bit complement of the ones' complement sum of
  the initial sum and the data's 16-bit words, as long as the 32-bit sum cannot overflow, which holds
  for every IP datagram.
\<close>

theorem InternetChecksum_value_correct:
  assumes "sum_fits init (length (concat chunks))"
  shows "unat (InternetChecksum_value
      (foldl (\<lambda>c d. InternetChecksum_add d c) (InternetChecksum_new init) chunks)) =
    inet_checksum (unat init) (concat chunks)"
  using value_fits [OF assms] by (simp add: add_chunks)

theorem InternetChecksum_value_correct_witness:
  "unat (InternetChecksum_value
      (foldl (\<lambda>c d. InternetChecksum_add d c) (InternetChecksum_new 0x1FFFF) [[0x12], [0x34, 0xFF, 0xF0]])) =
    inet_checksum 0x1FFFF [0x12, 0x34, 0xFF, 0xF0]"
  using InternetChecksum_value_correct [of "0x1FFFF" "[[0x12], [0x34, 0xFF, 0xF0]]"] by (simp add: sum_fits_def)

text \<open>
  Verification accepts what computation produced: when a 16-bit field at an even position
  is zero, the checksum is computed, and the field is set to it, the checksum of the result is 0.
\<close>

theorem InternetChecksum_verifies:
  assumes "even (length pre)" and "sum_fits init (length (pre @ [0, 0] @ post))"
    and "ck = InternetChecksum_value (InternetChecksum_add (pre @ [0, 0] @ post) (InternetChecksum_new init))"
  shows "InternetChecksum_value
    (InternetChecksum_add (pre @ be_bytes 2 ck @ post) (InternetChecksum_new init)) = 0"
  using inet_field_verifies [OF assms(1,2)] assms(3) by simp

theorem InternetChecksum_verifies_witness:
  "InternetChecksum_value (InternetChecksum_add ([0x45, 0] @ be_bytes 2
      (InternetChecksum_value (InternetChecksum_add ([0x45, 0] @ [0, 0] @ [7]) (InternetChecksum_new 6)))
      @ [7]) (InternetChecksum_new 6)) = 0"
  by (rule InternetChecksum_verifies) (simp_all add: sum_fits_def)

text \<open>
  A data set with checksum 0 in which any single byte is changed has a checksum other
  than 0: single-byte corruption is always detected.
\<close>

theorem InternetChecksum_detects_byte_change:
  assumes "sum_fits init (length (pre @ [a] @ post))" and "a \<noteq> b"
    and "InternetChecksum_value (InternetChecksum_add (pre @ [a] @ post) (InternetChecksum_new init)) = 0"
  shows "InternetChecksum_value (InternetChecksum_add (pre @ [b] @ post) (InternetChecksum_new init)) \<noteq> 0"
  by (rule inet_byte_change [OF assms])

theorem InternetChecksum_detects_byte_change_witness:
  "InternetChecksum_value (InternetChecksum_add [0x12, 0x34, 0xED, 0xCB] (InternetChecksum_new 0)) = 0 \<and>
   InternetChecksum_value (InternetChecksum_add [0x12, 0x34, 0xED, 0xCC] (InternetChecksum_new 0)) \<noteq> 0"
proof -
  have "InternetChecksum_value (InternetChecksum_add [0x12, 0x34, 0xED, 0xCB] (InternetChecksum_new 0)) = 0"
    by code_simp
  then show ?thesis
    using InternetChecksum_detects_byte_change [of 0 "[0x12, 0x34, 0xED]" "0xCB" "[]" "0xCC"]
    by (simp add: sum_fits_def)
qed

end
