(* ===== verification/TCP_Segment.thy ===== *)
theory TCP_Segment
  imports TCP_Header Internet_Checksum
begin

text \<open>
  TCP segments: \<open>libsponge/tcp_helpers/tcp_segment.hh\<close> and \<open>tcp_segment.cc\<close>. A segment is a header
  and a payload; on the wire it carries a checksum over both and over the pseudo-header sum the
  datagram layer passes in.
\<close>

section \<open>State and operations\<close>

record TCPSegment =
  ts_header :: TCPHeader
  ts_payload :: Buffer

definition TCPSegment_new :: TCPSegment where
  "TCPSegment_new = \<lparr>ts_header = TCPHeader_new, ts_payload = Buffer_empty\<rparr>"

definition TCPSegment_header :: "TCPSegment \<Rightarrow> TCPHeader" where
  "TCPSegment_header seg = ts_header seg"

definition TCPSegment_payload :: "TCPSegment \<Rightarrow> Buffer" where
  "TCPSegment_payload seg = ts_payload seg"

declare TCPSegment_header_def [simp] TCPSegment_payload_def [simp]

definition TCPSegment_parse :: "Buffer \<Rightarrow> u32 \<Rightarrow> TCPSegment \<Rightarrow> cpp_failure + ParseResult \<times> TCPSegment" where
  "TCPSegment_parse buffer datagram_layer_checksum seg =
     (let check = InternetChecksum_add (Buffer_str buffer) (InternetChecksum_new datagram_layer_checksum)
      in if InternetChecksum_value check \<noteq> 0 then Inr (BadChecksum, seg)
         else and_then (TCPHeader_parse (NetParser_new buffer) (ts_header seg)) (\<lambda>(_, h, p).
           Inr (NetParser_get_error p, seg\<lparr>ts_header := h, ts_payload := NetParser_buffer p\<rparr>)))"

definition TCPSegment_length_in_sequence_space :: "TCPSegment \<Rightarrow> size_t" where
  "TCPSegment_length_in_sequence_space seg =
     size_of (Buffer_str (TCPSegment_payload seg)) + (if th_syn (TCPSegment_header seg) then 1 else 0) +
       (if th_fin (TCPSegment_header seg) then 1 else 0)"

definition TCPSegment_serialize :: "u32 \<Rightarrow> TCPSegment \<Rightarrow> cpp_failure + BufferList" where
  "TCPSegment_serialize datagram_layer_checksum seg =
     (let header_out = (ts_header seg)\<lparr>th_cksum := 0\<rparr>;
          check = InternetChecksum_new datagram_layer_checksum
      in and_then (TCPHeader_serialize header_out) (\<lambda>s.
           let check = InternetChecksum_add s check;
               check = InternetChecksum_add (Buffer_str (ts_payload seg)) check;
               header_out = header_out\<lparr>th_cksum := InternetChecksum_value check\<rparr>;
               ret = BufferList_empty
           in and_then (TCPHeader_serialize header_out) (\<lambda>s.
                let ret = BufferList_append (BufferList_of_string s) ret;
                    ret = BufferList_append (BufferList_of_buffer (ts_payload seg)) ret
                in Inr ret)))"

section \<open>The wire format of a segment\<close>

definition TCPSegment_ok :: "TCPSegment \<Rightarrow> bool" where
  "TCPSegment_ok seg \<longleftrightarrow> Buffer_ok (ts_payload seg) \<and> 5 \<le> unat (th_doff (ts_header seg)) \<and>
     unat (th_doff (ts_header seg)) < 16"

text \<open>The bytes with a given checksum, and the checksum \<open>serialize\<close> computes.\<close>

definition TCPSegment_wire :: "u16 \<Rightarrow> TCPSegment \<Rightarrow> bytes" where
  "TCPSegment_wire ck seg = wire_pre (ts_header seg) @ be_bytes 2 ck @ wire_post (ts_header seg) @
     Buffer_str (ts_payload seg)"

definition TCPSegment_checksum :: "u32 \<Rightarrow> TCPSegment \<Rightarrow> u16" where
  "TCPSegment_checksum init seg =
     InternetChecksum_value (InternetChecksum_add (TCPSegment_wire 0 seg) (InternetChecksum_new init))"

lemma be_bytes_2_0: "be_bytes 2 (0 :: u16) = [0, 0]"
  by (simp add: numeral_2_eq_2 be_bytes_Suc) (simp add: be_bytes_def)

lemma length_TCPSegment_wire:
  "TCPSegment_ok seg \<Longrightarrow>
   length (TCPSegment_wire ck seg) = 4 * unat (th_doff (ts_header seg)) + length (Buffer_str (ts_payload seg))"
  by (simp add: TCPSegment_wire_def TCPSegment_ok_def length_wire) linarith

lemma TCPSegment_serialize_eq:
  assumes "TCPSegment_ok seg"
  shows "\<exists>l. TCPSegment_serialize init seg = Inr l \<and>
    BufferList_concatenate l = TCPSegment_wire (TCPSegment_checksum init seg) seg"
proof -
  let ?h = "ts_header seg"
  have doff: "5 \<le> unat (th_doff ?h)" "unat (th_doff ?h) < 16" using assms by (simp_all add: TCPSegment_ok_def)
  have out: "TCPHeader_serialize (?h\<lparr>th_cksum := c\<rparr>) = Inr (wire_pre ?h @ be_bytes 2 c @ wire_post ?h)" for c
    using TCPHeader_serialize_eq [of "?h\<lparr>th_cksum := c\<rparr>"] doff by simp
  have twice: "?h\<lparr>th_cksum := 0, th_cksum := c\<rparr> = ?h\<lparr>th_cksum := c\<rparr>" for c by simp
  have "InternetChecksum_value (InternetChecksum_add (Buffer_str (ts_payload seg))
      (InternetChecksum_add (wire_pre ?h @ be_bytes 2 (0 :: u16) @ wire_post ?h) (InternetChecksum_new init))) =
      TCPSegment_checksum init seg"
    by (simp add: TCPSegment_checksum_def TCPSegment_wire_def InternetChecksum_add_def)
  then have "TCPSegment_serialize init seg = Inr (BufferList_append (BufferList_of_buffer (ts_payload seg))
      (BufferList_append (BufferList_of_string (wire_pre ?h @ be_bytes 2 (TCPSegment_checksum init seg) @ wire_post ?h))
        BufferList_empty))"
    by (simp only: TCPSegment_serialize_def Let_def out twice and_then_simps)
  moreover have "addressable (wire_pre ?h @ be_bytes 2 (TCPSegment_checksum init seg) @ wire_post ?h)"
    using doff by (simp add: addressable_def length_wire)
  ultimately show ?thesis
    by (simp add: BufferList_concatenate_eq BufferList_of_string_def BufferList_of_buffer_def BufferList_empty_def
        TCPSegment_wire_def)
qed

lemma TCPSegment_wire_verifies:
  assumes "sum_fits init (length (TCPSegment_wire 0 seg))"
  shows "InternetChecksum_value (InternetChecksum_add (TCPSegment_wire (TCPSegment_checksum init seg) seg)
    (InternetChecksum_new init)) = 0"
  using inet_field_verifies [of "wire_pre (ts_header seg)" init "wire_post (ts_header seg) @ Buffer_str (ts_payload seg)"]
    assms by (simp add: TCPSegment_wire_def TCPSegment_checksum_def be_bytes_2_0 length_wire)

lemma TCPSegment_parse_bad:
  "InternetChecksum_value (InternetChecksum_add (Buffer_str b) (InternetChecksum_new init)) \<noteq> 0 \<Longrightarrow>
   TCPSegment_parse b init seg = Inr (BadChecksum, seg)"
  by (simp add: TCPSegment_parse_def)

lemma TCPSegment_parse_good:
  assumes "InternetChecksum_value (InternetChecksum_add (Buffer_str b) (InternetChecksum_new init)) = 0"
    and "TCPHeader_parse (NetParser_new b) (ts_header seg) = Inr (r, h, p)"
  shows "TCPSegment_parse b init seg = Inr (NetParser_get_error p, \<lparr>ts_header = h, ts_payload = NetParser_buffer p\<rparr>)"
  using assms by (cases seg) (simp add: TCPSegment_parse_def)

lemma TCPSegment_wire_addressable:
  "sum_fits init (length (TCPSegment_wire ck seg)) \<Longrightarrow> addressable (TCPSegment_wire ck seg)"
  by (simp add: sum_fits_def addressable_def)

lemma TCPSegment_parse_wire:
  assumes ok: "TCPSegment_ok seg" and fits: "sum_fits init (length (TCPSegment_wire 0 seg))"
  defines "ck \<equiv> TCPSegment_checksum init seg"
  shows "\<exists>b. TCPSegment_parse (Buffer_of (TCPSegment_wire ck seg)) init r =
      Inr (NoError, \<lparr>ts_header = (ts_header seg)\<lparr>th_cksum := ck\<rparr>, ts_payload = b\<rparr>) \<and>
    Buffer_str b = Buffer_str (ts_payload seg)"
proof -
  let ?bs = "TCPSegment_wire ck seg" and ?d = "unat (th_doff (ts_header seg))"
  let ?h = "(ts_header seg)\<lparr>th_cksum := ck\<rparr>"
  have d: "5 \<le> ?d" "?d < 16" using ok by (simp_all add: TCPSegment_ok_def)
  have len: "length ?bs = 4 * ?d + length (Buffer_str (ts_payload seg))" by (rule length_TCPSegment_wire [OF ok])
  have ad: "addressable ?bs"
    using TCPSegment_wire_addressable [of init ck seg] fits length_TCPSegment_wire [OF ok] by simp
  have h: "TCPHeader_of ?bs = ?h"
    using TCPHeader_of_wire [of ?h "Buffer_str (ts_payload seg)"] d by (simp add: TCPSegment_wire_def)
  have at: "np_at (NetParser_new (Buffer_of ?bs)) NoError ?bs"
    using np_at_new [OF Buffer_of_ok [OF ad]] ad by simp
  obtain p where p: "TCPHeader_parse (NetParser_new (Buffer_of ?bs)) (ts_header r) = Inr (NoError, ?h, p)"
    and at': "np_at p NoError (drop (4 * ?d) ?bs)"
    using TCPHeader_parse_long [OF at, of "ts_header r"] len d by (auto simp: h)
  have "drop (4 * ?d) ?bs = Buffer_str (ts_payload seg)"
    using d by (simp add: TCPSegment_wire_def length_wire)
  then have "Buffer_str (NetParser_buffer p) = Buffer_str (ts_payload seg)"
    using np_at_buffer(1) [OF at'] by simp
  moreover have "InternetChecksum_value (InternetChecksum_add (Buffer_str (Buffer_of ?bs)) (InternetChecksum_new init)) = 0"
    using TCPSegment_wire_verifies [OF fits] ad by (simp add: ck_def)
  ultimately show ?thesis
    using TCPSegment_parse_good [OF _ p] np_at_error(1) [OF at'] by auto
qed

section \<open>Properties\<close>

text \<open>
  Claim C2. Segment round trip: a segment with a legal \<open>doff\<close> serializes without an exception, and
  parsing the concatenated buffers with the same pseudo-header sum succeeds and gives a segment with
  the same header fields, except for the checksum, which \<open>serialize\<close> fills in, and the same payload;
  the segments' headers are equal for \<open>operator==\<close>.
\<close>

theorem TCPSegment_roundtrip:
  assumes "TCPSegment_ok seg"
    and "sum_fits init (4 * unat (th_doff (ts_header seg)) + length (Buffer_str (ts_payload seg)))"
  shows "\<exists>l seg' ck. TCPSegment_serialize init seg = Inr l \<and>
    TCPSegment_parse (Buffer_of (BufferList_concatenate l)) init seg0 = Inr (NoError, seg') \<and>
    ts_header seg' = (ts_header seg)\<lparr>th_cksum := ck\<rparr> \<and>
    TCPHeader_eq (ts_header seg') (ts_header seg) \<and>
    Buffer_str (ts_payload seg') = Buffer_str (ts_payload seg)"
proof -
  have fits: "sum_fits init (length (TCPSegment_wire 0 seg))"
    using assms(2) by (simp add: length_TCPSegment_wire [OF assms(1)])
  obtain l where l: "TCPSegment_serialize init seg = Inr l"
    "BufferList_concatenate l = TCPSegment_wire (TCPSegment_checksum init seg) seg"
    using TCPSegment_serialize_eq [OF assms(1)] by blast
  let ?h = "(ts_header seg)\<lparr>th_cksum := TCPSegment_checksum init seg\<rparr>"
  obtain b where b: "TCPSegment_parse (Buffer_of (BufferList_concatenate l)) init seg0 =
      Inr (NoError, \<lparr>ts_header = ?h, ts_payload = b\<rparr>)" "Buffer_str b = Buffer_str (ts_payload seg)"
    using TCPSegment_parse_wire [OF assms(1) fits, of seg0] unfolding l(2) by blast
  have "ts_header \<lparr>ts_header = ?h, ts_payload = b\<rparr> = ?h \<and> TCPHeader_eq ?h (ts_header seg)"
    by (simp add: TCPHeader_eq_def WrappingInt32_eq_def)
  then show ?thesis using l(1) b by (metis TCPSegment.select_convs(2))
qed

theorem TCPSegment_roundtrip_witness:
  "\<exists>l seg' ck. TCPSegment_serialize 77 \<lparr>ts_header = TCPHeader_new\<lparr>th_seqno := WrappingInt32 9, th_fin := True\<rparr>,
      ts_payload = Buffer_of [104, 105, 33]\<rparr> = Inr l \<and>
    TCPSegment_parse (Buffer_of (BufferList_concatenate l)) 77 TCPSegment_new = Inr (NoError, seg') \<and>
    ts_header seg' = TCPHeader_new\<lparr>th_seqno := WrappingInt32 9, th_fin := True, th_cksum := ck\<rparr> \<and>
    Buffer_str (ts_payload seg') = [104, 105, 33]"
proof -
  let ?seg = "\<lparr>ts_header = TCPHeader_new\<lparr>th_seqno := WrappingInt32 9, th_fin := True\<rparr>,
      ts_payload = Buffer_of [104, 105, 33]\<rparr>"
  have "th_doff TCPHeader_new = 5" by code_simp
  then have "TCPSegment_ok ?seg" by (simp add: TCPSegment_ok_def addressable_def)
  moreover have "sum_fits 77 (4 * unat (th_doff (ts_header ?seg)) + length (Buffer_str (ts_payload ?seg)))"
    using \<open>th_doff TCPHeader_new = 5\<close> by (simp add: sum_fits_def addressable_def)
  ultimately show ?thesis using TCPSegment_roundtrip [of ?seg 77 TCPSegment_new] by (auto simp: addressable_def)
qed

text \<open>
  Claim C6. Corruption is reported: when any one byte of a serialized segment, header or payload, is
  changed on the way, parsing returns \<open>BadChecksum\<close> and leaves the receiving segment as it was.
\<close>

theorem TCPSegment_corruption_detected:
  assumes "TCPSegment_ok seg"
    and "sum_fits init (4 * unat (th_doff (ts_header seg)) + length (Buffer_str (ts_payload seg)))"
    and "TCPSegment_serialize init seg = Inr l"
    and "i < length (BufferList_concatenate l)" and "v \<noteq> BufferList_concatenate l ! i"
  shows "TCPSegment_parse (Buffer_of ((BufferList_concatenate l)[i := v])) init seg0 = Inr (BadChecksum, seg0)"
proof -
  let ?bs = "BufferList_concatenate l"
  have fits: "sum_fits init (length (TCPSegment_wire 0 seg))"
    using assms(2) by (simp add: length_TCPSegment_wire [OF assms(1)])
  have bs: "?bs = TCPSegment_wire (TCPSegment_checksum init seg) seg"
    using TCPSegment_serialize_eq [OF assms(1), of init] assms(3) by auto
  then have fits': "sum_fits init (length ?bs)" using fits by (simp add: length_TCPSegment_wire [OF assms(1)])
  have ad: "addressable (?bs[i := v])"
    using fits' TCPSegment_wire_addressable [of init "TCPSegment_checksum init seg" seg] bs
    by (simp add: addressable_def)
  let ?pre = "take i ?bs" and ?post = "drop (Suc i) ?bs"
  have split: "?bs = ?pre @ [?bs ! i] @ ?post" "?bs[i := v] = ?pre @ [v] @ ?post"
    using assms(4) by (simp_all add: id_take_nth_drop [symmetric] upd_conv_take_nth_drop)
  have "InternetChecksum_value (InternetChecksum_add (?pre @ [v] @ ?post) (InternetChecksum_new init)) \<noteq> 0"
  proof (rule inet_byte_change [of init ?pre "?bs ! i" ?post])
    show "sum_fits init (length (?pre @ [?bs ! i] @ ?post))" using fits' split(1) by simp
    show "?bs ! i \<noteq> v" using assms(5) by simp
    show "InternetChecksum_value (InternetChecksum_add (?pre @ [?bs ! i] @ ?post) (InternetChecksum_new init)) = 0"
      using TCPSegment_wire_verifies [OF fits] split(1) bs by simp
  qed
  then show ?thesis
    using ad split(2) by (intro TCPSegment_parse_bad) simp
qed

theorem TCPSegment_corruption_detected_witness:
  "\<exists>l. TCPSegment_serialize 0 TCPSegment_new = Inr l \<and>
    TCPSegment_parse (Buffer_of ((BufferList_concatenate l)[4 := 1])) 0 TCPSegment_new = Inr (BadChecksum, TCPSegment_new)"
proof -
  have d: "th_doff TCPHeader_new = 5" by code_simp
  have ok: "TCPSegment_ok TCPSegment_new"
    by (simp add: TCPSegment_ok_def TCPSegment_new_def Buffer_empty_def Buffer_ok_def d)
  have fits: "sum_fits 0 (4 * unat (th_doff (ts_header TCPSegment_new)) +
      length (Buffer_str (ts_payload TCPSegment_new)))"
    by (simp add: sum_fits_def TCPSegment_new_def Buffer_empty_def Buffer_str_def d)
  have "map_sum id (\<lambda>l. (length (BufferList_concatenate l), BufferList_concatenate l ! 4))
      (TCPSegment_serialize 0 TCPSegment_new) = Inr (20, 0)" by code_simp
  then obtain l where l: "TCPSegment_serialize 0 TCPSegment_new = Inr l"
    "length (BufferList_concatenate l) = 20" "BufferList_concatenate l ! 4 = 0"
    by (cases "TCPSegment_serialize 0 TCPSegment_new") auto
  show ?thesis
    using TCPSegment_corruption_detected [OF ok fits l(1), of 4 1 TCPSegment_new] l by simp
qed

text \<open>
  Claim C10. The result of parsing any buffer into a segment, on every branch. A non-zero checksum
  gives \<open>BadChecksum\<close> and changes nothing. Otherwise fewer than 20 bytes, or fewer than the offset
  asks for, give \<open>PacketTooShort\<close>; else the result is \<open>NoError\<close>, the header is what the bytes encode
  and the payload is what follows it (after an offset below 5, what follows the first 20 bytes). No
  exception is thrown.
\<close>

theorem TCPSegment_parse_total:
  assumes "Buffer_ok b"
  defines "bs \<equiv> Buffer_str b" and "doff \<equiv> unat (th_doff (TCPHeader_of (Buffer_str b)))"
  shows "\<exists>r seg'. TCPSegment_parse b init seg = Inr (r, seg') \<and>
    (if InternetChecksum_value (InternetChecksum_add bs (InternetChecksum_new init)) \<noteq> 0
     then r = BadChecksum \<and> seg' = seg
     else if length bs < 20 \<or> length bs < 4 * doff then r = PacketTooShort
     else r = NoError \<and> ts_header seg' = TCPHeader_of bs \<and>
       Buffer_str (ts_payload seg') = drop (max 20 (4 * doff)) bs)"
proof (cases "InternetChecksum_value (InternetChecksum_add bs (InternetChecksum_new init)) = 0")
  case False
  then show ?thesis by (simp add: TCPSegment_parse_def bs_def)
next
  case True
  have at: "np_at (NetParser_new b) NoError bs" unfolding bs_def by (rule np_at_new [OF assms(1)])
  note good = TCPSegment_parse_good [OF True [unfolded bs_def], of seg]
  show ?thesis
  proof (cases "length bs < 20")
    case short: True
    obtain r h p rest where "TCPHeader_parse (NetParser_new b) (ts_header seg) = Inr (r, h, p)"
      and "np_at p PacketTooShort rest"
      using TCPHeader_parse_short [OF at short, of "ts_header seg"] by blast
    then show ?thesis using good [of r h p] True short np_at_error(1) by auto
  next
    case long: False
    then obtain r p where p: "TCPHeader_parse (NetParser_new b) (ts_header seg) = Inr (r, TCPHeader_of bs, p)"
      and at': "np_at p (if doff < 5 then NoError else np_after (4 * doff) NoError bs)
        (drop (if 5 \<le> doff \<and> 4 * doff \<le> length bs then 4 * doff else 20) bs)"
      using TCPHeader_parse_long [OF at, of "ts_header seg"] unfolding doff_def bs_def by auto
    show ?thesis
      using good [OF p] np_at_error(1) [OF at'] np_at_buffer(1) [OF at'] True long by (auto simp: max_def)
  qed
qed

theorem TCPSegment_parse_total_witness:
  "\<exists>seg'. TCPSegment_parse (Buffer_of [0xFF, 0xFF]) 0 TCPSegment_new = Inr (PacketTooShort, seg')"
proof -
  have "InternetChecksum_value (InternetChecksum_add [0xFF, 0xFF] (InternetChecksum_new 0)) = 0" by code_simp
  then show ?thesis
    using TCPSegment_parse_total [of "Buffer_of [0xFF, 0xFF]" 0 TCPSegment_new] by (simp add: addressable_def)
qed

text \<open>
  Claim C40. A segment whose data offset is below the minimum is accepted: \<open>parse\<close> drops the
  \<open>HeaderTooShort\<close> that the header's \<open>parse\<close> returns, because only the parser's own error is looked
  at. Whenever the checksum is right and there are 20 bytes, the result is \<open>NoError\<close>, although
  serializing the segment so obtained throws.
\<close>

theorem TCPSegment_parse_accepts_short_doff:
  assumes "Buffer_ok b" and "20 \<le> length (Buffer_str b)"
    and "InternetChecksum_value (InternetChecksum_add (Buffer_str b) (InternetChecksum_new init)) = 0"
    and "th_doff (TCPHeader_of (Buffer_str b)) < 5"
  shows "\<exists>seg'. TCPSegment_parse b init seg = Inr (NoError, seg') \<and> th_doff (ts_header seg') < 5 \<and>
    TCPSegment_serialize init seg' = Inl (runtime_error ''TCP header too short'')"
proof -
  let ?h = "TCPHeader_of (Buffer_str b)"
  have "unat (th_doff ?h) < 5" using assms(4) by (simp add: word_less_nat_alt)
  then obtain r p where "TCPHeader_parse (NetParser_new b) (ts_header seg) = Inr (r, ?h, p)" "np_at p NoError (drop 20 (Buffer_str b))"
    using TCPHeader_parse_long [OF np_at_new [OF assms(1)] assms(2), of "ts_header seg"] by auto
  then have "TCPSegment_parse b init seg = Inr (NoError, \<lparr>ts_header = ?h, ts_payload = NetParser_buffer p\<rparr>)"
    using TCPSegment_parse_good [OF assms(3)] np_at_error(1) by metis
  then show ?thesis using assms(4) by (auto simp: TCPSegment_serialize_def TCPHeader_serialize_def)
qed

theorem TCPSegment_parse_accepts_short_doff_witness:
  "\<exists>seg'. TCPSegment_parse (Buffer_of (replicate 16 0 @ [0xFF, 0xFF, 0, 0])) 0 TCPSegment_new = Inr (NoError, seg') \<and>
    th_doff (ts_header seg') < 5 \<and>
    TCPSegment_serialize 0 seg' = Inl (runtime_error ''TCP header too short'')"
proof -
  let ?bs = "replicate 16 0 @ [0xFF, 0xFF, 0, 0] :: bytes"
  have ad: "addressable ?bs" by (simp add: addressable_def)
  have ck: "InternetChecksum_value (InternetChecksum_add ?bs (InternetChecksum_new 0)) = 0" by code_simp
  have doff: "th_doff (TCPHeader_of ?bs) < 5" by (simp add: TCPHeader_of_def nth_append)
  have len: "20 \<le> length ?bs" by simp
  show ?thesis
    by (rule TCPSegment_parse_accepts_short_doff)
       (simp_all only: Buffer_of_str [OF ad] Buffer_of_ok [OF ad] ck doff len)
qed

text \<open>
  A segment's length in sequence space is the number of payload bytes plus one for SYN and
  one for FIN, without wrap-around.
\<close>

theorem TCPSegment_length_correct:
  assumes "length (Buffer_str (ts_payload seg)) < 2 ^ 64 - 2"
  shows "unat (TCPSegment_length_in_sequence_space seg) = length (Buffer_str (ts_payload seg)) +
    of_bool (th_syn (ts_header seg)) + of_bool (th_fin (ts_header seg))"
proof -
  have "TCPSegment_length_in_sequence_space seg = of_nat (length (Buffer_str (ts_payload seg)) +
      of_bool (th_syn (ts_header seg)) + of_bool (th_fin (ts_header seg)))"
    by (simp add: TCPSegment_length_in_sequence_space_def size_of_def)
  moreover have "length (Buffer_str (ts_payload seg)) + of_bool (th_syn (ts_header seg)) +
      of_bool (th_fin (ts_header seg)) < 2 ^ 64"
    using assms by (simp add: of_bool_def)
  ultimately show ?thesis using unat_of_nat_64 by presburger
qed

theorem TCPSegment_length_correct_witness:
  "unat (TCPSegment_length_in_sequence_space
     \<lparr>ts_header = TCPHeader_new\<lparr>th_syn := True\<rparr>, ts_payload = Buffer_of [1, 2, 3]\<rparr>) = 4"
  using TCPSegment_length_correct [of "\<lparr>ts_header = TCPHeader_new\<lparr>th_syn := True\<rparr>, ts_payload = Buffer_of [1, 2, 3]\<rparr>"]
  by (simp add: addressable_def TCPHeader_new_def)

end
