(* ===== verification/TCP_Receiver.thy ===== *)
theory TCP_Receiver
  imports Stream_Reassembly TCP_Segment
begin

text \<open>
  The receiver and its state summary: \<open>libsponge/tcp_receiver.hh\<close>, \<open>tcp_receiver.cc\<close> and
  \<open>tcp_helpers/tcp_state.hh\<close>, \<open>tcp_state.cc\<close>. In this version of the sources the receiver is the
  placeholder that the laboratory exercise starts from: it owns a reassembler, but
  \<open>segment_received\<close> ignores the segment. The theory states what that code does.
\<close>

section \<open>State and operations\<close>

record TCPReceiver =
  tr_reassembler :: StreamReassembler
  tr_capacity :: size_t

definition TCPReceiver_new :: "size_t \<Rightarrow> TCPReceiver" where
  "TCPReceiver_new capacity = \<lparr>tr_reassembler = StreamReassembler_new capacity, tr_capacity = capacity\<rparr>"

definition TCPReceiver_segment_received :: "TCPSegment \<Rightarrow> TCPReceiver \<Rightarrow> TCPReceiver" where
  "TCPReceiver_segment_received seg r = r"

definition TCPReceiver_ackno :: "TCPReceiver \<Rightarrow> WrappingInt32 option" where
  "TCPReceiver_ackno r = None"

definition TCPReceiver_window_size :: "TCPReceiver \<Rightarrow> size_t" where
  "TCPReceiver_window_size r = 0"

definition TCPReceiver_unassembled_bytes :: "TCPReceiver \<Rightarrow> size_t" where
  "TCPReceiver_unassembled_bytes r = StreamReassembler_unassembled_bytes (tr_reassembler r)"

definition TCPReceiver_stream_out :: "TCPReceiver \<Rightarrow> ByteStream" where
  "TCPReceiver_stream_out r = StreamReassembler_stream_out (tr_reassembler r)"

text \<open>The four summaries of \<open>TCPReceiverStateSummary\<close>.\<close>

definition TCPReceiverStateSummary_ERROR :: string where
  "TCPReceiverStateSummary_ERROR = ''error (connection was reset)''"

definition TCPReceiverStateSummary_LISTEN :: string where
  "TCPReceiverStateSummary_LISTEN = ''waiting for SYN: ackno is empty''"

definition TCPReceiverStateSummary_SYN_RECV :: string where
  "TCPReceiverStateSummary_SYN_RECV = ''SYN received (ackno exists), and input to stream hasn't ended''"

definition TCPReceiverStateSummary_FIN_RECV :: string where
  "TCPReceiverStateSummary_FIN_RECV = ''input to stream has ended''"

definition TCPState_state_summary :: "TCPReceiver \<Rightarrow> string" where
  "TCPState_state_summary receiver =
     (if ByteStream_error (TCPReceiver_stream_out receiver) then TCPReceiverStateSummary_ERROR
      else if TCPReceiver_ackno receiver = None then TCPReceiverStateSummary_LISTEN
      else if ByteStream_input_ended (TCPReceiver_stream_out receiver) then TCPReceiverStateSummary_FIN_RECV
      else TCPReceiverStateSummary_SYN_RECV)"

section \<open>Runs\<close>

text \<open>
  A run of a receiver: segments arrive, and the owner of the stream reads, or resets it with
  \<open>set_error\<close>, through the reference \<open>stream_out()\<close> returns.
\<close>

definition TCPReceiver_with_stream :: "(ByteStream \<Rightarrow> ByteStream) \<Rightarrow> TCPReceiver \<Rightarrow> TCPReceiver" where
  "TCPReceiver_with_stream f r =
     r\<lparr>tr_reassembler := (tr_reassembler r)\<lparr>sr_output := f (sr_output (tr_reassembler r))\<rparr>\<rparr>"

inductive TCPReceiver_step :: "TCPReceiver \<Rightarrow> TCPReceiver \<Rightarrow> bool" where
  recv_segment: "TCPReceiver_step r (TCPReceiver_segment_received seg r)"
| recv_read: "TCPReceiver_step r (TCPReceiver_with_stream (\<lambda>s. snd (ByteStream_read n s)) r)"
| recv_reset: "TCPReceiver_step r (TCPReceiver_with_stream ByteStream_set_error r)"

inductive_cases TCPReceiver_stepE: "TCPReceiver_step r r'"

definition TCPReceiver_blank :: "size_t \<Rightarrow> TCPReceiver \<Rightarrow> bool" where
  "TCPReceiver_blank c r \<longleftrightarrow> tr_capacity r = c \<and>
     (\<exists>e. TCPReceiver_stream_out r = (ByteStream_new c)\<lparr>bs_error := e\<rparr>) \<and>
     sr_unassembled (tr_reassembler r) = Mapping.empty"

lemma TCPReceiver_new_blank: "TCPReceiver_blank c (TCPReceiver_new c)"
  by (auto simp: TCPReceiver_blank_def TCPReceiver_new_def TCPReceiver_stream_out_def
      StreamReassembler_stream_out_def StreamReassembler_new_def ByteStream_new_def)

lemma TCPReceiver_step_blank: "TCPReceiver_step r r' \<Longrightarrow> TCPReceiver_blank c r \<Longrightarrow> TCPReceiver_blank c r'"
  by (erule TCPReceiver_stepE)
     (auto simp: TCPReceiver_blank_def TCPReceiver_segment_received_def TCPReceiver_with_stream_def
       TCPReceiver_stream_out_def StreamReassembler_stream_out_def ByteStream_set_error_def ByteStream_read_def
       ByteStream_peek_output_def ByteStream_pop_output_def ByteStream_new_def Let_def)

lemma TCPReceiver_run_blank: "TCPReceiver_step\<^sup>*\<^sup>* r r' \<Longrightarrow> TCPReceiver_blank c r \<Longrightarrow> TCPReceiver_blank c r'"
  by (induction rule: rtranclp_induct) (auto intro: TCPReceiver_step_blank)

section \<open>Properties\<close>

text \<open>
  The receiver never leaves its initial state: after any run, whatever segments arrived,
  there is no acknowledgement number, the window is 0, nothing is held for reassembly, the stream is
  empty and still open, and the summary is \<open>LISTEN\<close>, or \<open>ERROR\<close> after a reset; \<open>SYN_RECV\<close> and
  \<open>FIN_RECV\<close> are never reported.
\<close>

theorem TCPReceiver_stays_listening:
  assumes "TCPReceiver_step\<^sup>*\<^sup>* (TCPReceiver_new c) r"
  shows "TCPReceiver_ackno r = None \<and> TCPReceiver_window_size r = 0 \<and> TCPReceiver_unassembled_bytes r = 0 \<and>
    bs_buffer (TCPReceiver_stream_out r) = [] \<and> \<not> ByteStream_input_ended (TCPReceiver_stream_out r) \<and>
    TCPState_state_summary r = (if ByteStream_error (TCPReceiver_stream_out r)
      then TCPReceiverStateSummary_ERROR else TCPReceiverStateSummary_LISTEN)"
proof -
  have "TCPReceiver_blank c r" by (rule TCPReceiver_run_blank [OF assms TCPReceiver_new_blank])
  then show ?thesis
    by (auto simp: TCPReceiver_blank_def TCPReceiver_ackno_def TCPReceiver_window_size_def
        TCPReceiver_unassembled_bytes_def StreamReassembler_unassembled_bytes_def TCPState_state_summary_def
        ByteStream_new_def Mapping.size_def)
qed

theorem TCPReceiver_stays_listening_witness:
  "TCPState_state_summary (TCPReceiver_segment_received
     \<lparr>ts_header = TCPHeader_new\<lparr>th_syn := True\<rparr>, ts_payload = Buffer_empty\<rparr> (TCPReceiver_new 100)) =
   TCPReceiverStateSummary_LISTEN"
proof -
  let ?r = "TCPReceiver_segment_received
     \<lparr>ts_header = TCPHeader_new\<lparr>th_syn := True\<rparr>, ts_payload = Buffer_empty\<rparr> (TCPReceiver_new 100)"
  have "TCPReceiver_step\<^sup>*\<^sup>* (TCPReceiver_new 100) ?r" by (rule r_into_rtranclp) (rule recv_segment)
  from TCPReceiver_stays_listening [OF this] show ?thesis
    by (simp add: TCPReceiver_segment_received_def TCPReceiver_new_def TCPReceiver_stream_out_def
        StreamReassembler_stream_out_def StreamReassembler_new_def ByteStream_new_def ByteStream_error_def)
qed

end
