(* ===== verification/System_Calls.thy ===== *)
theory System_Calls
  imports Buffer
begin

text \<open>
  The border to the operating system: \<open>SystemCall\<close> of \<open>libsponge/util/util.cc\<close>, the system calls
  the sources use as a parameter of the model, and actions that keep the state when an exception is
  thrown.
\<close>

section \<open>Numbers as text and as C integers\<close>

definition decimal_digit :: "nat \<Rightarrow> char" where
  "decimal_digit d = ''0123456789'' ! d"

fun string_of_nat :: "nat \<Rightarrow> string" where
  "string_of_nat n = (if n < 10 then [decimal_digit n] else string_of_nat (n div 10) @ [decimal_digit (n mod 10)])"

declare string_of_nat.simps [simp del]

text \<open>\<open>std::to_string\<close> of an integer.\<close>

definition to_string :: "int \<Rightarrow> string" where
  "to_string i = (if i < 0 then ''-'' @ string_of_nat (nat (- i)) else string_of_nat (nat i))"

text \<open>Passing a wider integer as an \<open>int\<close> parameter keeps its low 32 bits, read as signed.\<close>

definition c_int :: "int \<Rightarrow> int" where
  "c_int i = sint (of_int i :: 32 word)"

section \<open>System calls\<close>

text \<open>What a call reports: the value it returns and \<open>errno\<close> after it.\<close>

type_synonym sys_result = "int \<times> int"

definition SystemCall :: "string \<Rightarrow> sys_result \<Rightarrow> int \<Rightarrow> cpp_failure + int" where
  "SystemCall attempt result errno_mask =
     (let return_value = c_int (fst result); errno = snd result
      in if 0 \<le> return_value \<or> errno = errno_mask then Inr return_value
         else Inl (unix_error attempt errno))"

text \<open>The constants of \<open>poll.h\<close>, \<open>errno.h\<close> and \<open>fcntl.h\<close> the sources use (their values on Linux).\<close>

definition POLLIN :: u16 where "POLLIN = 0x001"
definition POLLOUT :: u16 where "POLLOUT = 0x004"
definition POLLERR :: u16 where "POLLERR = 0x008"
definition POLLHUP :: u16 where "POLLHUP = 0x010"
definition POLLNVAL :: u16 where "POLLNVAL = 0x020"
definition EINTR :: int where "EINTR = 4"
definition O_NONBLOCK :: u32 where "O_NONBLOCK = 0x800"

record pollfd =
  pf_fd :: int
  pf_events :: u16
  pf_revents :: u16

text \<open>
  The kernel is a parameter: an operation for every system call, on a state \<open>'w\<close> of its own.
  \<open>sys_read\<close> also gives the bytes it stored, \<open>sys_poll\<close> the array with its \<open>revents\<close>.
\<close>

record 'w kernel =
  sys_read :: "int \<Rightarrow> size_t \<Rightarrow> 'w \<Rightarrow> sys_result \<times> bytes \<times> 'w"
  sys_writev :: "int \<Rightarrow> (bytes \<times> size_t) list \<Rightarrow> 'w \<Rightarrow> sys_result \<times> 'w"
  sys_close :: "int \<Rightarrow> 'w \<Rightarrow> sys_result \<times> 'w"
  sys_getfl :: "int \<Rightarrow> 'w \<Rightarrow> sys_result \<times> 'w"
  sys_setfl :: "int \<Rightarrow> u32 \<Rightarrow> 'w \<Rightarrow> sys_result \<times> 'w"
  sys_poll :: "pollfd list \<Rightarrow> int \<Rightarrow> 'w \<Rightarrow> sys_result \<times> pollfd list \<times> 'w"

section \<open>Actions\<close>

text \<open>An action returns a value or throws, and leaves a state in both cases.\<close>

type_synonym ('s, 'a) action = "'s \<Rightarrow> (cpp_failure + 'a) \<times> 's"

definition returns :: "'a \<Rightarrow> ('s, 'a) action" where
  "returns x = (\<lambda>s. (Inr x, s))"

definition throws :: "cpp_failure \<Rightarrow> ('s, 'a) action" where
  "throws e = (\<lambda>s. (Inl e, s))"

definition bind :: "('s, 'a) action \<Rightarrow> ('a \<Rightarrow> ('s, 'b) action) \<Rightarrow> ('s, 'b) action" where
  "bind m f = (\<lambda>s. case m s of (Inl e, s') \<Rightarrow> (Inl e, s') | (Inr x, s') \<Rightarrow> f x s')"

text \<open>A result computed without the state.\<close>

definition lift :: "cpp_failure + 'a \<Rightarrow> ('s, 'a) action" where
  "lift r = (\<lambda>s. (r, s))"

lemma action_simps [simp]:
  "returns x s = (Inr x, s)" "throws e s = (Inl e, s)" "lift r s = (r, s)"
  by (simp_all add: returns_def throws_def lift_def)

lemma bind_Inr: "m s = (Inr x, s') \<Longrightarrow> bind m f s = f x s'"
  and bind_Inl: "m s = (Inl e, s') \<Longrightarrow> bind m f s = (Inl e, s')"
  by (simp_all add: bind_def)

lemma bind_eq_Inr:
  "bind m f s = (Inr y, s'') \<longleftrightarrow> (\<exists>x s'. m s = (Inr x, s') \<and> f x s' = (Inr y, s''))"
  by (auto simp: bind_def split: prod.splits sum.splits)

lemma bind_assoc: "bind (bind m f) g = bind m (\<lambda>x. bind (f x) g)"
  by (auto simp: bind_def fun_eq_iff split: prod.splits sum.splits)

section \<open>Lemmas\<close>

lemma c_int_small: "- (2 ^ 31) \<le> i \<Longrightarrow> i < 2 ^ 31 \<Longrightarrow> c_int i = i"
  by (simp add: c_int_def signed_of_int signed_take_bit_int_eq_self)

lemma c_int_range: "- (2 ^ 31) \<le> c_int i" "c_int i < 2 ^ 31"
  unfolding c_int_def using sint_ge [of "of_int i :: 32 word"] sint_lt [of "of_int i :: 32 word"] by auto

lemma SystemCall_ok: "0 \<le> r \<Longrightarrow> r < 2 ^ 31 \<Longrightarrow> SystemCall attempt (r, err) errno_mask = Inr r"
  by (simp add: SystemCall_def c_int_small Let_def)

end
