(* ===== verification/Text_Format.thy ===== *)
theory Text_Format
  imports System_Calls
begin

text \<open>
  Numbers as text, as the standard library prints and reads them: decimal digits
  (\<open>string_of_nat\<close> of the theory of the system calls), hexadecimal digits, padded fields, C strings,
  and \<open>std::stoi\<close>, with the facts the addresses and the printed headers rest on.
\<close>

section \<open>Printing\<close>

definition hex_digit :: "nat \<Rightarrow> char" where
  "hex_digit d = ''0123456789abcdef'' ! d"

text \<open>An unsigned number under \<open>std::hex\<close>: lower case, no prefix, no leading zeros.\<close>

fun hex_of_nat :: "nat \<Rightarrow> string" where
  "hex_of_nat n = (if n < 16 then [hex_digit n] else hex_of_nat (n div 16) @ [hex_digit (n mod 16)])"

declare hex_of_nat.simps [simp del]

text \<open>A field of width \<open>n\<close> (\<open>std::setw\<close>), filled on the left.\<close>

definition pad_left :: "char \<Rightarrow> nat \<Rightarrow> string \<Rightarrow> string" where
  "pad_left c n s = replicate (n - length s) c @ s"

text \<open>\<open>c_str()\<close> ends at the first null byte for the function that gets it.\<close>

definition c_str :: "string \<Rightarrow> string" where
  "c_str s = takeWhile (\<lambda>c. c \<noteq> CHR 0x00) s"

text \<open>The bytes of a text.\<close>

definition string_bytes :: "string \<Rightarrow> bytes" where
  "string_bytes s = map of_char s"

section \<open>Reading\<close>

definition is_space :: "char \<Rightarrow> bool" where
  "is_space c \<longleftrightarrow> c \<in> {CHR '' '', CHR 0x09, CHR 0x0A, CHR 0x0B, CHR 0x0C, CHR 0x0D}"

definition is_digit :: "char \<Rightarrow> bool" where
  "is_digit c \<longleftrightarrow> 48 \<le> (of_char c :: nat) \<and> (of_char c :: nat) \<le> 57"

fun read_nat :: "nat \<Rightarrow> string \<Rightarrow> nat" where
  "read_nat acc (c # cs) = (if is_digit c then read_nat (10 * acc + (of_char c - 48)) cs else acc)"
| "read_nat acc [] = acc"

definition stoi :: "string \<Rightarrow> cpp_failure + int" where
  "stoi str =
     (let s = dropWhile is_space str;
          neg = (s \<noteq> [] \<and> hd s = CHR ''-'');
          digits = (if s \<noteq> [] \<and> (hd s = CHR ''-'' \<or> hd s = CHR ''+'') then tl s else s);
          v = (if neg then - int (read_nat 0 digits) else int (read_nat 0 digits))
      in if digits = [] \<or> \<not> is_digit (hd digits) then Inl (invalid_argument ''stoi'')
         else if v < - (2 ^ 31) \<or> 2 ^ 31 \<le> v then Inl (out_of_range ''stoi'')
         else Inr v)"

section \<open>Lemmas\<close>

lemma less_10_cases: "d < 10 \<Longrightarrow> d \<in> {0, 1, 2, 3, 4, 5, 6, 7, 8, 9 :: nat}"
  by auto

lemma decimal_digit_facts:
  assumes "d < 10"
  shows "is_digit (decimal_digit d)" "of_char (decimal_digit d) = 48 + d"
  using less_10_cases [OF assms] by (auto simp: decimal_digit_def is_digit_def)

lemma is_digit_neq:
  assumes "is_digit c"
  shows "c \<noteq> CHR ''-''" "c \<noteq> CHR ''+''" "c \<noteq> CHR ''.''" "c \<noteq> CHR '':''" "c \<noteq> CHR 0x00" "\<not> is_space c"
  using assms by (auto simp: is_digit_def is_space_def)

lemma string_of_nat_digits: "c \<in> set (string_of_nat n) \<Longrightarrow> is_digit c"
proof (induction n rule: string_of_nat.induct)
  case (1 n)
  then show ?case
    by (subst (asm) (2) string_of_nat.simps) (auto simp: decimal_digit_facts split: if_splits)
qed

lemma string_of_nat_nonempty [simp]: "string_of_nat n \<noteq> []"
  by (subst string_of_nat.simps) simp

lemma hd_string_of_nat: "is_digit (hd (string_of_nat n))"
  by (rule string_of_nat_digits [of _ n]) simp

lemma read_nat_append:
  "(\<And>c. c \<in> set xs \<Longrightarrow> is_digit c) \<Longrightarrow> read_nat acc (xs @ ys) = read_nat (read_nat acc xs) ys"
  by (induction xs arbitrary: acc) auto

lemma read_string_of_nat: "read_nat 0 (string_of_nat n) = n"
proof (induction n rule: string_of_nat.induct)
  case (1 n)
  show ?case
  proof (cases "n < 10")
    case True
    then show ?thesis by (subst string_of_nat.simps) (simp add: decimal_digit_facts)
  next
    case False
    then show ?thesis
      using 1 by (subst string_of_nat.simps)
        (simp add: read_nat_append string_of_nat_digits decimal_digit_facts)
  qed
qed

lemma dropWhile_hd: "xs \<noteq> [] \<Longrightarrow> \<not> P (hd xs) \<Longrightarrow> dropWhile P xs = xs"
  by (cases xs) auto

text \<open>\<open>stoi\<close> reads back what \<open>to_string\<close> prints.\<close>

lemma stoi_string_of_nat: "n < 2 ^ 31 \<Longrightarrow> stoi (string_of_nat n) = Inr (int n)"
  using is_digit_neq [OF hd_string_of_nat [of n]] hd_string_of_nat [of n]
  by (simp add: stoi_def dropWhile_hd read_string_of_nat Let_def)

lemma c_str_id: "CHR 0x00 \<notin> set s \<Longrightarrow> c_str s = s"
  unfolding c_str_def by (rule takeWhile_eq_all_conv [THEN iffD2]) auto

lemma hex_of_nat_length: "n < 16 ^ k \<Longrightarrow> 0 < k \<Longrightarrow> length (hex_of_nat n) \<le> k"
proof (induction n arbitrary: k rule: hex_of_nat.induct)
  case (1 n)
  show ?case
  proof (cases "n < 16")
    case False
    then obtain k' where k: "k = Suc k'" "0 < k'"
      using 1 by (cases k; cases "k - 1") auto
    then have "n div 16 < 16 ^ k'" using 1 by (simp add: less_mult_imp_div_less mult.commute)
    then show ?thesis using 1(1) [OF False] k False by (subst hex_of_nat.simps) simp
  qed (use 1 in \<open>subst hex_of_nat.simps, simp\<close>)
qed

lemma pad_left_length: "length s \<le> n \<Longrightarrow> length (pad_left c n s) = n"
  by (simp add: pad_left_def)

section \<open>Output streams\<close>

text \<open>
  A \<open>std::ostream\<close>: what was written, the number base and \<open>boolalpha\<close> of its format flags, and the
  fill character. A width set by \<open>setw\<close> holds for one number.
\<close>

record ostream =
  os_out :: string
  os_hex :: bool
  os_boolalpha :: bool
  os_fill :: char

definition stringstream_new :: ostream where
  "stringstream_new = \<lparr>os_out = [], os_hex = False, os_boolalpha = False, os_fill = CHR '' ''\<rparr>"

definition put_string :: "string \<Rightarrow> ostream \<Rightarrow> ostream" where
  "put_string str os = os\<lparr>os_out := os_out os @ str\<rparr>"

definition put_number :: "nat \<Rightarrow> nat \<Rightarrow> ostream \<Rightarrow> ostream" where
  "put_number width n os =
     put_string (pad_left (os_fill os) width (if os_hex os then hex_of_nat n else string_of_nat n)) os"

definition put_bool :: "bool \<Rightarrow> ostream \<Rightarrow> ostream" where
  "put_bool b os =
     put_string (if os_boolalpha os then if b then ''true'' else ''false'' else if b then ''1'' else ''0'') os"

text \<open>A chain of \<open><<\<close>.\<close>

definition chain :: "(ostream \<Rightarrow> ostream) list \<Rightarrow> ostream \<Rightarrow> ostream" where
  "chain fs os = foldl (\<lambda>os f. f os) os fs"

lemma chain_simps [simp]: "chain [] os = os" "chain (f # fs) os = chain fs (f os)"
  by (simp_all add: chain_def)

lemma put_string_simps [simp]:
  "os_out (put_string str os) = os_out os @ str" "os_hex (put_string str os) = os_hex os"
  "os_boolalpha (put_string str os) = os_boolalpha os" "os_fill (put_string str os) = os_fill os"
  by (simp_all add: put_string_def)

lemma pad_left_0 [simp]: "pad_left c 0 s = s"
  by (simp add: pad_left_def)

text \<open>Hexadecimal digits determine the number, and are no other characters.\<close>

definition hex_value :: "char \<Rightarrow> nat" where
  "hex_value c = of_char c - (if of_char c \<le> (57 :: nat) then 48 else 87)"

lemma hex_digit_facts:
  assumes "d < 16"
  shows "hex_value (hex_digit d) = d" "hex_digit d \<in> set ''0123456789abcdef''"
proof -
  have "\<forall>d \<in> set [0..<16]. hex_value (hex_digit d) = d" by code_simp
  then show "hex_value (hex_digit d) = d" using assms by simp
  show "hex_digit d \<in> set ''0123456789abcdef''" unfolding hex_digit_def by (rule nth_mem) (use assms in simp)
qed

lemma hex_of_nat_set: "c \<in> set (hex_of_nat n) \<Longrightarrow> c \<in> set ''0123456789abcdef''"
proof (induction n rule: hex_of_nat.induct)
  case (1 n)
  then consider "c = hex_digit n" "n < 16" | "c = hex_digit (n mod 16)" | "\<not> n < 16" "c \<in> set (hex_of_nat (n div 16))"
    by (subst (asm) (2) hex_of_nat.simps) (auto split: if_splits)
  then show ?case
  proof cases
    case 3
    then show ?thesis by (rule "1.IH")
  qed (use hex_digit_facts(2) in \<open>simp_all only: mod_less_divisor zero_less_numeral\<close>)
qed

lemma hex_of_nat_value: "foldl (\<lambda>a c. 16 * a + hex_value c) 0 (hex_of_nat n) = n"
proof (induction n rule: hex_of_nat.induct)
  case (1 n)
  then show ?case by (subst hex_of_nat.simps) (simp add: hex_digit_facts)
qed

lemma hex_of_nat_inject [simp]: "hex_of_nat a = hex_of_nat b \<longleftrightarrow> a = b"
  by (metis hex_of_nat_value)

lemma string_of_nat_inject [simp]: "string_of_nat a = string_of_nat b \<longleftrightarrow> a = b"
  by (metis read_string_of_nat)

lemma append_separator: "c \<notin> set xs \<Longrightarrow> c \<notin> set ys \<Longrightarrow> xs @ c # xs' = ys @ c # ys' \<longleftrightarrow> xs = ys \<and> xs' = ys'"
proof (induction xs arbitrary: ys)
  case Nil
  then show ?case by (cases ys) auto
next
  case (Cons x xs)
  then show ?case by (cases ys) auto
qed

lemma hex_then:
  assumes "c \<notin> set ''0123456789abcdef''"
  shows "hex_of_nat a @ c # xs = hex_of_nat b @ c # ys \<longleftrightarrow> a = b \<and> xs = ys"
proof -
  have "c \<notin> set (hex_of_nat a)" "c \<notin> set (hex_of_nat b)" using assms hex_of_nat_set by blast+
  then show ?thesis by (simp add: append_separator)
qed

lemma decimal_then:
  assumes "\<not> is_digit c"
  shows "string_of_nat a @ c # xs = string_of_nat b @ c # ys \<longleftrightarrow> a = b \<and> xs = ys"
proof -
  have "c \<notin> set (string_of_nat a)" "c \<notin> set (string_of_nat b)" using assms string_of_nat_digits by blast+
  then show ?thesis by (simp add: append_separator)
qed

end
