(* ===== verification/TCP_Header_Text.thy ===== *)
theory TCP_Header_Text
  imports TCP_Header Text_Format
begin

text \<open>
  The printed forms of a header: \<open>to_string\<close> and \<open>summary\<close> of
  \<open>libsponge/tcp_helpers/tcp_header.cc\<close>, and the output operator of \<open>wrapping_integers.hh\<close>.
\<close>

section \<open>Operations\<close>

definition WrappingInt32_put :: "WrappingInt32 \<Rightarrow> ostream \<Rightarrow> ostream" where
  "WrappingInt32_put a os = put_number 0 (unat (raw_value a)) os"

abbreviation newline :: string where
  "newline \<equiv> [CHR 0x0A]"

definition TCPHeader_to_string :: "TCPHeader \<Rightarrow> string" where
  "TCPHeader_to_string h = os_out (chain
     [\<lambda>os. os\<lparr>os_hex := True\<rparr>, \<lambda>os. os\<lparr>os_boolalpha := True\<rparr>,
      put_string ''TCP source port: '', put_number 0 (unat (th_sport h)), put_string newline,
      put_string ''TCP dest port: '', put_number 0 (unat (th_dport h)), put_string newline,
      put_string ''TCP seqno: '', WrappingInt32_put (th_seqno h), put_string newline,
      put_string ''TCP ackno: '', WrappingInt32_put (th_ackno h), put_string newline,
      put_string ''TCP doff: '', put_number 0 (unat (th_doff h)), put_string newline,
      put_string ''Flags: urg: '', put_bool (th_urg h), put_string '' ack: '', put_bool (th_ack h),
      put_string '' psh: '', put_bool (th_psh h), put_string '' rst: '', put_bool (th_rst h),
      put_string '' syn: '', put_bool (th_syn h), put_string '' fin: '', put_bool (th_fin h), put_string newline,
      put_string ''TCP winsize: '', put_number 0 (unat (th_win h)), put_string newline,
      put_string ''TCP cksum: '', put_number 0 (unat (th_cksum h)), put_string newline,
      put_string ''TCP uptr: '', put_number 0 (unat (th_uptr h)), put_string newline] stringstream_new)"

definition TCPHeader_summary :: "TCPHeader \<Rightarrow> string" where
  "TCPHeader_summary h = os_out (chain
     [put_string ''Header(flags='', put_string (if th_syn h then ''S'' else ''''),
      put_string (if th_ack h then ''A'' else ''''), put_string (if th_rst h then ''R'' else ''''),
      put_string (if th_fin h then ''F'' else ''''), put_string '',seqno='', WrappingInt32_put (th_seqno h),
      put_string '',ack='', WrappingInt32_put (th_ackno h), put_string '',win='', put_number 0 (unat (th_win h)),
      put_string '')''] stringstream_new)"

section \<open>Properties\<close>

lemmas put_defs = chain_simps put_number_def put_bool_def put_string_def WrappingInt32_put_def stringstream_new_def

definition bool_text :: "bool \<Rightarrow> string" where
  "bool_text b = (if b then ''true'' else ''false'')"

lemma bool_text_then: "bool_text a @ xs = bool_text b @ ys \<longleftrightarrow> a = b \<and> xs = ys"
  by (simp add: bool_text_def)

lemma WrappingInt32_eq_raw: "a = b \<longleftrightarrow> raw_value a = raw_value b"
  by (cases a; cases b) simp

lemma to_string_eq:
  "TCPHeader_to_string h =
     ''TCP source port: '' @ hex_of_nat (unat (th_sport h)) @ CHR 0x0A #
     ''TCP dest port: '' @ hex_of_nat (unat (th_dport h)) @ CHR 0x0A #
     ''TCP seqno: '' @ hex_of_nat (unat (raw_value (th_seqno h))) @ CHR 0x0A #
     ''TCP ackno: '' @ hex_of_nat (unat (raw_value (th_ackno h))) @ CHR 0x0A #
     ''TCP doff: '' @ hex_of_nat (unat (th_doff h)) @ CHR 0x0A #
     ''Flags: urg: '' @ bool_text (th_urg h) @ '' ack: '' @ bool_text (th_ack h) @
     '' psh: '' @ bool_text (th_psh h) @ '' rst: '' @ bool_text (th_rst h) @
     '' syn: '' @ bool_text (th_syn h) @ '' fin: '' @ bool_text (th_fin h) @ CHR 0x0A #
     ''TCP winsize: '' @ hex_of_nat (unat (th_win h)) @ CHR 0x0A #
     ''TCP cksum: '' @ hex_of_nat (unat (th_cksum h)) @ CHR 0x0A #
     ''TCP uptr: '' @ hex_of_nat (unat (th_uptr h)) @ CHR 0x0A # []"
  by (simp add: TCPHeader_to_string_def put_defs bool_text_def)

lemma summary_eq:
  "TCPHeader_summary h =
     ''Header(flags='' @ (if th_syn h then ''S'' else '''') @ (if th_ack h then ''A'' else '''') @
     (if th_rst h then ''R'' else '''') @ (if th_fin h then ''F'' else '''') @ CHR '','' # ''seqno='' @
     string_of_nat (unat (raw_value (th_seqno h))) @ CHR '','' # ''ack='' @
     string_of_nat (unat (raw_value (th_ackno h))) @ CHR '','' # ''win='' @
     string_of_nat (unat (th_win h)) @ CHR '')'' # []"
  by (simp add: TCPHeader_summary_def put_defs)

text \<open>
  The printed header says everything: two headers with the same \<open>to_string()\<close> agree in every
  field, and two with the same \<open>summary()\<close> agree in the flags it shows, both sequence numbers and the
  window.
\<close>

theorem TCPHeader_text_determines:
  "(TCPHeader_to_string h = TCPHeader_to_string h' \<longleftrightarrow> h = h') \<and>
   (TCPHeader_summary h = TCPHeader_summary h' \<longleftrightarrow>
      th_syn h = th_syn h' \<and> th_ack h = th_ack h' \<and> th_rst h = th_rst h' \<and> th_fin h = th_fin h' \<and>
      th_seqno h = th_seqno h' \<and> th_ackno h = th_ackno h' \<and> th_win h = th_win h')"
proof (rule conjI)
  have nl: "CHR 0x0A \<notin> set ''0123456789abcdef''" by simp
  show "TCPHeader_to_string h = TCPHeader_to_string h' \<longleftrightarrow> h = h'"
    unfolding to_string_eq
    by (cases h; cases h')
      (auto simp: hex_then [OF nl] bool_text_then WrappingInt32_eq_raw word_unat_eq_iff)
  have sep: "\<not> is_digit (CHR '','')" "\<not> is_digit (CHR '')'')" by (simp_all add: is_digit_def)
  show "TCPHeader_summary h = TCPHeader_summary h' \<longleftrightarrow>
      th_syn h = th_syn h' \<and> th_ack h = th_ack h' \<and> th_rst h = th_rst h' \<and> th_fin h = th_fin h' \<and>
      th_seqno h = th_seqno h' \<and> th_ackno h = th_ackno h' \<and> th_win h = th_win h'"
    unfolding summary_eq
    by (simp add: decimal_then [OF sep(1)] decimal_then [OF sep(2)] WrappingInt32_eq_raw word_unat_eq_iff)
qed

end
