(* ===== verification/File_Descriptor.thy ===== *)
theory File_Descriptor
  imports System_Calls
begin

unbundle bit_operations_syntax

text \<open>
  Reference-counted file descriptors: \<open>libsponge/util/file_descriptor.hh\<close> and
  \<open>file_descriptor.cc\<close>. Handles share their \<open>FDWrapper\<close>, so the wrappers live in a heap, addressed
  by the \<open>shared_ptr\<close> a handle holds, next to the kernel's state.
\<close>

section \<open>State\<close>

record FDWrapper =
  fw_fd :: int
  fw_eof :: bool
  fw_closed :: bool
  fw_read_count :: u32
  fw_write_count :: u32

text \<open>The heap of wrappers, their use counts, the next free address, and the kernel.\<close>

record 'w machine =
  mc_heap :: "nat \<rightharpoonup> FDWrapper"
  mc_refs :: "nat \<Rightarrow> nat"
  mc_next :: nat
  mc_kernel :: 'w

datatype FileDescriptor = FileDescriptor (internal_fd: nat)

definition wrapper_at :: "nat \<Rightarrow> ('w machine, FDWrapper) action" where
  "wrapper_at p = (\<lambda>s. case mc_heap s p of None \<Rightarrow> (Inl undefined_behaviour, s) | Some w \<Rightarrow> (Inr w, s))"

definition update_wrapper :: "nat \<Rightarrow> (FDWrapper \<Rightarrow> FDWrapper) \<Rightarrow> ('w machine, unit) action" where
  "update_wrapper p f = bind (wrapper_at p) (\<lambda>w s. (Inr (), s\<lparr>mc_heap := (mc_heap s)(p \<mapsto> f w)\<rparr>))"

definition kernel_call :: "('w \<Rightarrow> 'r \<times> 'w) \<Rightarrow> ('w machine, 'r) action" where
  "kernel_call f = (\<lambda>s. case f (mc_kernel s) of (r, w) \<Rightarrow> (Inr r, s\<lparr>mc_kernel := w\<rparr>))"

text \<open>\<open>catch (const exception &)\<close>: undefined behaviour is no exception.\<close>

definition catch_exception :: "('s, 'a) action \<Rightarrow> (cpp_failure \<Rightarrow> ('s, 'a) action) \<Rightarrow> ('s, 'a) action" where
  "catch_exception m h = (\<lambda>s. case m s of
      (Inl e, s') \<Rightarrow> if e = undefined_behaviour then (Inl e, s') else h e s'
    | (Inr x, s') \<Rightarrow> (Inr x, s'))"

section \<open>FDWrapper\<close>

definition FDWrapper_new :: "int \<Rightarrow> cpp_failure + FDWrapper" where
  "FDWrapper_new fd =
     (if fd < 0 then Inl (runtime_error (''invalid fd number:'' @ to_string fd))
      else Inr \<lparr>fw_fd = fd, fw_eof = False, fw_closed = False, fw_read_count = 0, fw_write_count = 0\<rparr>)"

definition FDWrapper_close :: "'w kernel \<Rightarrow> nat \<Rightarrow> ('w machine, unit) action" where
  "FDWrapper_close K p =
     bind (wrapper_at p) (\<lambda>w.
     bind (kernel_call (sys_close K (fw_fd w))) (\<lambda>r.
     bind (lift (SystemCall ''close'' r 0)) (\<lambda>_.
       update_wrapper p (\<lambda>w. w\<lparr>fw_eof := True, fw_closed := True\<rparr>))))"

text \<open>The destructor; the message it prints for an exception is not modelled.\<close>

definition FDWrapper_destroy :: "'w kernel \<Rightarrow> nat \<Rightarrow> ('w machine, unit) action" where
  "FDWrapper_destroy K p =
     catch_exception
       (bind (wrapper_at p) (\<lambda>w. if fw_closed w then returns () else FDWrapper_close K p))
       (\<lambda>e. returns ())"

section \<open>FileDescriptor\<close>

definition FileDescriptor_new :: "int \<Rightarrow> ('w machine, FileDescriptor) action" where
  "FileDescriptor_new fd =
     bind (lift (FDWrapper_new fd)) (\<lambda>w s.
       (Inr (FileDescriptor (mc_next s)),
        s\<lparr>mc_heap := (mc_heap s)(mc_next s \<mapsto> w), mc_refs := (mc_refs s)(mc_next s := 1),
          mc_next := mc_next s + 1\<rparr>))"

definition FileDescriptor_duplicate :: "FileDescriptor \<Rightarrow> ('w machine, FileDescriptor) action" where
  "FileDescriptor_duplicate d = (\<lambda>s.
     (Inr (FileDescriptor (internal_fd d)),
      s\<lparr>mc_refs := (mc_refs s)(internal_fd d := mc_refs s (internal_fd d) + 1)\<rparr>))"

text \<open>
  The default destructor frees the \<open>shared_ptr\<close>; the last one destroys the wrapper and releases it.
\<close>

definition FileDescriptor_destroy :: "'w kernel \<Rightarrow> FileDescriptor \<Rightarrow> ('w machine, unit) action" where
  "FileDescriptor_destroy K d = (\<lambda>s.
     let p = internal_fd d; n = mc_refs s p - 1; s = s\<lparr>mc_refs := (mc_refs s)(p := n)\<rparr>
     in if n = 0
        then bind (FDWrapper_destroy K p) (\<lambda>_ s. (Inr (), s\<lparr>mc_heap := (mc_heap s)(p := None)\<rparr>)) s
        else (Inr (), s))"

definition FileDescriptor_register_read :: "FileDescriptor \<Rightarrow> ('w machine, unit) action" where
  "FileDescriptor_register_read d =
     update_wrapper (internal_fd d) (\<lambda>w. w\<lparr>fw_read_count := fw_read_count w + 1\<rparr>)"

definition FileDescriptor_register_write :: "FileDescriptor \<Rightarrow> ('w machine, unit) action" where
  "FileDescriptor_register_write d =
     update_wrapper (internal_fd d) (\<lambda>w. w\<lparr>fw_write_count := fw_write_count w + 1\<rparr>)"

definition FileDescriptor_fd_num :: "FileDescriptor \<Rightarrow> ('w machine, int) action" where
  "FileDescriptor_fd_num d = bind (wrapper_at (internal_fd d)) (\<lambda>w. returns (fw_fd w))"

definition FileDescriptor_eof :: "FileDescriptor \<Rightarrow> ('w machine, bool) action" where
  "FileDescriptor_eof d = bind (wrapper_at (internal_fd d)) (\<lambda>w. returns (fw_eof w))"

definition FileDescriptor_closed :: "FileDescriptor \<Rightarrow> ('w machine, bool) action" where
  "FileDescriptor_closed d = bind (wrapper_at (internal_fd d)) (\<lambda>w. returns (fw_closed w))"

definition FileDescriptor_read_count :: "FileDescriptor \<Rightarrow> ('w machine, u32) action" where
  "FileDescriptor_read_count d = bind (wrapper_at (internal_fd d)) (\<lambda>w. returns (fw_read_count w))"

definition FileDescriptor_write_count :: "FileDescriptor \<Rightarrow> ('w machine, u32) action" where
  "FileDescriptor_write_count d = bind (wrapper_at (internal_fd d)) (\<lambda>w. returns (fw_write_count w))"

definition FileDescriptor_close :: "'w kernel \<Rightarrow> FileDescriptor \<Rightarrow> ('w machine, unit) action" where
  "FileDescriptor_close K d = FDWrapper_close K (internal_fd d)"

text \<open>
  \<open>std::string::resize\<close> with a signed size: a negative one is a huge \<open>size_t\<close>, beyond
  \<open>max_size()\<close>.
\<close>

definition resize_to :: "int \<Rightarrow> bytes \<Rightarrow> cpp_failure + bytes" where
  "resize_to n s = (if n < 0 then Inl (length_error ''basic_string::_M_replace_aux'')
                    else Inr (string_resize (nat n) s))"

definition BUFFER_SIZE :: size_t where
  "BUFFER_SIZE = 1024 * 1024"

definition FileDescriptor_read_into :: "'w kernel \<Rightarrow> FileDescriptor \<Rightarrow> size_t \<Rightarrow> ('w machine, bytes) action" where
  "FileDescriptor_read_into K d limit =
     (let size_to_read = min BUFFER_SIZE limit in
      bind (FileDescriptor_fd_num d) (\<lambda>n.
      bind (kernel_call (\<lambda>w. case sys_read K n size_to_read w of (r, data, w') \<Rightarrow> ((r, data), w'))) (\<lambda>(r, data).
      bind (lift (SystemCall ''read'' r 0)) (\<lambda>bytes_read.
      bind (if 0 < limit \<and> bytes_read = 0
            then update_wrapper (internal_fd d) (\<lambda>w. w\<lparr>fw_eof := True\<rparr>) else returns ()) (\<lambda>_.
      if sint size_to_read < bytes_read then throws (runtime_error ''read() read more than requested'')
      else
        bind (lift (resize_to bytes_read (string_resize (unat size_to_read) data))) (\<lambda>str.
        bind (FileDescriptor_register_read d) (\<lambda>_. returns str)))))))"

definition FileDescriptor_read :: "'w kernel \<Rightarrow> FileDescriptor \<Rightarrow> size_t \<Rightarrow> ('w machine, bytes) action" where
  "FileDescriptor_read K d limit = bind (FileDescriptor_read_into K d limit) (\<lambda>ret. returns ret)"

text \<open>The body of the loop of \<open>write\<close>: the number of bytes written and the buffer without them.\<close>

definition FileDescriptor_write_once ::
  "'w kernel \<Rightarrow> FileDescriptor \<Rightarrow> BufferViewList \<Rightarrow> ('w machine, size_t \<times> BufferViewList) action" where
  "FileDescriptor_write_once K d buffer =
     bind (FileDescriptor_fd_num d) (\<lambda>n.
     bind (kernel_call (sys_writev K n (BufferViewList_as_iovecs buffer))) (\<lambda>r.
     bind (lift (SystemCall ''writev'' r 0)) (\<lambda>bytes_written.
       if bytes_written = 0 \<and> BufferViewList_size buffer \<noteq> 0
       then throws (runtime_error ''write returned 0 given non-empty input buffer'')
       else if sint (BufferViewList_size buffer) < bytes_written
       then throws (runtime_error ''write wrote more than length of input buffer'')
       else
         bind (FileDescriptor_register_write d) (\<lambda>_.
         bind (lift (BufferViewList_remove_prefix (of_int bytes_written) buffer)) (\<lambda>buffer'.
           returns (of_int bytes_written, buffer'))))))"

definition FileDescriptor_set_blocking :: "'w kernel \<Rightarrow> FileDescriptor \<Rightarrow> bool \<Rightarrow> ('w machine, unit) action" where
  "FileDescriptor_set_blocking K d blocking_state =
     bind (FileDescriptor_fd_num d) (\<lambda>n.
     bind (kernel_call (sys_getfl K n)) (\<lambda>r.
     bind (lift (SystemCall ''fcntl'' r 0)) (\<lambda>fl.
       let flags = (of_int fl :: u32);
           flags = (if blocking_state then flags XOR (flags AND O_NONBLOCK) else flags OR O_NONBLOCK)
       in bind (FileDescriptor_fd_num d) (\<lambda>n.
          bind (kernel_call (sys_setfl K n flags)) (\<lambda>r.
          bind (lift (SystemCall ''fcntl'' r 0)) (\<lambda>_. returns ()))))))"

section \<open>The write loop\<close>

text \<open>Every round that leaves something to write has made the buffer shorter.\<close>

lemma BufferViewList_remove_loop_shrinks:
  "BufferViewList_remove_loop n vs = Inr vs' \<Longrightarrow> 0 < n \<Longrightarrow> length (concat vs') < length (concat vs)"
proof (induction n vs rule: BufferViewList_remove_loop.induct)
  case (2 n v vs)
  show ?case
  proof (cases "n < size_of v")
    case True
    then have "v \<noteq> []" by auto
    then show ?thesis using 2 True by (auto simp: word_less_nat_alt)
  next
    case False
    then have rec: "BufferViewList_remove_loop (n - size_of v) vs = Inr vs'" using 2 by simp
    show ?thesis
    proof (cases "n = size_of v")
      case True
      then have "v \<noteq> []" "vs' = vs" using 2 rec by (cases vs; auto)+
      then show ?thesis by simp
    next
      case ne: False
      then have "0 < n - size_of v" by (simp add: word_neq_0_conv [symmetric])
      then show ?thesis using "2.IH" [OF "2.prems"(2) False rec] by simp
    qed
  qed
qed simp

lemma of_int_c_int_0: "(of_int (c_int i) :: size_t) = 0 \<longleftrightarrow> c_int i = 0"
proof -
  have "- (2 ^ 63) \<le> c_int i" "c_int i < 2 ^ 63" using c_int_range [of i] by auto
  then have "sint (of_int (c_int i) :: size_t) = c_int i"
    by (simp add: signed_of_int signed_take_bit_int_eq_self)
  then show ?thesis by (metis of_int_0 signed_0)
qed

lemma SystemCall_Inr: "SystemCall attempt r errno_mask = Inr x \<Longrightarrow> x = c_int (fst r)"
  by (auto simp: SystemCall_def Let_def split: if_splits)

lemma write_once_shrinks:
  assumes "FileDescriptor_write_once K d buffer s = (Inr (n, buffer'), s')" "BufferViewList_size buffer' \<noteq> 0"
  shows "length (concat (bv_views buffer')) < length (concat (bv_views buffer))"
proof -
  obtain r :: sys_result where nz: "\<not> (c_int (fst r) = 0 \<and> BufferViewList_size buffer \<noteq> 0)"
    and rm: "BufferViewList_remove_prefix (of_int (c_int (fst r))) buffer = Inr buffer'"
    using assms(1) unfolding FileDescriptor_write_once_def bind_eq_Inr
    by (auto simp: bind_eq_Inr split: if_splits dest!: SystemCall_Inr)
  then obtain vs where vs: "BufferViewList_remove_loop (of_int (c_int (fst r))) (bv_views buffer) = Inr vs"
    and b': "buffer' = buffer\<lparr>bv_views := vs\<rparr>"
    by (auto simp: BufferViewList_remove_prefix_def and_then_Inr_iff)
  show ?thesis
  proof (cases "c_int (fst r) = 0")
    case True
    then have "buffer' = buffer" using vs b' by (cases "bv_views buffer") auto
    then show ?thesis using nz True assms(2) by simp
  next
    case False
    then have "0 < (of_int (c_int (fst r)) :: size_t)" by (simp add: word_gt_0 of_int_c_int_0)
    from BufferViewList_remove_loop_shrinks [OF vs this] show ?thesis by (simp add: b')
  qed
qed

function FileDescriptor_write_loop ::
  "'w kernel \<Rightarrow> FileDescriptor \<Rightarrow> bool \<Rightarrow> BufferViewList \<Rightarrow> size_t \<Rightarrow> ('w machine, size_t) action" where
  "FileDescriptor_write_loop K d write_all buffer total_written s =
     (case FileDescriptor_write_once K d buffer s of
        (Inl e, s') \<Rightarrow> (Inl e, s')
      | (Inr (bytes_written, buffer'), s') \<Rightarrow>
          let total_written = total_written + bytes_written
          in if write_all \<and> BufferViewList_size buffer' \<noteq> 0
             then FileDescriptor_write_loop K d write_all buffer' total_written s'
             else (Inr total_written, s'))"
  by pat_completeness auto
termination
  by (relation "measure (\<lambda>(_, _, _, buffer, _). length (concat (bv_views buffer)))")
     (auto dest: write_once_shrinks [OF sym])

declare FileDescriptor_write_loop.simps [simp del]

definition FileDescriptor_write ::
  "'w kernel \<Rightarrow> FileDescriptor \<Rightarrow> BufferViewList \<Rightarrow> bool \<Rightarrow> ('w machine, size_t) action" where
  "FileDescriptor_write K d buffer write_all = FileDescriptor_write_loop K d write_all buffer 0"

definition FileDescriptor_write_string ::
  "'w kernel \<Rightarrow> FileDescriptor \<Rightarrow> bytes \<Rightarrow> bool \<Rightarrow> ('w machine, size_t) action" where
  "FileDescriptor_write_string K d str write_all = FileDescriptor_write K d (BufferViewList_of_string str) write_all"

definition FileDescriptor_write_c_str ::
  "'w kernel \<Rightarrow> FileDescriptor \<Rightarrow> bytes \<Rightarrow> bool \<Rightarrow> ('w machine, size_t) action" where
  "FileDescriptor_write_c_str K d str write_all = FileDescriptor_write K d (BufferViewList_of_c_str str) write_all"

lemma FileDescriptor_write_literal:
  "0 \<notin> set str \<Longrightarrow> FileDescriptor_write_c_str K d (str @ [0]) write_all = FileDescriptor_write_string K d str write_all"
  by (simp add: FileDescriptor_write_c_str_def FileDescriptor_write_string_def BufferViewList_of_literal)

section \<open>What the kernel promises\<close>

text \<open>
  The documented behaviour of \<open>writev(2)\<close> on the descriptor \<open>n\<close>, with \<open>out\<close> the bytes the other
  side gets: on success it transfers a prefix of the data, at most \<open>0x7ffff000\<close> bytes and at least one
  if there is any, and on failure nothing, setting \<open>errno\<close>.
\<close>

definition writev_contract :: "'w kernel \<Rightarrow> int \<Rightarrow> ('w \<Rightarrow> bytes) \<Rightarrow> bool" where
  "writev_contract K n out \<longleftrightarrow> (\<forall>iov w. let ((r, err), w') = sys_writev K n iov w; data = concat (map fst iov)
     in if r < 0 then - (2 ^ 31) \<le> r \<and> err \<noteq> 0 \<and> out w' = out w
        else r \<le> 0x7ffff000 \<and> nat r \<le> length data \<and> (data \<noteq> [] \<longrightarrow> 0 < r) \<and> out w' = out w @ take (nat r) data)"

text \<open>\<open>read(2)\<close> stores at most the number of bytes asked for, or fails with \<open>errno\<close> set.\<close>

definition read_contract :: "'w kernel \<Rightarrow> int \<Rightarrow> bool" where
  "read_contract K n \<longleftrightarrow> (\<forall>sz w. let ((r, err), data, w') = sys_read K n sz w
     in if r < 0 then - (2 ^ 31) \<le> r \<and> err \<noteq> 0 else nat r \<le> unat sz \<and> length data = nat r)"

lemma writev_contractD:
  assumes "writev_contract K n out" "sys_writev K n iov w = ((r, err), w')"
  shows "r < 0 \<Longrightarrow> - (2 ^ 31) \<le> r \<and> err \<noteq> 0 \<and> out w' = out w"
    and "0 \<le> r \<Longrightarrow> r < 2 ^ 31 \<and> nat r \<le> length (concat (map fst iov)) \<and>
      (concat (map fst iov) \<noteq> [] \<longrightarrow> 0 < r) \<and> out w' = out w @ take (nat r) (concat (map fst iov))"
  using assms(1) unfolding writev_contract_def
  by (fastforce simp: Let_def assms(2) split: prod.splits dest!: spec [of _ iov] spec [of _ w])+

text \<open>The contract in the states that satisfy \<open>J\<close>, which a call keeps.\<close>

definition writev_contract_on :: "'w kernel \<Rightarrow> int \<Rightarrow> ('w \<Rightarrow> bool) \<Rightarrow> ('w \<Rightarrow> bytes) \<Rightarrow> bool" where
  "writev_contract_on K n J out \<longleftrightarrow> (\<forall>iov w r err w'. J w \<longrightarrow> sys_writev K n iov w = ((r, err), w') \<longrightarrow> J w' \<and>
     (r < 0 \<longrightarrow> - (2 ^ 31) \<le> r \<and> err \<noteq> 0 \<and> out w' = out w) \<and>
     (0 \<le> r \<longrightarrow> r < 2 ^ 31 \<and> nat r \<le> length (concat (map fst iov)) \<and>
       (concat (map fst iov) \<noteq> [] \<longrightarrow> 0 < r) \<and> out w' = out w @ take (nat r) (concat (map fst iov))))"

lemma writev_contract_everywhere: "writev_contract K n out \<Longrightarrow> writev_contract_on K n (\<lambda>_. True) out"
  unfolding writev_contract_on_def using writev_contractD [of K n out] by blast

lemma iovecs_data: "concat (map fst (BufferViewList_as_iovecs b)) = concat (bv_views b)"
  by (simp add: BufferViewList_as_iovecs_def foldl_push_back comp_def)

text \<open>A live handle, and what the accessors and the counters do there.\<close>

lemma wrapper_at_Some: "mc_heap s p = Some w \<Longrightarrow> wrapper_at p s = (Inr w, s)"
  by (simp add: wrapper_at_def)

lemma fd_num_live: "mc_heap s (internal_fd d) = Some w \<Longrightarrow> FileDescriptor_fd_num d s = (Inr (fw_fd w), s)"
  by (simp add: FileDescriptor_fd_num_def bind_Inr [OF wrapper_at_Some])

lemma update_wrapper_live:
  "mc_heap s p = Some w \<Longrightarrow> update_wrapper p f s = (Inr (), s\<lparr>mc_heap := (mc_heap s)(p \<mapsto> f w)\<rparr>)"
  by (simp add: update_wrapper_def bind_Inr [OF wrapper_at_Some])

lemma kernel_call_eq: "f (mc_kernel s) = (r, w) \<Longrightarrow> kernel_call f s = (Inr r, s\<lparr>mc_kernel := w\<rparr>)"
  by (simp add: kernel_call_def)

text \<open>One round of the write loop on a live handle.\<close>

lemma write_once_live:
  assumes live: "mc_heap s (internal_fd d) = Some w" and K: "writev_contract_on K (fw_fd w) J out" and J: "J (mc_kernel s)"
    and ok: "length (concat (bv_views buffer)) < 2 ^ 63"
  shows "(\<exists>errno s'. FileDescriptor_write_once K d buffer s = (Inl (unix_error ''writev'' errno), s') \<and>
      out (mc_kernel s') = out (mc_kernel s)) \<or>
    (\<exists>n buffer' s'. FileDescriptor_write_once K d buffer s = (Inr (of_nat n, buffer'), s') \<and>
      n \<le> length (concat (bv_views buffer)) \<and> concat (bv_views buffer') = drop n (concat (bv_views buffer)) \<and>
      out (mc_kernel s') = out (mc_kernel s) @ take n (concat (bv_views buffer)) \<and> J (mc_kernel s') \<and>
      mc_heap s' (internal_fd d) = Some (w\<lparr>fw_write_count := fw_write_count w + 1\<rparr>))"
proof -
  let ?data = "concat (bv_views buffer)"
  obtain r err k where call: "sys_writev K (fw_fd w) (BufferViewList_as_iovecs buffer) (mc_kernel s) = ((r, err), k)"
    by (metis prod.exhaust)
  have facts: "r < 0 \<Longrightarrow> - (2 ^ 31) \<le> r \<and> err \<noteq> 0 \<and> out k = out (mc_kernel s)"
    "0 \<le> r \<Longrightarrow> r < 2 ^ 31 \<and> nat r \<le> length ?data \<and> (?data \<noteq> [] \<longrightarrow> 0 < r) \<and> out k = out (mc_kernel s) @ take (nat r) ?data" "J k"
    using K call J unfolding writev_contract_on_def iovecs_data [symmetric] by blast+
  show ?thesis
  proof (cases "r < 0")
    case True
    then have "SystemCall ''writev'' (r, err) 0 = Inl (unix_error ''writev'' err)"
      using facts(1) by (simp add: SystemCall_def c_int_small Let_def)
    then have "FileDescriptor_write_once K d buffer s = (Inl (unix_error ''writev'' err), s\<lparr>mc_kernel := k\<rparr>)"
      unfolding FileDescriptor_write_once_def
      by (simp add: bind_def fd_num_live [OF live] kernel_call_def call)
    then show ?thesis using facts(1) True by simp
  next
    case False
    then have r: "0 \<le> r" "r < 2 ^ 31" "nat r \<le> length ?data" "?data \<noteq> [] \<longrightarrow> 0 < r"
      "out k = out (mc_kernel s) @ take (nat r) ?data" using facts(2) by auto
    have sys: "SystemCall ''writev'' (r, err) 0 = Inr r" using r by (intro SystemCall_ok)
    have ad: "BufferViewList_ok buffer" using ok by (simp add: BufferViewList_ok_def addressable_def)
    have sz: "unat (BufferViewList_size buffer) = length ?data" by (rule views.sz [OF ad])
    have ssz: "sint (BufferViewList_size buffer) = int (length ?data)"
      using ok by (simp add: BufferViewList_size_eq size_of_def signed_of_nat signed_take_bit_int_eq_self
          del: length_concat)
    have ofr: "(of_int r :: size_t) = of_nat (nat r)" using r(1) by simp
    have n: "unat (of_int r :: size_t) = nat r" unfolding ofr by (rule unat_of_nat_64) (use r(2) in simp)
    obtain b' where b': "BufferViewList_remove_prefix (of_int r) buffer = Inr b'"
      "concat (bv_views b') = drop (nat r) ?data"
      using views.discard [OF ad, of "of_int r"] r(3) by (auto simp: n simp del: length_concat)
    have guards: "\<not> (r = 0 \<and> BufferViewList_size buffer \<noteq> 0)" "\<not> int (length ?data) < r"
      using r sz by (auto simp: word_unat_eq_iff simp del: length_concat)
    have "FileDescriptor_write_once K d buffer s = (Inr (of_int r, b'), s\<lparr>mc_kernel := k,
        mc_heap := (mc_heap s)(internal_fd d \<mapsto> w\<lparr>fw_write_count := fw_write_count w + 1\<rparr>)\<rparr>)"
      unfolding FileDescriptor_write_once_def FileDescriptor_register_write_def
      using guards live
      by (simp add: bind_def fd_num_live [OF live] kernel_call_def call sys ssz update_wrapper_def
          wrapper_at_def b' del: length_concat)
    then show ?thesis using r(3,5) b'(2) facts(3) unfolding ofr by auto
  qed
qed

text \<open>
  How a \<open>write\<close> of \<open>data\<close> ends: a prefix was transferred, all of it if the call returns, and a call
  that throws reports the kernel's error.
\<close>

definition write_outcome ::
  "('w \<Rightarrow> bytes) \<Rightarrow> bytes \<Rightarrow> size_t \<Rightarrow> 'w machine \<Rightarrow> (cpp_failure + size_t) \<times> 'w machine \<Rightarrow> bool" where
  "write_outcome out data t0 s r \<longleftrightarrow> (\<exists>k \<le> length data.
     out (mc_kernel (snd r)) = out (mc_kernel s) @ take k data \<and>
     (case fst r of Inr t \<Rightarrow> k = length data \<and> t = t0 + of_nat k
      | Inl e \<Rightarrow> \<exists>errno. e = unix_error ''writev'' errno))"

lemma write_outcome_failed:
  "out (mc_kernel s') = out (mc_kernel s) \<Longrightarrow> write_outcome out data t0 s (Inl (unix_error ''writev'' errno), s')"
  unfolding write_outcome_def by (intro exI [of _ 0]) simp

lemma write_outcome_done:
  "out (mc_kernel s') = out (mc_kernel s) @ data \<Longrightarrow> write_outcome out data t0 s (Inr (t0 + of_nat (length data)), s')"
  unfolding write_outcome_def by (intro exI [of _ "length data"]) simp

lemma write_outcome_step:
  assumes "out (mc_kernel s1) = out (mc_kernel s) @ take n data" "n \<le> length data"
    "write_outcome out (drop n data) (t0 + of_nat n) s1 r"
  shows "write_outcome out data t0 s r"
proof -
  obtain k where k: "k \<le> length data - n" "out (mc_kernel (snd r)) = out (mc_kernel s1) @ take k (drop n data)"
    and res: "case fst r of Inr t \<Rightarrow> k = length data - n \<and> t = t0 + of_nat n + of_nat k
      | Inl e \<Rightarrow> \<exists>errno. e = unix_error ''writev'' errno"
    using assms(3) unfolding write_outcome_def length_drop by blast
  have "n + k \<le> length data" "out (mc_kernel (snd r)) = out (mc_kernel s) @ take (n + k) data"
    using k assms(1,2) by (simp_all add: take_add)
  then show ?thesis
    unfolding write_outcome_def using res assms(2)
    by (intro exI [of _ "n + k"]) (auto split: sum.splits)
qed

lemma write_loop_all_on:
  assumes "mc_heap s (internal_fd d) = Some w" "writev_contract_on K (fw_fd w) J out" "J (mc_kernel s)"
    "length (concat (bv_views buffer)) < 2 ^ 63"
  shows "write_outcome out (concat (bv_views buffer)) t0 s (FileDescriptor_write_loop K d True buffer t0 s)"
  using assms
proof (induction K d True buffer t0 s arbitrary: w rule: FileDescriptor_write_loop.induct)
  case (1 K d buffer t0 s)
  let ?data = "concat (bv_views buffer)"
  note loop = FileDescriptor_write_loop.simps [of K d True buffer t0 s]
  consider errno s' where "FileDescriptor_write_once K d buffer s = (Inl (unix_error ''writev'' errno), s')"
      "out (mc_kernel s') = out (mc_kernel s)"
    | n buffer' s' where "FileDescriptor_write_once K d buffer s = (Inr (of_nat n, buffer'), s')"
      "n \<le> length ?data" "concat (bv_views buffer') = drop n ?data"
      "out (mc_kernel s') = out (mc_kernel s) @ take n ?data"
      "mc_heap s' (internal_fd d) = Some (w\<lparr>fw_write_count := fw_write_count w + 1\<rparr>)" "J (mc_kernel s')"
    using write_once_live [OF "1.prems"] by blast
  then show ?case
  proof cases
    case 1
    then show ?thesis using write_outcome_failed loop by simp
  next
    case (2 n buffer' s')
    have len: "length (drop n ?data) < 2 ^ 63" using "1.prems"(4) by (simp del: length_concat)
    then have empty: "BufferViewList_size buffer' = 0 \<longleftrightarrow> drop n ?data = []"
      by (simp add: BufferViewList_size_eq size_of_eq_0_iff addressable_def 2(3) del: length_concat length_drop drop_eq_Nil2)
    show ?thesis
    proof (cases "drop n ?data = []")
      case True
      then have "n = length ?data" using 2(2) by (simp del: length_concat)
      then show ?thesis using write_outcome_done [of out s' s ?data t0] 2 loop empty True by simp
    next
      case False
      then have "write_outcome out (drop n ?data) (t0 + of_nat n) s'
          (FileDescriptor_write_loop K d True buffer' (t0 + of_nat n) s')"
        using "1.hyps" [OF 2(1) [symmetric] refl refl refl _ 2(5)] len empty "1.prems"(2) 2(6)
        unfolding 2(3) by simp
      then show ?thesis
        using write_outcome_step [OF 2(4,2)] loop 2(1) empty False by simp
    qed
  qed
qed

lemma write_loop_all:
  assumes "mc_heap s (internal_fd d) = Some w" "writev_contract K (fw_fd w) out"
    "length (concat (bv_views buffer)) < 2 ^ 63"
  shows "write_outcome out (concat (bv_views buffer)) t0 s (FileDescriptor_write_loop K d True buffer t0 s)"
  using write_loop_all_on [OF assms(1) writev_contract_everywhere [OF assms(2)] _ assms(3)] by simp

section \<open>Lifetimes\<close>

text \<open>The handles of one wrapper: copies are made with \<open>duplicate()\<close> and destroyed, in any order.\<close>

datatype fd_life = Dup | Drop

fun fd_life_run :: "'w kernel \<Rightarrow> FileDescriptor \<Rightarrow> fd_life list \<Rightarrow> ('w machine, unit) action" where
  "fd_life_run K d [] = returns ()"
| "fd_life_run K d (Dup # ops) = bind (FileDescriptor_duplicate d) (\<lambda>_. fd_life_run K d ops)"
| "fd_life_run K d (Drop # ops) = bind (FileDescriptor_destroy K d) (\<lambda>_. fd_life_run K d ops)"

text \<open>The number of handles left, if none is used after the last one is gone.\<close>

fun fd_handles :: "nat \<Rightarrow> fd_life list \<Rightarrow> nat option" where
  "fd_handles n [] = Some n"
| "fd_handles 0 (_ # _) = None"
| "fd_handles (Suc n) (Dup # ops) = fd_handles (Suc (Suc n)) ops"
| "fd_handles (Suc n) (Drop # ops) = fd_handles n ops"

text \<open>\<open>closes\<close> counts the calls of \<open>close(2)\<close>, which may fail.\<close>

definition counts_closes :: "'w kernel \<Rightarrow> int \<Rightarrow> ('w \<Rightarrow> nat) \<Rightarrow> bool" where
  "counts_closes K n closes \<longleftrightarrow> (\<forall>w. closes (snd (sys_close K n w)) = Suc (closes w))"

lemma FDWrapper_destroy_live:
  assumes "mc_heap s p = Some w" "counts_closes K (fw_fd w) closes"
  shows "\<exists>s'. FDWrapper_destroy K p s = (Inr (), s') \<and> mc_refs s' = mc_refs s \<and>
    closes (mc_kernel s') = closes (mc_kernel s) + (if fw_closed w then 0 else 1)"
proof -
  obtain r k where call: "sys_close K (fw_fd w) (mc_kernel s) = (r, k)" by (metis prod.exhaust)
  then have k: "closes k = Suc (closes (mc_kernel s))" using assms(2) by (metis counts_closes_def snd_conv)
  show ?thesis
  proof (cases "SystemCall ''close'' r 0")
    case (Inl e)
    then have "e \<noteq> undefined_behaviour" by (auto simp: SystemCall_def Let_def split: if_splits)
    then show ?thesis
      using assms(1) k Inl
      by (simp add: FDWrapper_destroy_def FDWrapper_close_def catch_exception_def bind_def wrapper_at_def
          kernel_call_def call)
  next
    case (Inr x)
    then show ?thesis
      using assms(1) k
      by (simp add: FDWrapper_destroy_def FDWrapper_close_def catch_exception_def bind_def wrapper_at_def
          kernel_call_def call update_wrapper_def)
  qed
qed

lemma fd_life:
  assumes "mc_heap s (internal_fd d) = Some w" "mc_refs s (internal_fd d) = n" "0 < n"
    and "fd_handles n ops = Some m" "counts_closes K (fw_fd w) closes"
  shows "\<exists>s'. fd_life_run K d ops s = (Inr (), s') \<and> mc_refs s' (internal_fd d) = m \<and>
    mc_heap s' (internal_fd d) = (if m = 0 then None else Some w) \<and>
    closes (mc_kernel s') = closes (mc_kernel s) + (if m = 0 \<and> \<not> fw_closed w then 1 else 0)"
  using assms
proof (induction ops arbitrary: s n)
  case Nil
  then show ?case by simp
next
  case (Cons op ops)
  obtain k where n: "n = Suc k" using Cons.prems(3) by (cases n) auto
  let ?p = "internal_fd d"
  show ?case
  proof (cases "op = Drop \<and> k = 0")
    case True
    let ?s = "s\<lparr>mc_refs := (mc_refs s)(?p := 0)\<rparr>"
    have "ops = []" "m = 0" using Cons.prems(4) True n by (cases ops; auto)+
    moreover obtain s' where "FDWrapper_destroy K ?p ?s = (Inr (), s')" "mc_refs s' = mc_refs ?s"
      "closes (mc_kernel s') = closes (mc_kernel s) + (if fw_closed w then 0 else 1)"
      using FDWrapper_destroy_live [of ?s ?p w K closes] Cons.prems(1,5) by auto
    ultimately show ?thesis
      using True n Cons.prems(2) by (simp add: bind_def FileDescriptor_destroy_def Let_def)
  next
    case False
    let ?n = "if op = Dup then Suc n else k" and ?s = "s\<lparr>mc_refs := (mc_refs s)(?p := if op = Dup then Suc n else k)\<rparr>"
    have step: "fd_life_run K d (op # ops) s = fd_life_run K d ops ?s"
      using False Cons.prems(2) n
      by (cases op) (simp_all add: bind_def FileDescriptor_duplicate_def FileDescriptor_destroy_def Let_def)
    have "fd_handles ?n ops = Some m" using Cons.prems(4) n by (cases op) auto
    with Cons.IH [of ?s ?n] Cons.prems(1,5) False show ?thesis unfolding step by (cases op) auto
  qed
qed

section \<open>Reading\<close>

lemma read_contractD:
  assumes "read_contract K n" "sys_read K n sz w = ((r, err), data, w')"
  shows "r < 0 \<Longrightarrow> - (2 ^ 31) \<le> r \<and> err \<noteq> 0" and "0 \<le> r \<Longrightarrow> nat r \<le> unat sz \<and> length data = nat r"
  using assms(1) unfolding read_contract_def
  by (fastforce simp: Let_def assms(2) split: prod.splits dest!: spec [of _ sz] spec [of _ w])+

lemma sint_eq_unat: "unat (w :: size_t) < 2 ^ 63 \<Longrightarrow> sint w = int (unat w)"
proof -
  assume "unat w < 2 ^ 63"
  then have "int (unat w) < int (2 ^ 63)" by (simp only: of_nat_less_iff)
  then have "uint w < 2 ^ 63" by simp
  moreover have "- (2 ^ 63) \<le> uint w" by (rule order_trans [of _ 0]) simp_all
  ultimately show ?thesis by (simp add: sint_uint signed_take_bit_int_eq_self)
qed

lemma unat_size_to_read: "unat (min BUFFER_SIZE limit) \<le> 1048576" "sint (min BUFFER_SIZE limit) = int (unat (min BUFFER_SIZE limit))"
proof -
  show le: "unat (min BUFFER_SIZE limit) \<le> 1048576" by (simp add: unat_min BUFFER_SIZE_def)
  show "sint (min BUFFER_SIZE limit) = int (unat (min BUFFER_SIZE limit))"
    using le by (intro sint_eq_unat) simp
qed

text \<open>Reading from a live handle: the bytes the kernel stored, the end mark and the counter.\<close>

lemma read_live:
  assumes live: "mc_heap s (internal_fd d) = Some w" and K: "read_contract K (fw_fd w)"
    and call: "sys_read K (fw_fd w) (min BUFFER_SIZE limit) (mc_kernel s) = ((r, err), data, k)"
  shows "FileDescriptor_read K d limit s =
    (if r < 0 then (Inl (unix_error ''read'' err), s\<lparr>mc_kernel := k\<rparr>)
     else (Inr data, s\<lparr>mc_kernel := k, mc_heap := (mc_heap s)(internal_fd d \<mapsto>
       w\<lparr>fw_eof := (fw_eof w \<or> 0 < limit \<and> data = []), fw_read_count := fw_read_count w + 1\<rparr>)\<rparr>))"
proof -
  note facts = read_contractD [OF K call]
  show ?thesis
  proof (cases "r < 0")
    case True
    then have "SystemCall ''read'' (r, err) 0 = Inl (unix_error ''read'' err)"
      using facts(1) by (simp add: SystemCall_def c_int_small Let_def)
    then show ?thesis
      using True unfolding FileDescriptor_read_def FileDescriptor_read_into_def
      by (simp add: Let_def bind_def fd_num_live [OF live] kernel_call_def call)
  next
    case False
    let ?sz = "min BUFFER_SIZE limit"
    have r: "0 \<le> r" "nat r \<le> unat ?sz" "length data = nat r" using facts(2) False by auto
    then have "SystemCall ''read'' (r, err) 0 = Inr r"
      using unat_size_to_read(1) [of limit] by (intro SystemCall_ok) auto
    moreover have "\<not> sint ?sz < r" using r(2) unat_size_to_read(2) [of limit] unfolding nat_le_iff by linarith
    moreover have "resize_to r (string_resize (unat ?sz) data) = Inr data"
      using r by (simp add: resize_to_def string_resize_def)
    moreover have "(if 0 < limit \<and> r = 0 then update_wrapper (internal_fd d) (\<lambda>w. w\<lparr>fw_eof := True\<rparr>) else returns ())
        (s\<lparr>mc_kernel := k\<rparr>) = (Inr (), s\<lparr>mc_kernel := k, mc_heap := (mc_heap s)(internal_fd d \<mapsto>
          w\<lparr>fw_eof := (fw_eof w \<or> 0 < limit \<and> data = [])\<rparr>)\<rparr>)"
    proof (cases "0 < limit \<and> r = 0")
      case True
      then show ?thesis using r live by (simp add: update_wrapper_live)
    next
      case no: False
      then have "w\<lparr>fw_eof := (fw_eof w \<or> 0 < limit \<and> data = [])\<rparr> = w" using r by (cases w) auto
      then show ?thesis using no live by (auto simp: map_upd_triv)
    qed
    ultimately show ?thesis
      using False unfolding FileDescriptor_read_def FileDescriptor_read_into_def FileDescriptor_register_read_def
      by (simp add: Let_def bind_def fd_num_live [OF live] kernel_call_def call update_wrapper_live)
  qed
qed

section \<open>A kernel to compute with\<close>

text \<open>
  A pipe: what is written can be observed, two bytes at most per call, reads take from the input, and
  polling reports every descriptor ready for what was asked. It keeps all the contracts.
\<close>

record pipe =
  pi_in :: bytes
  pi_out :: bytes
  pi_closes :: nat

definition pipe_kernel :: "pipe kernel" where
  "pipe_kernel =
     \<lparr>sys_read = (\<lambda>_ sz w. let k = min (unat sz) (length (pi_in w))
        in ((int k, 0), take k (pi_in w), w\<lparr>pi_in := drop k (pi_in w)\<rparr>)),
      sys_writev = (\<lambda>_ iov w. let data = concat (map fst iov); k = min 2 (length data)
        in ((int k, 0), w\<lparr>pi_out := pi_out w @ take k data\<rparr>)),
      sys_close = (\<lambda>_ w. ((0, 0), w\<lparr>pi_closes := Suc (pi_closes w)\<rparr>)),
      sys_getfl = (\<lambda>_ w. ((0, 0), w)),
      sys_setfl = (\<lambda>_ _ w. ((0, 0), w)),
      sys_poll = (\<lambda>fds _ w. ((int (length fds), 0), map (\<lambda>p. p\<lparr>pf_revents := pf_events p\<rparr>) fds, w))\<rparr>"

lemma pipe_kernel_contracts:
  "writev_contract pipe_kernel n pi_out" "read_contract pipe_kernel n" "counts_closes pipe_kernel n pi_closes"
  by (auto simp: writev_contract_def read_contract_def counts_closes_def pipe_kernel_def Let_def)

section \<open>Properties\<close>

text \<open>
  Claim C23. \<open>write(buffer, true)\<close> ends, also when the kernel takes only a part of the data each time:
  the bytes handed to the kernel are, in order and without repetition, a prefix of the buffer's bytes;
  if the call returns, it is all of them and the result is their number, and if it throws, it is the
  kernel's own error.
\<close>

theorem FileDescriptor_write_all:
  assumes "mc_heap s (internal_fd d) = Some w" and "writev_contract K (fw_fd w) out"
    and "length (concat (bv_views buffer)) < 2 ^ 63"
  shows "\<exists>res s' k. FileDescriptor_write K d buffer True s = (res, s') \<and>
    out (mc_kernel s') = out (mc_kernel s) @ take k (concat (bv_views buffer)) \<and>
    (case res of
       Inr t \<Rightarrow> k = length (concat (bv_views buffer)) \<and> unat t = k
     | Inl e \<Rightarrow> k \<le> length (concat (bv_views buffer)) \<and> (\<exists>errno. e = unix_error ''writev'' errno))"
proof -
  let ?r = "FileDescriptor_write_loop K d True buffer 0 s" and ?data = "concat (bv_views buffer)"
  obtain k where "k \<le> length ?data" "out (mc_kernel (snd ?r)) = out (mc_kernel s) @ take k ?data"
    and "case fst ?r of Inr t \<Rightarrow> k = length ?data \<and> t = 0 + of_nat k | Inl e \<Rightarrow> \<exists>errno. e = unix_error ''writev'' errno"
    using write_loop_all [OF assms, of 0] unfolding write_outcome_def by blast
  moreover have "unat (of_nat (length ?data) :: size_t) = length ?data"
    using assms(3) by (intro unat_of_nat_64) simp
  ultimately show ?thesis
    unfolding FileDescriptor_write_def
    by (intro exI [of _ "fst ?r"] exI [of _ "snd ?r"] exI [of _ k]) (auto simp del: length_concat split: sum.splits)
qed

theorem FileDescriptor_write_all_witness:
  "\<exists>res s'. FileDescriptor_write pipe_kernel (FileDescriptor 0) (BufferViewList_of_view [1, 2, 3, 4, 5]) True
      \<lparr>mc_heap = [0 \<mapsto> \<lparr>fw_fd = 7, fw_eof = False, fw_closed = False, fw_read_count = 0, fw_write_count = 0\<rparr>],
        mc_refs = (\<lambda>_. 1), mc_next = 1, mc_kernel = \<lparr>pi_in = [], pi_out = [9], pi_closes = 0\<rparr>\<rparr> = (res, s') \<and>
    (case res of Inr t \<Rightarrow> unat t = 5 \<and> pi_out (mc_kernel s') = [9, 1, 2, 3, 4, 5]
     | Inl e \<Rightarrow> \<exists>errno. e = unix_error ''writev'' errno)"
proof -
  let ?w = "\<lparr>fw_fd = 7, fw_eof = False, fw_closed = False, fw_read_count = 0, fw_write_count = 0\<rparr>"
  let ?s = "\<lparr>mc_heap = [0 \<mapsto> ?w], mc_refs = (\<lambda>_. 1), mc_next = 1,
    mc_kernel = \<lparr>pi_in = [], pi_out = [9], pi_closes = 0\<rparr>\<rparr>"
  have "mc_heap ?s (internal_fd (FileDescriptor 0)) = Some ?w" by simp
  from FileDescriptor_write_all [OF this pipe_kernel_contracts(1), of "BufferViewList_of_view [1, 2, 3, 4, 5]"]
  show ?thesis by (fastforce simp: BufferViewList_of_view_def split: sum.splits)
qed

text \<open>
  Claim C32. \<open>read(limit)\<close> returns exactly the bytes the kernel stored, at most \<open>limit\<close> and at most a
  megabyte of them, counts the read, and sets the end-of-file flag exactly when the kernel had no byte
  for a non-zero \<open>limit\<close>; it throws only the kernel's own error, and then counts nothing.
\<close>

theorem FileDescriptor_read_correct:
  assumes "mc_heap s (internal_fd d) = Some w" and "read_contract K (fw_fd w)"
  shows "case FileDescriptor_read K d limit s of
      (Inr str, s') \<Rightarrow> length str \<le> min 1048576 (unat limit) \<and>
        str = fst (snd (sys_read K (fw_fd w) (min BUFFER_SIZE limit) (mc_kernel s))) \<and>
        mc_heap s' (internal_fd d) = Some (w\<lparr>fw_eof := (fw_eof w \<or> 0 < limit \<and> str = []),
          fw_read_count := fw_read_count w + 1\<rparr>)
    | (Inl e, s') \<Rightarrow> (\<exists>errno. e = unix_error ''read'' errno) \<and> mc_heap s' = mc_heap s"
proof -
  obtain r err data k where call:
    "sys_read K (fw_fd w) (min BUFFER_SIZE limit) (mc_kernel s) = ((r, err), data, k)"
    by (metis prod.exhaust)
  have "length data \<le> unat (min BUFFER_SIZE limit)" if "0 \<le> r"
    using read_contractD(2) [OF assms(2) call that] by simp
  moreover have "unat (min BUFFER_SIZE limit) = min 1048576 (unat limit)" by (simp add: unat_min BUFFER_SIZE_def)
  ultimately show ?thesis using read_live [OF assms call] call by simp
qed

theorem FileDescriptor_read_correct_witness:
  "\<exists>str s'. FileDescriptor_read pipe_kernel (FileDescriptor 0) 2
      \<lparr>mc_heap = [0 \<mapsto> \<lparr>fw_fd = 7, fw_eof = False, fw_closed = False, fw_read_count = 0, fw_write_count = 0\<rparr>],
        mc_refs = (\<lambda>_. 1), mc_next = 1, mc_kernel = \<lparr>pi_in = [1, 2, 3], pi_out = [], pi_closes = 0\<rparr>\<rparr> = (Inr str, s') \<and>
    length str \<le> 2 \<and> map_option fw_read_count (mc_heap s' 0) = Some 1"
proof -
  let ?w = "\<lparr>fw_fd = 7, fw_eof = False, fw_closed = False, fw_read_count = 0, fw_write_count = 0\<rparr>"
  let ?s = "\<lparr>mc_heap = [0 \<mapsto> ?w], mc_refs = (\<lambda>_. 1), mc_next = 1,
    mc_kernel = \<lparr>pi_in = [1, 2, 3], pi_out = [], pi_closes = 0\<rparr>\<rparr>"
  have live: "mc_heap ?s (internal_fd (FileDescriptor 0)) = Some ?w" by simp
  have "fst (FileDescriptor_read pipe_kernel (FileDescriptor 0) 2 ?s) = Inr [1, 2]" by code_simp
  then obtain s' where rd: "FileDescriptor_read pipe_kernel (FileDescriptor 0) 2 ?s = (Inr [1, 2], s')"
    by (metis prod.collapse)
  from FileDescriptor_read_correct [OF live pipe_kernel_contracts(2), of 2] have "mc_heap s' 0 = Some (?w\<lparr>fw_read_count := 1\<rparr>)"
    unfolding rd by simp
  then show ?thesis using rd by simp
qed

text \<open>
  Claim C33. A descriptor is closed once, by the last handle: however handles are duplicated and
  destroyed after a \<open>FileDescriptor\<close> has been constructed, the wrapper lives and the descriptor stays
  open as long as one handle is left, and when the last one goes it is closed exactly once, whether or
  not \<open>close(2)\<close> reports an error.
\<close>

theorem FileDescriptor_closed_once:
  assumes "FileDescriptor_new fd s = (Inr d, s0)" and "counts_closes K fd closes"
    and "fd_handles 1 ops = Some m"
  shows "\<exists>s'. fd_life_run K d ops s0 = (Inr (), s') \<and>
    closes (mc_kernel s') = closes (mc_kernel s) + (if m = 0 then 1 else 0) \<and>
    (mc_heap s' (internal_fd d) = None \<longleftrightarrow> m = 0)"
proof -
  let ?w = "\<lparr>fw_fd = fd, fw_eof = False, fw_closed = False, fw_read_count = 0, fw_write_count = 0\<rparr>"
  have "mc_heap s0 (internal_fd d) = Some ?w" "mc_refs s0 (internal_fd d) = 1" "mc_kernel s0 = mc_kernel s"
    using assms(1) by (auto simp: FileDescriptor_new_def FDWrapper_new_def bind_def split: if_splits)
  with fd_life [OF this(1,2) _ assms(3), of K closes] assms(2) show ?thesis by auto
qed

theorem FileDescriptor_closed_once_witness:
  "\<exists>d s0 s'. FileDescriptor_new 5 \<lparr>mc_heap = Map.empty, mc_refs = (\<lambda>_. 0), mc_next = 0,
      mc_kernel = \<lparr>pi_in = [], pi_out = [], pi_closes = 0\<rparr>\<rparr> = (Inr d, s0) \<and>
    fd_life_run pipe_kernel d [Dup, Drop, Dup, Drop, Drop] s0 = (Inr (), s') \<and> pi_closes (mc_kernel s') = 1"
proof -
  let ?s = "\<lparr>mc_heap = Map.empty, mc_refs = (\<lambda>_. 0), mc_next = 0,
      mc_kernel = \<lparr>pi_in = [], pi_out = [], pi_closes = 0\<rparr>\<rparr>"
  obtain d s0 where new: "FileDescriptor_new 5 ?s = (Inr d, s0)"
    by (simp add: FileDescriptor_new_def FDWrapper_new_def bind_def)
  have "fd_handles 1 [Dup, Drop, Dup, Drop, Drop] = Some 0" unfolding One_nat_def by simp
  from FileDescriptor_closed_once [OF new pipe_kernel_contracts(3) this] new show ?thesis by auto
qed

section \<open>Blocking mode\<close>

text \<open>
  The documented behaviour of \<open>fcntl(2)\<close> on the status flags \<open>fl\<close> of the descriptor \<open>n\<close>: \<open>F_GETFL\<close> reports
  them, and \<open>F_SETFL\<close> changes the \<open>settable\<close> ones and ignores the others; a failing call changes nothing.
\<close>

definition fcntl_contract :: "'w kernel \<Rightarrow> int \<Rightarrow> u32 \<Rightarrow> ('w \<Rightarrow> u32) \<Rightarrow> bool" where
  "fcntl_contract K n settable fl \<longleftrightarrow>
     (\<forall>w r err w'. sys_getfl K n w = ((r, err), w') \<longrightarrow>
        fl w' = fl w \<and> (r = - 1 \<and> err \<noteq> 0 \<or> r = uint (fl w) \<and> r < 2 ^ 31)) \<and>
     (\<forall>flags w r err w'. sys_setfl K n flags w = ((r, err), w') \<longrightarrow>
        r = - 1 \<and> err \<noteq> 0 \<and> fl w' = fl w \<or> r = 0 \<and> fl w' = (flags AND settable) OR (fl w AND NOT settable))"

lemma fcntl_contractD:
  assumes "fcntl_contract K n settable fl"
  shows "sys_getfl K n w = ((r, err), w') \<Longrightarrow> fl w' = fl w \<and> (r = - 1 \<and> err \<noteq> 0 \<or> r = uint (fl w) \<and> r < 2 ^ 31)"
    and "sys_setfl K n flags w = ((r, err), w') \<Longrightarrow>
      r = - 1 \<and> err \<noteq> 0 \<and> fl w' = fl w \<or> r = 0 \<and> fl w' = (flags AND settable) OR (fl w AND NOT settable)"
  using assms unfolding fcntl_contract_def by blast+

lemma SystemCall_minus_one: "err \<noteq> 0 \<Longrightarrow> SystemCall attempt (- 1, err) 0 = Inl (unix_error attempt err)"
  by (simp add: SystemCall_def c_int_def Let_def)

text \<open>
  Claim C34. \<open>set_blocking\<close> switches the flag \<open>O_NONBLOCK\<close>, bit 11, and no other: if it returns, that flag is the
  opposite of what was asked for and the others are as before, and if it throws, it is the error of
  \<open>fcntl\<close> and no flag has changed.
\<close>

theorem FileDescriptor_set_blocking_flags:
  assumes "mc_heap s (internal_fd d) = Some w" and "fcntl_contract K (fw_fd w) settable fl" and "bit settable 11"
  shows "case FileDescriptor_set_blocking K d blocking_state s of
      (Inr _, s') \<Rightarrow> \<forall>i. bit (fl (mc_kernel s')) i = (if i = 11 then \<not> blocking_state else bit (fl (mc_kernel s)) i)
    | (Inl e, s') \<Rightarrow> (\<exists>errno. e = unix_error ''fcntl'' errno) \<and> fl (mc_kernel s') = fl (mc_kernel s)"
proof -
  obtain r err k where get: "sys_getfl K (fw_fd w) (mc_kernel s) = ((r, err), k)" by (metis prod.exhaust)
  define flags where "flags = (let fl0 = fl (mc_kernel s) in if blocking_state then fl0 XOR (fl0 AND O_NONBLOCK) else fl0 OR O_NONBLOCK)"
  obtain r' err' k' where set: "sys_setfl K (fw_fd w) flags k = ((r', err'), k')" by (metis prod.exhaust)
  note D = fcntl_contractD(1) [OF assms(2) get] fcntl_contractD(2) [OF assms(2) set]
  note [simp] = FileDescriptor_set_blocking_def bind_def fd_num_live [OF assms(1)] kernel_call_def lift_def
  have live: "FileDescriptor_fd_num d (s\<lparr>mc_kernel := k\<rparr>) = (Inr (fw_fd w), s\<lparr>mc_kernel := k\<rparr>)"
    by (rule fd_num_live) (simp add: assms(1))
  have lt: "i < 32" if "bit v i" for v :: u32 and i using bit_imp_le_length [OF that] by simp
  have O11: "bit O_NONBLOCK i \<longleftrightarrow> i = 11" for i
  proof -
    have "O_NONBLOCK = 2 ^ 11" by (simp add: O_NONBLOCK_def)
    then have "bit O_NONBLOCK i \<longleftrightarrow> possible_bit TYPE(u32) i \<and> 11 = i" by (metis bit_exp_iff)
    then show ?thesis by auto
  qed
  show ?thesis
  proof (cases "r = - 1 \<and> err \<noteq> 0")
    case True
    then show ?thesis using D(1) by (simp add: get SystemCall_minus_one)
  next
    case False
    then have r: "r = uint (fl (mc_kernel s))" "r < 2 ^ 31" using D(1) by auto
    then have sys: "SystemCall ''fcntl'' (r, err) 0 = Inr r" "of_int r = fl (mc_kernel s)" by (auto intro: SystemCall_ok)
    show ?thesis
    proof (cases "r' = - 1 \<and> err' \<noteq> 0")
      case True
      then show ?thesis using D set by (cases blocking_state) (auto simp: get sys live SystemCall_minus_one flags_def Let_def)
    next
      case False
      then have "r' = 0" "fl k' = (flags AND settable) OR (fl (mc_kernel s) AND NOT settable)" using D by auto
      moreover have "SystemCall ''fcntl'' (0, err') 0 = Inr 0" by (rule SystemCall_ok) simp_all
      ultimately show ?thesis
        using set assms(3)
        by (cases blocking_state) (auto simp: get sys live returns_def flags_def Let_def bit_simps O11 dest: lt)
    qed
  qed
qed

text \<open>A kernel whose state is the flags of one descriptor, with \<open>O_APPEND\<close>, \<open>O_NONBLOCK\<close>, \<open>O_ASYNC\<close> and \<open>O_DIRECT\<close> settable.\<close>

definition flag_kernel :: "u16 kernel" where
  "flag_kernel =
     \<lparr>sys_read = (\<lambda>_ _ w. ((0, 0), [], w)), sys_writev = (\<lambda>_ _ w. ((- 1, 9), w)), sys_close = (\<lambda>_ w. ((0, 0), w)),
      sys_getfl = (\<lambda>_ w. ((uint w, 0), w)),
      sys_setfl = (\<lambda>_ flags w. ((0, 0), (ucast flags AND 0x6C00) OR (w AND NOT 0x6C00))),
      sys_poll = (\<lambda>fds _ w. ((0, 0), fds, w))\<rparr>"

lemma flag_kernel_fcntl: "fcntl_contract flag_kernel n 0x6C00 ucast"
proof -
  have "uint w < 2 ^ 31" for w :: u16 using uint_lt2p [of w] by simp
  moreover have "(ucast ((ucast flags AND m) OR (w AND NOT m)) :: u32) = (flags AND ucast m) OR (ucast w AND NOT (ucast m))"
    for flags :: u32 and w m :: u16
    by (rule bit_word_eqI) (auto simp: bit_simps dest: bit_imp_le_length)
  from this [of _ "0x6C00"] have "(ucast ((ucast flags AND 0x6C00) OR (w AND NOT 0x6C00)) :: u32) = (flags AND 0x6C00) OR (ucast w AND NOT 0x6C00)"
    for flags :: u32 and w :: u16
    by simp
  ultimately show ?thesis by (auto simp: fcntl_contract_def flag_kernel_def uint_up_ucast is_up)
qed

theorem FileDescriptor_set_blocking_flags_witness:
  "\<exists>s'. FileDescriptor_set_blocking flag_kernel (FileDescriptor 0) False
      \<lparr>mc_heap = [0 \<mapsto> \<lparr>fw_fd = 7, fw_eof = False, fw_closed = False, fw_read_count = 0, fw_write_count = 0\<rparr>],
        mc_refs = (\<lambda>_. 1), mc_next = 1, mc_kernel = 2\<rparr> = (Inr (), s') \<and>
    bit (mc_kernel s') 11 \<and> bit (mc_kernel s') 1 \<and> \<not> bit (mc_kernel s') 0"
proof -
  let ?w = "\<lparr>fw_fd = 7, fw_eof = False, fw_closed = False, fw_read_count = 0, fw_write_count = 0\<rparr>"
  let ?s = "\<lparr>mc_heap = [0 \<mapsto> ?w], mc_refs = (\<lambda>_. 1), mc_next = 1, mc_kernel = 2 :: u16\<rparr>"
  have live: "mc_heap ?s (internal_fd (FileDescriptor 0)) = Some ?w" by simp
  obtain s' where run: "FileDescriptor_set_blocking flag_kernel (FileDescriptor 0) False ?s = (Inr (), s')"
    by (simp add: FileDescriptor_set_blocking_def flag_kernel_def bind_def FileDescriptor_fd_num_def wrapper_at_def kernel_call_def
        lift_def returns_def SystemCall_ok)
  have "bit (ucast (mc_kernel s') :: u32) i = (if i = 11 then True else bit (ucast (mc_kernel ?s) :: u32) i)" for i
    using FileDescriptor_set_blocking_flags [OF live flag_kernel_fcntl, of False] run by simp
  from this [of 11] this [of 1] this [of 0] run show ?thesis by (auto simp: bit_simps)
qed

end
