(* ===== verification/Event_Loop.thy ===== *)
theory Event_Loop
  imports File_Descriptor "HOL-Library.Sublist"
begin

unbundle bit_operations_syntax

text \<open>
  The event loop: \<open>libsponge/util/eventloop.hh\<close> and \<open>eventloop.cc\<close>. A rule holds a handle and three
  callbacks, which are arbitrary actions on the machine; they are assumed not to add rules to the loop
  they are called from. \<open>poll(2)\<close> is the kernel's.
\<close>

section \<open>State and operations\<close>

datatype Direction = In | Out

primrec Direction_value :: "Direction \<Rightarrow> u16" where
  "Direction_value In = POLLIN"
| "Direction_value Out = POLLOUT"

record 'w Rule =
  rl_fd :: FileDescriptor
  rl_direction :: Direction
  rl_callback :: "('w machine, unit) action"
  rl_interest :: "('w machine, bool) action"
  rl_cancel :: "('w machine, unit) action"

definition Rule_service_count :: "'w Rule \<Rightarrow> ('w machine, u32) action" where
  "Rule_service_count r =
     (if rl_direction r = In then FileDescriptor_read_count (rl_fd r) else FileDescriptor_write_count (rl_fd r))"

record 'w EventLoop =
  el_rules :: "'w Rule list"

datatype EventLoop_Result = Success | Timeout | Exit

definition EventLoop_add_rule ::
  "FileDescriptor \<Rightarrow> Direction \<Rightarrow> ('w machine, unit) action \<Rightarrow> ('w machine, bool) action \<Rightarrow>
   ('w machine, unit) action \<Rightarrow> 'w EventLoop \<Rightarrow> ('w machine, 'w EventLoop) action" where
  "EventLoop_add_rule fd direction callback interest cancel el =
     bind (FileDescriptor_duplicate fd) (\<lambda>fd'.
       returns (el\<lparr>el_rules := el_rules el @ [\<lparr>rl_fd = fd', rl_direction = direction,
         rl_callback = callback, rl_interest = interest, rl_cancel = cancel\<rparr>]\<rparr>))"

text \<open>The two tests at the head of the first loop: a reader at its end, or a closed descriptor.\<close>

definition rule_defunct :: "'w Rule \<Rightarrow> ('w machine, bool) action" where
  "rule_defunct r =
     bind (if rl_direction r = In then FileDescriptor_eof (rl_fd r) else returns False) (\<lambda>eof.
       if eof then returns True else FileDescriptor_closed (rl_fd r))"

text \<open>\<open>cancel()\<close>, then \<open>erase\<close>, which destroys the rule and with it its handle.\<close>

definition rule_cancel :: "'w kernel \<Rightarrow> 'w Rule \<Rightarrow> ('w machine, unit) action" where
  "rule_cancel K r = bind (rl_cancel r) (\<lambda>_. FileDescriptor_destroy K (rl_fd r))"

text \<open>
  The first loop: the poll array and whether anything is polled. The remaining rules are part of the
  result also when a callback throws.
\<close>

fun poll_setup :: "'w kernel \<Rightarrow> 'w Rule list \<Rightarrow> 'w machine
    \<Rightarrow> (cpp_failure + pollfd list \<times> bool) \<times> 'w Rule list \<times> 'w machine" where
  "poll_setup K [] s = (Inr ([], False), [], s)"
| "poll_setup K (r # rs) s =
     (case rule_defunct r s of
        (Inl e, s) \<Rightarrow> (Inl e, r # rs, s)
      | (Inr True, s) \<Rightarrow>
          (case rule_cancel K r s of
             (Inl e, s) \<Rightarrow> (Inl e, r # rs, s)
           | (Inr _, s) \<Rightarrow> poll_setup K rs s)
      | (Inr False, s) \<Rightarrow>
          (case bind (rl_interest r) (\<lambda>i. bind (FileDescriptor_fd_num (rl_fd r)) (\<lambda>n. returns (i, n))) s of
             (Inl e, s) \<Rightarrow> (Inl e, r # rs, s)
           | (Inr (interested, n), s) \<Rightarrow>
               (case poll_setup K rs s of
                  (Inl e, rs', s) \<Rightarrow> (Inl e, r # rs', s)
                | (Inr (pollfds, something_to_poll), rs', s) \<Rightarrow>
                    (Inr (\<lparr>pf_fd = n, pf_events = (if interested then Direction_value (rl_direction r) else 0),
                            pf_revents = 0\<rparr> # pollfds, interested \<or> something_to_poll), r # rs', s))))"

text \<open>Running the callback of a ready rule, with the check for a busy wait.\<close>

definition rule_serve :: "'w Rule \<Rightarrow> ('w machine, unit) action" where
  "rule_serve r =
     bind (Rule_service_count r) (\<lambda>count_before.
     bind (rl_callback r) (\<lambda>_.
     bind (Rule_service_count r) (\<lambda>count_after.
       if count_before = count_after
       then bind (rl_interest r) (\<lambda>interested.
         if interested then throws (runtime_error
           ''EventLoop: busy wait detected: callback did not read/write fd and is still interested'')
         else returns ())
       else returns ())))"

text \<open>The second loop, over the rules and the poll array in step; \<open>pollfds[idx]\<close> must exist.\<close>

fun poll_results :: "'w kernel \<Rightarrow> pollfd list \<Rightarrow> 'w Rule list \<Rightarrow> 'w machine
    \<Rightarrow> (cpp_failure + unit) \<times> 'w Rule list \<times> 'w machine" where
  "poll_results K pollfds [] s = (Inr (), [], s)"
| "poll_results K [] (r # rs) s = (Inl undefined_behaviour, r # rs, s)"
| "poll_results K (p # pollfds) (r # rs) s =
     (if pf_revents p AND (POLLERR OR POLLNVAL) \<noteq> 0
      then (Inl (runtime_error ''EventLoop: error on polled file descriptor''), r # rs, s)
      else
        let poll_ready = (pf_revents p AND pf_events p \<noteq> 0);
            poll_hup = (pf_revents p AND POLLHUP \<noteq> 0)
        in if poll_hup \<and> pf_events p \<noteq> 0 \<and> \<not> poll_ready
           then (case rule_cancel K r s of
                   (Inl e, s) \<Rightarrow> (Inl e, r # rs, s)
                 | (Inr _, s) \<Rightarrow> poll_results K pollfds rs s)
           else (case (if poll_ready then rule_serve r else returns ()) s of
                   (Inl e, s) \<Rightarrow> (Inl e, r # rs, s)
                 | (Inr _, s) \<Rightarrow>
                     (case poll_results K pollfds rs s of (res, rs', s) \<Rightarrow> (res, r # rs', s))))"

definition EventLoop_wait_next_event :: "'w kernel \<Rightarrow> 'w EventLoop \<Rightarrow> int \<Rightarrow> 'w machine
    \<Rightarrow> (cpp_failure + EventLoop_Result) \<times> 'w EventLoop \<times> 'w machine" where
  "EventLoop_wait_next_event K el timeout_ms s =
     (case poll_setup K (el_rules el) s of
        (Inl e, rs, s) \<Rightarrow> (Inl e, el\<lparr>el_rules := rs\<rparr>, s)
      | (Inr (pollfds, something_to_poll), rs, s) \<Rightarrow>
          if \<not> something_to_poll then (Inr Exit, el\<lparr>el_rules := rs\<rparr>, s)
          else
            let (r, pollfds, k) = sys_poll K pollfds timeout_ms (mc_kernel s);
                s = s\<lparr>mc_kernel := k\<rparr>;
                results = (case poll_results K pollfds rs s of
                    (Inl e, rs, s) \<Rightarrow> (Inl e, el\<lparr>el_rules := rs\<rparr>, s)
                  | (Inr _, rs, s) \<Rightarrow> (Inr Success, el\<lparr>el_rules := rs\<rparr>, s))
            in (case SystemCall ''poll'' r 0 of
                  Inr n \<Rightarrow> if n = 0 then (Inr Timeout, el\<lparr>el_rules := rs\<rparr>, s) else results
                | Inl (unix_error _ errno) \<Rightarrow>
                    if errno = EINTR then (Inr Exit, el\<lparr>el_rules := rs\<rparr>, s) else results
                | Inl e \<Rightarrow> (Inl e, el\<lparr>el_rules := rs\<rparr>, s)))"

section \<open>Only whole rules are removed\<close>

lemma poll_setup_subseq: "subseq (fst (snd (poll_setup K rs s))) rs"
  by (induction rs arbitrary: s) (auto simp: case_prod_unfold split: sum.splits bool.splits)

lemma poll_results_subseq: "subseq (fst (snd (poll_results K pfs rs s))) rs"
proof (induction rs arbitrary: pfs s)
  case (Cons r rs)
  then show ?case by (cases pfs) (auto simp: case_prod_unfold Let_def split: sum.splits)
qed simp

section \<open>The handles of the rules stay valid\<close>

text \<open>
  \<open>fd_inv c s\<close>: every wrapper with a handle is alive, and there are at least \<open>c p\<close> handles of the
  wrapper at \<open>p\<close>. The rules of a loop own one handle each.
\<close>

definition fd_inv :: "(nat \<Rightarrow> nat) \<Rightarrow> 'w machine \<Rightarrow> bool" where
  "fd_inv c s \<longleftrightarrow> (\<forall>p. c p \<le> mc_refs s p) \<and> (\<forall>p. 0 < mc_refs s p \<longrightarrow> mc_heap s p \<noteq> None)"

definition rule_count :: "'w Rule list \<Rightarrow> nat \<Rightarrow> nat" where
  "rule_count rs p = length (filter (\<lambda>r. internal_fd (rl_fd r) = p) rs)"

text \<open>
  What the loop expects of a callback while its rule is installed: it does nothing undefined, and it
  releases no handle it does not own, so that those of the rules stay.
\<close>

definition callback_safe :: "(nat \<Rightarrow> nat) \<Rightarrow> nat \<Rightarrow> ('w machine, 'a) action \<Rightarrow> bool" where
  "callback_safe c p m \<longleftrightarrow> (\<forall>c' s. c' \<le> c \<and> 0 < c' p \<and> fd_inv c' s \<longrightarrow>
     fst (m s) \<noteq> Inl undefined_behaviour \<and> fd_inv c' (snd (m s)))"

definition rule_safe :: "(nat \<Rightarrow> nat) \<Rightarrow> 'w Rule \<Rightarrow> bool" where
  "rule_safe c r \<longleftrightarrow> callback_safe c (internal_fd (rl_fd r)) (rl_callback r) \<and>
     callback_safe c (internal_fd (rl_fd r)) (rl_interest r) \<and>
     callback_safe c (internal_fd (rl_fd r)) (rl_cancel r)"

lemma callback_safeD:
  "callback_safe c p m \<Longrightarrow> c' \<le> c \<Longrightarrow> 0 < c' p \<Longrightarrow> fd_inv c' s \<Longrightarrow>
   fst (m s) \<noteq> Inl undefined_behaviour \<and> fd_inv c' (snd (m s))"
  by (simp add: callback_safe_def)

lemma callback_safe_run:
  assumes "callback_safe c0 p m" "c \<le> c0" "0 < c p" "fd_inv c s" "m s = (res, s')"
  shows "res \<noteq> Inl undefined_behaviour" "fd_inv c s'"
  using callback_safeD [OF assms(1-4)] assms(5) by simp_all

lemma fd_inv_live:
  assumes "fd_inv c s" "0 < c p"
  obtains w where "mc_heap s p = Some w"
  using assms unfolding fd_inv_def by (metis not_None_eq order_less_le_trans)

lemma fd_inv_kernel [simp]: "fd_inv c (s\<lparr>mc_kernel := k\<rparr>) = fd_inv c s"
  by (simp add: fd_inv_def)

text \<open>The accessors only look.\<close>

lemma accessors_live:
  assumes "mc_heap s (internal_fd d) = Some w"
  shows "FileDescriptor_fd_num d s = (Inr (fw_fd w), s)" "FileDescriptor_eof d s = (Inr (fw_eof w), s)"
    "FileDescriptor_closed d s = (Inr (fw_closed w), s)"
    "FileDescriptor_read_count d s = (Inr (fw_read_count w), s)"
    "FileDescriptor_write_count d s = (Inr (fw_write_count w), s)"
  using assms by (simp_all add: FileDescriptor_fd_num_def FileDescriptor_eof_def FileDescriptor_closed_def
      FileDescriptor_read_count_def FileDescriptor_write_count_def bind_def wrapper_at_def)

lemma rule_defunct_safe:
  assumes "fd_inv c s" "0 < c (internal_fd (rl_fd r))"
  shows "\<exists>b. rule_defunct r s = (Inr b, s)"
  by (rule fd_inv_live [OF assms]) (auto simp: rule_defunct_def bind_def accessors_live)

lemma service_count_safe:
  assumes "fd_inv c s" "0 < c (internal_fd (rl_fd r))"
  shows "\<exists>n. Rule_service_count r s = (Inr n, s)"
  by (rule fd_inv_live [OF assms]) (simp add: Rule_service_count_def accessors_live)

lemma FDWrapper_destroy_safe:
  assumes "mc_heap s p = Some w"
  shows "\<exists>s'. FDWrapper_destroy K p s = (Inr (), s') \<and> mc_refs s' = mc_refs s \<and>
    (\<forall>q. mc_heap s' q = None \<longleftrightarrow> mc_heap s q = None)"
proof -
  obtain r k where call: "sys_close K (fw_fd w) (mc_kernel s) = (r, k)" by (metis prod.exhaust)
  have "e \<noteq> undefined_behaviour" if "SystemCall ''close'' r 0 = Inl e" for e
    using that by (auto simp: SystemCall_def Let_def split: if_splits)
  then show ?thesis
    using assms by (cases "SystemCall ''close'' r 0")
      (auto simp: FDWrapper_destroy_def FDWrapper_close_def catch_exception_def bind_def wrapper_at_def
        kernel_call_def call update_wrapper_def)
qed

lemma destroy_safe:
  assumes inv: "fd_inv c s" and pos: "0 < c (internal_fd d)"
  shows "\<exists>s'. FileDescriptor_destroy K d s = (Inr (), s') \<and>
    fd_inv (c(internal_fd d := c (internal_fd d) - 1)) s'"
proof -
  let ?p = "internal_fd d" and ?s = "s\<lparr>mc_refs := (mc_refs s)(internal_fd d := mc_refs s (internal_fd d) - 1)\<rparr>"
  obtain w where w: "mc_heap s ?p = Some w" by (rule fd_inv_live [OF inv pos])
  have refs: "c q \<le> mc_refs s q" "0 < mc_refs s q \<Longrightarrow> mc_heap s q \<noteq> None" for q
    using inv by (simp_all add: fd_inv_def)
  show ?thesis
  proof (cases "mc_refs s ?p - 1 = 0")
    case True
    then have le: "c ?p \<le> 1" using refs(1) [of ?p] by linarith
    obtain s' where s': "FDWrapper_destroy K ?p ?s = (Inr (), s')" "mc_refs s' = mc_refs ?s"
      "\<And>q. mc_heap s' q = None \<longleftrightarrow> mc_heap s q = None"
      using FDWrapper_destroy_safe [of ?s ?p w K] w by auto
    then have "FileDescriptor_destroy K d s = (Inr (), s'\<lparr>mc_heap := (mc_heap s')(?p := None)\<rparr>)"
      using True by (simp add: FileDescriptor_destroy_def Let_def bind_def)
    moreover have "fd_inv (c(?p := c ?p - 1)) (s'\<lparr>mc_heap := (mc_heap s')(?p := None)\<rparr>)"
      using True refs s'(2,3) le by (auto simp: fd_inv_def simp del: not_None_eq)
    ultimately show ?thesis by blast
  next
    case False
    then have "FileDescriptor_destroy K d s = (Inr (), ?s)" by (simp add: FileDescriptor_destroy_def Let_def)
    moreover have "fd_inv (c(?p := c ?p - 1)) ?s"
      using refs refs(1) [of ?p] w by (auto simp: fd_inv_def diff_le_mono)
    ultimately show ?thesis by blast
  qed
qed

text \<open>
  A step on behalf of an installed rule: with \<open>c\<close> handles guaranteed, it does nothing undefined and
  leaves \<open>c'\<close> guaranteed.
\<close>

lemma rule_cancel_safe:
  assumes "rule_safe c0 r" "c \<le> c0" "0 < c (internal_fd (rl_fd r))" "fd_inv c s"
  shows "case rule_cancel K r s of (Inl e, s') \<Rightarrow> e \<noteq> undefined_behaviour \<and> fd_inv c s'
    | (Inr _, s') \<Rightarrow> fd_inv (c(internal_fd (rl_fd r) := c (internal_fd (rl_fd r)) - 1)) s'"
proof -
  have safe: "fst (rl_cancel r s) \<noteq> Inl undefined_behaviour" "fd_inv c (snd (rl_cancel r s))"
    using callback_safeD [OF _ assms(2,3,4)] assms(1) by (auto simp: rule_safe_def)
  from destroy_safe [OF safe(2) assms(3), of K] safe show ?thesis
    by (cases "rl_cancel r s" rule: prod.exhaust; cases "fst (rl_cancel r s)")
       (auto simp: rule_cancel_def bind_def)
qed

lemma rule_serve_safe:
  assumes safe: "rule_safe c0 r" and c: "c \<le> c0" "0 < c (internal_fd (rl_fd r))" and inv: "fd_inv c s"
  shows "fst (rule_serve r s) \<noteq> Inl undefined_behaviour \<and> fd_inv c (snd (rule_serve r s))"
proof -
  obtain n where n: "Rule_service_count r s = (Inr n, s)" using service_count_safe [OF inv c(2)] by blast
  obtain res s1 where cb: "rl_callback r s = (res, s1)" by fastforce
  have s1: "res \<noteq> Inl undefined_behaviour" "fd_inv c s1"
    using callback_safe_run [where m = "rl_callback r", OF _ c inv cb] safe by (simp_all add: rule_safe_def)
  obtain n' where n': "Rule_service_count r s1 = (Inr n', s1)" using service_count_safe [OF s1(2) c(2)] by blast
  obtain res2 s2 where int: "rl_interest r s1 = (res2, s2)" by fastforce
  have "res2 \<noteq> Inl undefined_behaviour" "fd_inv c s2"
    using callback_safe_run [where m = "rl_interest r", OF _ c s1(2) int] safe by (simp_all add: rule_safe_def)
  then show ?thesis
    using n n' cb int s1 by (auto simp: rule_serve_def bind_def split: sum.splits)
qed

lemma rule_interest_safe:
  assumes safe: "rule_safe c0 r" and c: "c \<le> c0" "0 < c (internal_fd (rl_fd r))" and inv: "fd_inv c s"
  shows "case bind (rl_interest r) (\<lambda>i. bind (FileDescriptor_fd_num (rl_fd r)) (\<lambda>n. returns (i, n))) s of
      (Inl e, s') \<Rightarrow> e \<noteq> undefined_behaviour \<and> fd_inv c s' | (Inr _, s') \<Rightarrow> fd_inv c s'"
proof -
  obtain res s1 where int: "rl_interest r s = (res, s1)" by fastforce
  have s1: "res \<noteq> Inl undefined_behaviour" "fd_inv c s1"
    using callback_safe_run [where m = "rl_interest r", OF _ c inv int] safe by (simp_all add: rule_safe_def)
  obtain w where "mc_heap s1 (internal_fd (rl_fd r)) = Some w" by (rule fd_inv_live [OF s1(2) c(2)])
  then show ?thesis using int s1 by (cases res) (auto simp: bind_def accessors_live)
qed

text \<open>The handles of some other rules, \<open>b\<close>, and those of the rules \<open>rs\<close>.\<close>

abbreviation with_rules :: "(nat \<Rightarrow> nat) \<Rightarrow> 'w Rule list \<Rightarrow> nat \<Rightarrow> nat" where
  "with_rules b rs \<equiv> (\<lambda>p. b p + rule_count rs p)"

lemma with_rules_Cons:
  "with_rules b (r # rs) = with_rules (b(internal_fd (rl_fd r) := Suc (b (internal_fd (rl_fd r))))) rs"
  "(with_rules b (r # rs))(internal_fd (rl_fd r) := with_rules b (r # rs) (internal_fd (rl_fd r)) - 1) = with_rules b rs"
  "0 < with_rules b (r # rs) (internal_fd (rl_fd r))"
  by (auto simp: rule_count_def)

lemma with_rules_mono: "with_rules b rs \<le> with_rules b (r # rs)"
  by (simp add: le_fun_def rule_count_def)

text \<open>What a loop over the rules leaves, with \<open>b\<close> the handles of the rules before them.\<close>

definition loop_safe :: "(nat \<Rightarrow> nat) \<Rightarrow> (cpp_failure + 'a) \<times> 'w Rule list \<times> 'w machine \<Rightarrow> bool" where
  "loop_safe b out \<longleftrightarrow> fst out \<noteq> Inl undefined_behaviour \<and> fd_inv (with_rules b (fst (snd out))) (snd (snd out))"

lemma loop_safe_simps:
  "loop_safe b (Inl e, rs, s) \<longleftrightarrow> e \<noteq> undefined_behaviour \<and> fd_inv (with_rules b rs) s"
  "loop_safe b (Inr x, rs, s) \<longleftrightarrow> fd_inv (with_rules b rs) s"
  by (simp_all add: loop_safe_def)

lemma loop_safe_Cons:
  "loop_safe (b(internal_fd (rl_fd r) := Suc (b (internal_fd (rl_fd r))))) (res, rs, s) =
   loop_safe b (res, r # rs, s)"
  unfolding loop_safe_def fst_conv snd_conv with_rules_Cons(1) [of b r rs] ..

lemma poll_setup_safe:
  assumes "\<And>r. r \<in> set rs \<Longrightarrow> rule_safe c0 r" "with_rules b rs \<le> c0" "fd_inv (with_rules b rs) s"
  shows "loop_safe b (poll_setup K rs s)"
  using assms
proof (induction rs arbitrary: b s)
  case Nil
  then show ?case by (simp add: loop_safe_simps)
next
  case (Cons r rs)
  let ?b = "b(internal_fd (rl_fd r) := Suc (b (internal_fd (rl_fd r))))"
  have safe: "rule_safe c0 r" and safes: "\<And>r. r \<in> set rs \<Longrightarrow> rule_safe c0 r" using Cons.prems(1) by simp_all
  note inv = Cons.prems(3) and le = Cons.prems(2) and pos = with_rules_Cons(3) [of b r rs]
  obtain dead where dead: "rule_defunct r s = (Inr dead, s)" using rule_defunct_safe [OF inv pos] by blast
  show ?case
  proof (cases dead)
    case True
    obtain res s1 where rc: "rule_cancel K r s = (res, s1)" by fastforce
    note c = rule_cancel_safe [OF safe le pos inv, of K, unfolded rc with_rules_Cons(2)]
    show ?thesis
      using c Cons.IH [OF safes order_trans [OF with_rules_mono le], of s1] dead True rc
      by (cases res) (simp_all add: loop_safe_simps)
  next
    case False
    let ?int = "bind (rl_interest r) (\<lambda>i. bind (FileDescriptor_fd_num (rl_fd r)) (\<lambda>n. returns (i, n))) s"
    obtain res s1 where ri: "?int = (res, s1)" by fastforce
    obtain res2 rs2 s2 where su: "poll_setup K rs s1 = (res2, rs2, s2)" by (metis prod.exhaust)
    note c = rule_interest_safe [OF safe le pos inv, unfolded ri]
    have IH: "loop_safe b (res2, r # rs2, s2)" if "fd_inv (with_rules b (r # rs)) s1"
      using Cons.IH [of ?b s1, OF safes le [unfolded with_rules_Cons(1)] that [unfolded with_rules_Cons(1)]]
      unfolding su loop_safe_Cons .
    show ?thesis
      using c IH dead False ri su
      by (cases res; cases res2)
         (auto simp: loop_safe_simps split: prod.splits)
  qed
qed

lemma poll_results_safe:
  assumes "\<And>r. r \<in> set rs \<Longrightarrow> rule_safe c0 r" "with_rules b rs \<le> c0" "fd_inv (with_rules b rs) s"
    and "length rs \<le> length pfs"
  shows "loop_safe b (poll_results K pfs rs s)"
  using assms
proof (induction rs arbitrary: b s pfs)
  case Nil
  then show ?case by (simp add: loop_safe_simps)
next
  case (Cons r rs)
  let ?b = "b(internal_fd (rl_fd r) := Suc (b (internal_fd (rl_fd r))))"
  have safe: "rule_safe c0 r" and safes: "\<And>r. r \<in> set rs \<Longrightarrow> rule_safe c0 r" using Cons.prems(1) by simp_all
  note inv = Cons.prems(3) and le = Cons.prems(2) and pos = with_rules_Cons(3) [of b r rs]
  obtain p ps where pfs: "pfs = p # ps" "length rs \<le> length ps" using Cons.prems(4) by (cases pfs) auto
  let ?ready = "pf_revents p AND pf_events p \<noteq> 0"
  obtain res s1 where rc: "rule_cancel K r s = (res, s1)" by fastforce
  note c = rule_cancel_safe [OF safe le pos inv, of K, unfolded rc with_rules_Cons(2)]
  have IHc: "loop_safe b (poll_results K ps rs s1)" if "fd_inv (with_rules b rs) s1"
    using Cons.IH [OF safes order_trans [OF with_rules_mono le] that pfs(2)] .
  obtain res' s1' where rv: "(if ?ready then rule_serve r else returns ()) s = (res', s1')" by fastforce
  then have v: "res' \<noteq> Inl undefined_behaviour" "fd_inv (with_rules b (r # rs)) s1'"
    using rule_serve_safe [OF safe le pos inv] inv by (auto split: if_splits)
  obtain res2 rs2 s2 where re: "poll_results K ps rs s1' = (res2, rs2, s2)" by (metis prod.exhaust)
  have IHv: "loop_safe b (res2, r # rs2, s2)"
    using Cons.IH [of ?b s1' ps, OF safes le [unfolded with_rules_Cons(1)] v(2) [unfolded with_rules_Cons(1)] pfs(2)]
    unfolding re loop_safe_Cons .
  have serve: "loop_safe b (case (if ?ready then rule_serve r else returns ()) s of (Inl e, s) \<Rightarrow> (Inl e, r # rs, s)
      | (Inr _, s) \<Rightarrow> (case poll_results K ps rs s of (res, rs', s) \<Rightarrow> (res, r # rs', s)))"
    unfolding rv using v IHv re
    by (cases res'; cases res2) (simp_all add: loop_safe_simps)
  have cancel: "loop_safe b (case rule_cancel K r s of (Inl e, s) \<Rightarrow> (Inl e, r # rs, s)
      | (Inr _, s) \<Rightarrow> poll_results K ps rs s)"
    unfolding rc using c IHc by (cases res) (simp_all add: loop_safe_simps)
  show ?case
    unfolding pfs(1) poll_results.simps Let_def using serve cancel inv
    by (simp only: loop_safe_simps cpp_failure.distinct not_False_eq_True simp_thms split: if_splits)
qed

section \<open>The poll array\<close>

text \<open>One fresh entry for each rule that is left.\<close>

lemma poll_setup_array:
  "poll_setup K rs s = (Inr (pfs, f), rs', s') \<Longrightarrow>
   length pfs = length rs' \<and> list_all (\<lambda>p. pf_revents p = 0) pfs"
proof (induction rs arbitrary: s pfs f rs')
  case (Cons r rs)
  from Cons.prems show ?case
    by (auto split: prod.splits sum.splits bool.splits if_splits dest: Cons.IH)
qed simp

lemma poll_results_quiet:
  "length rs \<le> length pfs \<Longrightarrow> list_all (\<lambda>p. pf_revents p = 0) pfs \<Longrightarrow> poll_results K pfs rs s = (Inr (), rs, s)"
proof (induction rs arbitrary: pfs)
  case (Cons r rs)
  then show ?case by (cases pfs) auto
qed simp

text \<open>
  The documented behaviour of \<open>poll(2)\<close>: it writes \<open>revents\<close> only, and a call that fails writes
  nothing and sets \<open>errno\<close>.
\<close>

definition poll_contract :: "'w kernel \<Rightarrow> bool" where
  "poll_contract K \<longleftrightarrow> (\<forall>pfs t w. let ((r, err), pfs', w') = sys_poll K pfs t w
     in map (\<lambda>p. p\<lparr>pf_revents := 0\<rparr>) pfs' = map (\<lambda>p. p\<lparr>pf_revents := 0\<rparr>) pfs \<and>
        (r < 0 \<longrightarrow> - (2 ^ 31) \<le> r \<and> err \<noteq> 0 \<and> pfs' = pfs))"

lemma poll_contractD:
  assumes "poll_contract K" "sys_poll K pfs t w = ((r, err), pfs', w')"
  shows "length pfs' = length pfs" "r < 0 \<Longrightarrow> - (2 ^ 31) \<le> r \<and> err \<noteq> 0 \<and> pfs' = pfs"
proof -
  have *: "map (\<lambda>p. p\<lparr>pf_revents := 0\<rparr>) pfs' = map (\<lambda>p. p\<lparr>pf_revents := 0\<rparr>) pfs \<and>
      (r < 0 \<longrightarrow> - (2 ^ 31) \<le> r \<and> err \<noteq> 0 \<and> pfs' = pfs)"
    using assms(1) [unfolded poll_contract_def, rule_format, of pfs t w] unfolding assms(2) by (simp add: Let_def)
  from arg_cong [OF conjunct1 [OF *], of length] show "length pfs' = length pfs" by simp
  show "r < 0 \<Longrightarrow> - (2 ^ 31) \<le> r \<and> err \<noteq> 0 \<and> pfs' = pfs" using * by blast
qed

lemma pipe_kernel_poll: "poll_contract pipe_kernel"
  by (simp add: poll_contract_def pipe_kernel_def)

text \<open>The outcomes of \<open>wait_next_event\<close>, by the phase that decides them.\<close>

lemma wait_next_event_cases:
  assumes "poll_setup K (el_rules el) s = (res, rs, s1)"
    and "\<And>pfs f. res = Inr (pfs, f) \<Longrightarrow> sys_poll K pfs t (mc_kernel s1) = ((r, err), pfs', k)"
  shows "EventLoop_wait_next_event K el t s =
    (case res of
       Inl e \<Rightarrow> (Inl e, el\<lparr>el_rules := rs\<rparr>, s1)
     | Inr (pfs, f) \<Rightarrow>
         if \<not> f then (Inr Exit, el\<lparr>el_rules := rs\<rparr>, s1)
         else if c_int r < 0 \<and> err \<noteq> 0 \<and> err = EINTR then (Inr Exit, el\<lparr>el_rules := rs\<rparr>, s1\<lparr>mc_kernel := k\<rparr>)
         else if c_int r = 0 then (Inr Timeout, el\<lparr>el_rules := rs\<rparr>, s1\<lparr>mc_kernel := k\<rparr>)
         else (case poll_results K pfs' rs (s1\<lparr>mc_kernel := k\<rparr>) of
             (Inl e, rs, s) \<Rightarrow> (Inl e, el\<lparr>el_rules := rs\<rparr>, s)
           | (Inr _, rs, s) \<Rightarrow> (Inr Success, el\<lparr>el_rules := rs\<rparr>, s)))"
  using assms(2)
  by (cases res) (auto simp: EventLoop_wait_next_event_def assms(1) SystemCall_def Let_def EINTR_def)

text \<open>Reading the rule's descriptor is a safe callback.\<close>

lemma fd_inv_update: "fd_inv c s \<Longrightarrow> fd_inv c (s\<lparr>mc_heap := (mc_heap s)(p \<mapsto> w)\<rparr>)"
  by (simp add: fd_inv_def)

lemma read_callback_safe:
  assumes "\<And>n. read_contract K n"
  shows "callback_safe c (internal_fd d) (bind (FileDescriptor_read K d limit) (\<lambda>_. returns ()))"
  unfolding callback_safe_def
proof (intro allI impI, elim conjE)
  fix c' and s :: "'a machine"
  assume c: "0 < c' (internal_fd d)" and inv: "fd_inv c' s"
  obtain w where live: "mc_heap s (internal_fd d) = Some w" by (rule fd_inv_live [of c' s, OF inv c])
  obtain r err data k where "sys_read K (fw_fd w) (min BUFFER_SIZE limit) (mc_kernel s) = ((r, err), data, k)"
    by (metis prod.exhaust)
  note rd = read_live [OF live assms this]
  show "fst (bind (FileDescriptor_read K d limit) (\<lambda>_. returns ()) s) \<noteq> Inl undefined_behaviour \<and>
      fd_inv c' (snd (bind (FileDescriptor_read K d limit) (\<lambda>_. returns ()) s))"
    using inv fd_inv_update [of c' "s\<lparr>mc_kernel := k\<rparr>"] by (cases "r < 0") (simp_all add: bind_def rd)
qed

text \<open>A loop with one rule that reads whenever its descriptor is readable.\<close>

definition reader_rule :: "pipe Rule" where
  "reader_rule = \<lparr>rl_fd = FileDescriptor 0, rl_direction = In,
     rl_callback = bind (FileDescriptor_read pipe_kernel (FileDescriptor 0) 10) (\<lambda>_. returns ()),
     rl_interest = returns True, rl_cancel = returns ()\<rparr>"

definition reader_state :: "pipe machine" where
  "reader_state = \<lparr>mc_heap = [0 \<mapsto> \<lparr>fw_fd = 3, fw_eof = False, fw_closed = False, fw_read_count = 0, fw_write_count = 0\<rparr>],
     mc_refs = (\<lambda>_. 0)(0 := 2), mc_next = 1, mc_kernel = \<lparr>pi_in = [1, 2, 3], pi_out = [], pi_closes = 0\<rparr>\<rparr>"

lemma reader_rule_safe: "rule_safe c reader_rule"
  using read_callback_safe [OF pipe_kernel_contracts(2), of c "FileDescriptor 0" 10]
  by (simp add: rule_safe_def reader_rule_def) (simp add: callback_safe_def)

lemma reader_setup:
  "poll_setup K [reader_rule] reader_state =
     (Inr ([\<lparr>pf_fd = 3, pf_events = POLLIN, pf_revents = 0\<rparr>], True), [reader_rule], reader_state)"
  by (simp add: reader_rule_def reader_state_def rule_defunct_def bind_def accessors_live)

section \<open>Properties\<close>

text \<open>
  \<open>wait_next_event\<close> is memory safe with respect to the shared handles and the poll array:
  as long as the callbacks do nothing undefined and release no handle they do not own, it never
  accesses a destroyed descriptor and never reads \<open>pollfds\<close> out of range, however it ends, and
  afterwards every rule that is left still owns a live handle.
\<close>

theorem EventLoop_memory_safe:
  assumes "\<And>r. r \<in> set (el_rules el) \<Longrightarrow> rule_safe (rule_count (el_rules el)) r"
    and "fd_inv (rule_count (el_rules el)) s" and "poll_contract K"
  shows "case EventLoop_wait_next_event K el timeout_ms s of (res, el', s') \<Rightarrow>
    res \<noteq> Inl undefined_behaviour \<and> fd_inv (rule_count (el_rules el')) s'"
proof -
  obtain res rs s1 where su: "poll_setup K (el_rules el) s = (res, rs, s1)" by (metis prod.exhaust)
  have safe: "res \<noteq> Inl undefined_behaviour" "fd_inv (rule_count rs) s1"
    using poll_setup_safe [of "el_rules el" "rule_count (el_rules el)" "\<lambda>_. 0" s K] assms(1,2)
    by (simp_all add: su loop_safe_def)
  have sub: "subseq rs (el_rules el)" using poll_setup_subseq [of K "el_rules el" s] by (simp add: su)
  show ?thesis
  proof (cases res)
    case (Inl e)
    then show ?thesis using safe by (simp add: EventLoop_wait_next_event_def su)
  next
    case (Inr x)
    obtain pfs f where x: "x = (pfs, f)" by fastforce
    obtain r err pfs' k where po: "sys_poll K pfs timeout_ms (mc_kernel s1) = ((r, err), pfs', k)"
      by (metis prod.exhaust)
    have len: "length rs \<le> length pfs'"
      using poll_setup_array [OF su [unfolded Inr x]] poll_contractD(1) [OF assms(3) po] by simp
    have "rule_count rs \<le> rule_count (el_rules el)"
      unfolding rule_count_def le_fun_def using list_emb_length [OF subseq_filter [OF sub]] by blast
    then have "loop_safe (\<lambda>_. 0) (poll_results K pfs' rs (s1\<lparr>mc_kernel := k\<rparr>))"
      using assms(1) safe(2) len list_emb_set [OF sub]
      by (intro poll_results_safe [of rs "rule_count (el_rules el)"]) auto
    then show ?thesis
      using wait_next_event_cases [OF su, of timeout_ms r err pfs' k] po Inr x safe
      by (auto simp: loop_safe_def split: prod.splits sum.splits)
  qed
qed

theorem EventLoop_memory_safe_witness:
  "case EventLoop_wait_next_event pipe_kernel \<lparr>el_rules = [reader_rule]\<rparr> 1000 reader_state of (res, el', s') \<Rightarrow>
     res \<noteq> Inl undefined_behaviour \<and> fd_inv (rule_count (el_rules el')) s'"
proof (rule EventLoop_memory_safe [OF _ _ pipe_kernel_poll])
  show "rule_safe (rule_count (el_rules \<lparr>el_rules = [reader_rule]\<rparr>)) r" if "r \<in> set (el_rules \<lparr>el_rules = [reader_rule]\<rparr>)" for r
    using that reader_rule_safe by simp
  show "fd_inv (rule_count (el_rules \<lparr>el_rules = [reader_rule]\<rparr>)) reader_state"
    by (simp add: fd_inv_def rule_count_def reader_rule_def reader_state_def)
qed

text \<open>
  Whatever happens, exceptions included, \<open>wait_next_event\<close> only removes rules: those left
  are some of the old ones, unchanged and in the old order.
\<close>

theorem EventLoop_rules_only_removed:
  "subseq (el_rules (fst (snd (EventLoop_wait_next_event K el timeout_ms s)))) (el_rules el)"
proof -
  obtain res rs s1 where su: "poll_setup K (el_rules el) s = (res, rs, s1)" by (metis prod.exhaust)
  have sub: "subseq rs (el_rules el)" using poll_setup_subseq [of K "el_rules el" s] by (simp add: su)
  have "\<exists>r err pfs' k. \<forall>pfs f. res = Inr (pfs, f) \<longrightarrow> sys_poll K pfs timeout_ms (mc_kernel s1) = ((r, err), pfs', k)"
    by (cases res) (auto, metis prod.exhaust)
  then obtain r err pfs' k where
    po: "\<And>pfs f. res = Inr (pfs, f) \<Longrightarrow> sys_poll K pfs timeout_ms (mc_kernel s1) = ((r, err), pfs', k)" by blast
  have "subseq (fst (snd (poll_results K pfs' rs (s1\<lparr>mc_kernel := k\<rparr>)))) (el_rules el)"
    using poll_results_subseq sub by (rule subseq_order.order_trans)
  then show ?thesis
    using wait_next_event_cases [OF su, of timeout_ms r err pfs' k] po sub
    by (cases res) (auto split: prod.splits sum.splits)
qed

text \<open>
  Claim C35. A failing \<open>poll(2)\<close> is not reported: unless it was interrupted by a signal, the exception
  is caught and dropped, and \<open>wait_next_event\<close> returns \<open>Success\<close> although no descriptor was ready and no
  callback ran.
\<close>

theorem EventLoop_poll_error_swallowed:
  assumes "poll_setup K (el_rules el) s = (Inr (pfs, True), rs, s1)" and "poll_contract K"
    and "sys_poll K pfs timeout_ms (mc_kernel s1) = ((r, err), pfs', k)" and "r < 0" and "err \<noteq> EINTR"
  shows "EventLoop_wait_next_event K el timeout_ms s = (Inr Success, el\<lparr>el_rules := rs\<rparr>, s1\<lparr>mc_kernel := k\<rparr>)"
proof -
  have "- (2 ^ 31) \<le> r" "pfs' = pfs" using poll_contractD(2) [OF assms(2,3,4)] by simp_all
  then have "c_int r < 0" using assms(4) by (simp add: c_int_small)
  moreover have "poll_results K pfs' rs (s1\<lparr>mc_kernel := k\<rparr>) = (Inr (), rs, s1\<lparr>mc_kernel := k\<rparr>)"
    using poll_setup_array [OF assms(1)] \<open>pfs' = pfs\<close> by (intro poll_results_quiet) simp_all
  ultimately show ?thesis
    using wait_next_event_cases [OF assms(1), of timeout_ms r err pfs' k] assms(3,5) by simp
qed

theorem EventLoop_poll_error_swallowed_witness:
  "EventLoop_wait_next_event (pipe_kernel\<lparr>sys_poll := (\<lambda>fds _ w. ((- 1, 12), fds, w))\<rparr>)
     \<lparr>el_rules = [reader_rule]\<rparr> 1000 reader_state = (Inr Success, \<lparr>el_rules = [reader_rule]\<rparr>, reader_state)"
proof -
  let ?K = "pipe_kernel\<lparr>sys_poll := (\<lambda>fds _ w. ((- 1, 12), fds, w))\<rparr>"
  let ?pfs = "[\<lparr>pf_fd = 3, pf_events = POLLIN, pf_revents = 0\<rparr>]"
  have contract: "poll_contract ?K" by (simp add: poll_contract_def)
  have su: "poll_setup ?K (el_rules \<lparr>el_rules = [reader_rule]\<rparr>) reader_state =
      (Inr (?pfs, True), [reader_rule], reader_state)"
    by (simp only: EventLoop.select_convs reader_setup)
  show ?thesis
    using EventLoop_poll_error_swallowed [OF su contract, of 1000 "- 1" 12 ?pfs "mc_kernel reader_state"]
    by (simp add: EINTR_def)
qed

end
