(* ===== verification/Event_Loop_Service.thy ===== *)
theory Event_Loop_Service
  imports Event_Loop
begin

unbundle bit_operations_syntax

text \<open>
  What the event loop does with its rules. The callbacks write to a log, a part of the kernel's state
  nothing else touches; the log then says which rules \<open>wait_next_event\<close> served and which it cancelled,
  and in which order. The last section is about sessions: rules are added, the loop waits, and the
  application works in between.
\<close>

section \<open>The log\<close>

datatype 'n loop_event = Served 'n | Cancelled 'n

text \<open>
  The callback and \<open>cancel\<close> of a rule with the name \<open>nm r\<close> log their run, also when they throw; \<open>interest\<close> and
  \<open>cancel\<close> leave the descriptors alone.
\<close>

definition logged :: "('w \<Rightarrow> 'n loop_event list) \<Rightarrow> ('w machine, 'a) action \<Rightarrow> 'n loop_event list \<Rightarrow> bool" where
  "logged lg m evs \<longleftrightarrow> (\<forall>s. lg (mc_kernel (snd (m s))) = lg (mc_kernel s) @ evs)"

definition kernel_only :: "('w machine, 'a) action \<Rightarrow> bool" where
  "kernel_only m \<longleftrightarrow> (\<forall>s. fst (m s) \<noteq> Inl undefined_behaviour \<and> mc_heap (snd (m s)) = mc_heap s \<and> mc_refs (snd (m s)) = mc_refs s)"

definition rule_logs :: "('w \<Rightarrow> 'n loop_event list) \<Rightarrow> ('w Rule \<Rightarrow> 'n) \<Rightarrow> 'w Rule \<Rightarrow> bool" where
  "rule_logs lg nm r \<longleftrightarrow> logged lg (rl_callback r) [Served (nm r)] \<and> logged lg (rl_cancel r) [Cancelled (nm r)] \<and>
     logged lg (rl_interest r) [] \<and> kernel_only (rl_interest r) \<and> kernel_only (rl_cancel r)"

text \<open>The kernel does not write to the log.\<close>

definition log_frame :: "'w kernel \<Rightarrow> ('w \<Rightarrow> 'n loop_event list) \<Rightarrow> bool" where
  "log_frame K lg \<longleftrightarrow> (\<forall>n w. lg (snd (sys_close K n w)) = lg w) \<and> (\<forall>pfs t w. lg (snd (snd (sys_poll K pfs t w))) = lg w)"

lemma loggedD: "logged lg m evs \<Longrightarrow> m s = (res, s') \<Longrightarrow> lg (mc_kernel s') = lg (mc_kernel s) @ evs"
  unfolding logged_def by (metis snd_conv)

lemma logged_returns [simp]: "logged lg (returns x) []"
  by (simp add: logged_def)

text \<open>What follows a logged action without logging keeps its log, whether it runs or not.\<close>

lemma logged_bind: "logged lg m evs \<Longrightarrow> (\<And>x. logged lg (f x) []) \<Longrightarrow> logged lg (bind m f) evs"
  by (simp add: logged_def bind_def split: prod.split sum.split) (metis snd_conv)

lemma destroy_log:
  assumes "log_frame K lg"
  shows "logged lg (FileDescriptor_destroy K d) []"
proof -
  have close: "lg (snd (sys_close K n w)) = lg w" for n w using assms by (simp add: log_frame_def)
  have "logged lg (FDWrapper_destroy K p) []" for p
    using close by (auto simp: logged_def FDWrapper_destroy_def FDWrapper_close_def catch_exception_def bind_def wrapper_at_def
        update_wrapper_def kernel_call_def case_prod_unfold split: option.splits sum.splits)
  then have "logged lg (bind (FDWrapper_destroy K p) (\<lambda>_ s. (Inr (), s\<lparr>mc_heap := (mc_heap s)(p := None)\<rparr>))) []" for p
    by (rule logged_bind) (simp add: logged_def)
  then show ?thesis by (simp add: logged_def FileDescriptor_destroy_def Let_def)
qed

lemma rule_cancel_log: "log_frame K lg \<Longrightarrow> rule_logs lg nm r \<Longrightarrow> logged lg (rule_cancel K r) [Cancelled (nm r)]"
  unfolding rule_cancel_def rule_logs_def by (intro logged_bind destroy_log) simp_all

lemma service_count_pure: "snd (Rule_service_count r s) = s"
  by (simp add: Rule_service_count_def FileDescriptor_read_count_def FileDescriptor_write_count_def bind_def wrapper_at_def
      split: option.split)

lemma service_count_throws: "Rule_service_count r s = (Inl e, s') \<Longrightarrow> e = undefined_behaviour"
  by (auto simp: Rule_service_count_def FileDescriptor_read_count_def FileDescriptor_write_count_def bind_def wrapper_at_def
      split: option.splits if_splits)

text \<open>The exceptions of serving a rule: its callback or \<open>interest\<close> threw \<open>e\<close>, or it was found in a busy wait.\<close>

definition serving_throws :: "'w Rule \<Rightarrow> cpp_failure \<Rightarrow> bool" where
  "serving_throws r e \<longleftrightarrow> (\<exists>t. fst (rl_callback r t) = Inl e) \<or> (\<exists>t. fst (rl_interest r t) = Inl e) \<or>
     e = runtime_error ''EventLoop: busy wait detected: callback did not read/write fd and is still interested''"

definition cancel_throws :: "'w Rule \<Rightarrow> cpp_failure \<Rightarrow> bool" where
  "cancel_throws r e \<longleftrightarrow> (\<exists>t. fst (rl_cancel r t) = Inl e)"

lemma destroy_throws: "FileDescriptor_destroy K d s = (Inl e, s') \<Longrightarrow> e = undefined_behaviour"
  by (auto simp: FileDescriptor_destroy_def FDWrapper_destroy_def FDWrapper_close_def catch_exception_def bind_def wrapper_at_def
      update_wrapper_def kernel_call_def Let_def split: option.splits sum.splits if_splits prod.splits cpp_failure.splits)

lemma rule_cancel_throws: "rule_cancel K r s = (Inl e, s') \<Longrightarrow> e = undefined_behaviour \<or> cancel_throws r e"
  by (auto simp: rule_cancel_def bind_def cancel_throws_def split: prod.splits sum.splits dest: destroy_throws) (metis fst_conv)

lemma rule_serve_log:
  assumes "rule_logs lg nm r" "rule_serve r s = (res, s')"
  shows "lg (mc_kernel s') = lg (mc_kernel s) @ [Served (nm r)] \<and> (\<forall>e. res = Inl e \<longrightarrow> e = undefined_behaviour \<or> serving_throws r e) \<or>
    res = Inl undefined_behaviour \<and> lg (mc_kernel s') = lg (mc_kernel s)"
proof -
  have logs: "logged lg (rl_callback r) [Served (nm r)]" "logged lg (rl_interest r) []" using assms(1) by (simp_all add: rule_logs_def)
  obtain c0 where count: "Rule_service_count r s = (c0, s)" by (metis service_count_pure prod.collapse)
  obtain res1 s1 where cb: "rl_callback r s = (res1, s1)" by fastforce
  obtain c1 where count1: "Rule_service_count r s1 = (c1, s1)" by (metis service_count_pure prod.collapse)
  obtain res2 s2 where int: "rl_interest r s1 = (res2, s2)" by fastforce
  have "lg (mc_kernel s1) = lg (mc_kernel s) @ [Served (nm r)]" "lg (mc_kernel s2) = lg (mc_kernel s1)"
    using loggedD [OF logs(1) cb] loggedD [OF logs(2) int] by simp_all
  moreover have "serving_throws r e" if "res1 = Inl e \<or> res2 = Inl e" for e
    using that cb int unfolding serving_throws_def by (metis fst_conv)
  ultimately show ?thesis
    using assms(2) service_count_throws [of r s] service_count_throws [of r s1]
    by (auto simp: rule_serve_def bind_def count cb count1 int serving_throws_def split: sum.splits if_splits)
qed

section \<open>The second loop\<close>

definition pf_failed :: "pollfd \<Rightarrow> bool" where
  "pf_failed p \<longleftrightarrow> pf_revents p AND (POLLERR OR POLLNVAL) \<noteq> 0"

definition pf_ready :: "pollfd \<Rightarrow> bool" where
  "pf_ready p \<longleftrightarrow> pf_revents p AND pf_events p \<noteq> 0"

definition pf_hung_up :: "pollfd \<Rightarrow> bool" where
  "pf_hung_up p \<longleftrightarrow> pf_revents p AND POLLHUP \<noteq> 0 \<and> pf_events p \<noteq> 0 \<and> \<not> pf_ready p"

text \<open>What a rule with the entry \<open>p\<close> in the poll array is due.\<close>

definition rule_due :: "('w Rule \<Rightarrow> 'n) \<Rightarrow> pollfd \<times> 'w Rule \<Rightarrow> 'n loop_event list" where
  "rule_due nm = (\<lambda>(p, r). if pf_hung_up p then [Cancelled (nm r)] else if pf_ready p then [Served (nm r)] else [])"

abbreviation dues :: "('w Rule \<Rightarrow> 'n) \<Rightarrow> pollfd list \<Rightarrow> 'w Rule list \<Rightarrow> 'n loop_event list" where
  "dues nm pfs rs \<equiv> concat (map (rule_due nm) (zip pfs rs))"

definition survivors :: "pollfd list \<Rightarrow> 'w Rule list \<Rightarrow> 'w Rule list" where
  "survivors pfs rs = map snd (filter (\<lambda>x. \<not> pf_hung_up (fst x)) (zip pfs rs))"

lemma survivors_simps [simp]:
  "survivors [] rs = []" "survivors pfs [] = []"
  "survivors (p # pfs) (r # rs) = (if pf_hung_up p then survivors pfs rs else r # survivors pfs rs)"
  by (simp_all add: survivors_def)

lemma poll_results_Cons:
  "poll_results K (p # pfs) (r # rs) s =
     (if pf_failed p then (Inl (runtime_error ''EventLoop: error on polled file descriptor''), r # rs, s)
      else if pf_hung_up p
      then (case rule_cancel K r s of (Inl e, s) \<Rightarrow> (Inl e, r # rs, s) | (Inr _, s) \<Rightarrow> poll_results K pfs rs s)
      else (case (if pf_ready p then rule_serve r else returns ()) s of
              (Inl e, s) \<Rightarrow> (Inl e, r # rs, s)
            | (Inr _, s) \<Rightarrow> (case poll_results K pfs rs s of (res, rs', s) \<Rightarrow> (res, r # rs', s))))"
  by (simp add: pf_failed_def pf_hung_up_def pf_ready_def Let_def)

text \<open>
  An exception \<open>e\<close> leaves the second loop at a rule \<open>r\<close>: all entries before its own are without error and
  what they were due has run. At an entry with an error nothing runs. Otherwise the rule is due, and \<open>cancel\<close>
  or the callback threw. A handle that a callback has destroyed may be missed before the callback runs.
\<close>

definition results_stop :: "('w Rule \<Rightarrow> 'n) \<Rightarrow> cpp_failure \<Rightarrow> pollfd list \<Rightarrow> 'w Rule list \<Rightarrow> 'w Rule list \<Rightarrow> 'n loop_event list \<Rightarrow> bool" where
  "results_stop nm e pfs rs rs' evs \<longleftrightarrow> (\<exists>ps1 p ps2 rs1 r rs2. pfs = ps1 @ p # ps2 \<and> rs = rs1 @ r # rs2 \<and> length ps1 = length rs1 \<and>
     list_all (\<lambda>p. \<not> pf_failed p) ps1 \<and> rs' = survivors ps1 rs1 @ r # rs2 \<and>
     (if pf_failed p then e = runtime_error ''EventLoop: error on polled file descriptor'' \<and> evs = dues nm ps1 rs1
      else if pf_hung_up p then (e = undefined_behaviour \<or> cancel_throws r e) \<and> evs = dues nm ps1 rs1 @ [Cancelled (nm r)]
      else pf_ready p \<and> (e = undefined_behaviour \<and> evs = dues nm ps1 rs1 \<or>
        (e = undefined_behaviour \<or> serving_throws r e) \<and> evs = dues nm ps1 rs1 @ [Served (nm r)])))"

lemma results_stop_here:
  "pf_failed p \<Longrightarrow> results_stop nm (runtime_error ''EventLoop: error on polled file descriptor'') (p # pfs) (r # rs) (r # rs) []"
  "\<not> pf_failed p \<Longrightarrow> pf_hung_up p \<Longrightarrow> e = undefined_behaviour \<or> cancel_throws r e \<Longrightarrow>
     results_stop nm e (p # pfs) (r # rs) (r # rs) [Cancelled (nm r)]"
  "\<not> pf_failed p \<Longrightarrow> \<not> pf_hung_up p \<Longrightarrow> pf_ready p \<Longrightarrow> e = undefined_behaviour \<and> evs = [] \<or>
     (e = undefined_behaviour \<or> serving_throws r e) \<and> evs = [Served (nm r)] \<Longrightarrow> results_stop nm e (p # pfs) (r # rs) (r # rs) evs"
  unfolding results_stop_def by (intro exI [of _ "[]"] exI [of _ p] exI [of _ pfs] exI [of _ r] exI [of _ rs], simp)+

lemma results_stop_later:
  assumes "results_stop nm e pfs rs rs' evs" "\<not> pf_failed p"
  shows "results_stop nm e (p # pfs) (r # rs) (if pf_hung_up p then rs' else r # rs') (rule_due nm (p, r) @ evs)"
proof -
  from assms(1) obtain ps1 q ps2 rs1 t rs2 where *: "pfs = ps1 @ q # ps2" "rs = rs1 @ t # rs2" "length ps1 = length rs1"
     "list_all (\<lambda>p. \<not> pf_failed p) ps1" "rs' = survivors ps1 rs1 @ t # rs2" and
     here: "if pf_failed q then e = runtime_error ''EventLoop: error on polled file descriptor'' \<and> evs = dues nm ps1 rs1
      else if pf_hung_up q then (e = undefined_behaviour \<or> cancel_throws t e) \<and> evs = dues nm ps1 rs1 @ [Cancelled (nm t)]
      else pf_ready q \<and> (e = undefined_behaviour \<and> evs = dues nm ps1 rs1 \<or>
        (e = undefined_behaviour \<or> serving_throws t e) \<and> evs = dues nm ps1 rs1 @ [Served (nm t)])"
    unfolding results_stop_def by blast
  show ?thesis
    unfolding results_stop_def
    by (intro exI [of _ "p # ps1"] exI [of _ q] exI [of _ ps2] exI [of _ "r # rs1"] exI [of _ t] exI [of _ rs2])
      (use * here assms(2) in \<open>auto split: if_splits\<close>)
qed

lemma poll_results_log:
  assumes "log_frame K lg" "list_all (rule_logs lg nm) rs" "length pfs = length rs" "poll_results K pfs rs s = (res, rs', s')"
  shows "case res of
      Inl e \<Rightarrow> \<exists>evs. lg (mc_kernel s') = lg (mc_kernel s) @ evs \<and> results_stop nm e pfs rs rs' evs
    | Inr _ \<Rightarrow> lg (mc_kernel s') = lg (mc_kernel s) @ dues nm pfs rs \<and> list_all (\<lambda>p. \<not> pf_failed p) pfs \<and> rs' = survivors pfs rs"
  using assms(3,2,4)
proof (induction pfs rs arbitrary: s res rs' s' rule: list_induct2)
  case Nil
  then show ?case by auto
next
  case (Cons p pfs r rs)
  have log: "rule_logs lg nm r" and logs: "list_all (rule_logs lg nm) rs" using Cons.prems(1) by simp_all
  note run = Cons.prems(2) [unfolded poll_results_Cons]
  consider "pf_failed p" | "\<not> pf_failed p" "pf_hung_up p" | "\<not> pf_failed p" "\<not> pf_hung_up p" by blast
  then show ?case
  proof cases
    case 1
    then show ?thesis using run by (auto intro: results_stop_here(1))
  next
    case 2
    obtain x s1 where rc: "rule_cancel K r s = (x, s1)" by fastforce
    have due: "rule_due nm (p, r) = [Cancelled (nm r)]" using 2 by (simp add: rule_due_def)
    note l = loggedD [OF rule_cancel_log [OF assms(1) log] rc]
    show ?thesis
    proof (cases x)
      case (Inl e)
      then have "e = undefined_behaviour \<or> cancel_throws r e" using rc rule_cancel_throws by metis
      then show ?thesis using run 2 rc l Inl by (auto intro: results_stop_here(2))
    next
      case (Inr u)
      then have re: "poll_results K pfs rs s1 = (res, rs', s')" using run 2 rc by simp
      show ?thesis
        using Cons.IH [OF logs re] l 2 due results_stop_later [of nm _ pfs rs rs' _ p r] by (cases res) fastforce+
    qed
  next
    case 3
    have due: "rule_due nm (p, r) = (if pf_ready p then [Served (nm r)] else [])" using 3 by (simp add: rule_due_def)
    obtain x s1 where rv: "(if pf_ready p then rule_serve r else returns ()) s = (x, s1)" by fastforce
    show ?thesis
    proof (cases x)
      case (Inl e)
      then have ready: "pf_ready p" and "rule_serve r s = (Inl e, s1)" using rv by (simp_all split: if_splits)
      from rule_serve_log [OF log this(2)] show ?thesis
        using run 3 rv Inl ready by (auto intro!: results_stop_here(3))
    next
      case (Inr u)
      obtain rs2 where re: "poll_results K pfs rs s1 = (res, rs2, s')" and rs': "rs' = r # rs2"
        using run 3 rv Inr by (auto split: prod.splits)
      have "lg (mc_kernel s1) = lg (mc_kernel s) @ rule_due nm (p, r)"
        using rv Inr rule_serve_log [OF log, of s x s1] due by (auto split: if_splits)
      then show ?thesis
        using Cons.IH [OF logs re] 3 rs' results_stop_later [of nm _ pfs rs rs2 _ p r] by (cases res) fastforce+
    qed
  qed
qed

section \<open>The first loop\<close>

definition rule_dead :: "'w machine \<Rightarrow> 'w Rule \<Rightarrow> bool" where
  "rule_dead s r = (case mc_heap s (internal_fd (rl_fd r)) of None \<Rightarrow> False
     | Some w \<Rightarrow> rl_direction r = In \<and> fw_eof w \<or> fw_closed w)"

abbreviation dead_rules :: "'w machine \<Rightarrow> 'w Rule list \<Rightarrow> 'w Rule list" where
  "dead_rules s rs \<equiv> filter (rule_dead s) rs"

abbreviation live_rules :: "'w machine \<Rightarrow> 'w Rule list \<Rightarrow> 'w Rule list" where
  "live_rules s rs \<equiv> filter (\<lambda>r. \<not> rule_dead s r) rs"

abbreviation cancellations :: "('w Rule \<Rightarrow> 'n) \<Rightarrow> 'w Rule list \<Rightarrow> 'n loop_event list" where
  "cancellations nm rs \<equiv> map (Cancelled \<circ> nm) rs"

text \<open>The entry of a rule in the poll array before the call: it asks for events if \<open>interest\<close> said so.\<close>

definition asks_for :: "'w machine \<Rightarrow> 'w Rule \<Rightarrow> pollfd \<Rightarrow> bool" where
  "asks_for s r p \<longleftrightarrow> map_option fw_fd (mc_heap s (internal_fd (rl_fd r))) = Some (pf_fd p) \<and>
     (\<exists>t interested. fst (rl_interest r t) = Inr interested \<and>
       pf_events p = (if interested then Direction_value (rl_direction r) else 0)) \<and> pf_revents p = 0"

lemma rule_defunct_eq:
  "fd_inv c s \<Longrightarrow> 0 < c (internal_fd (rl_fd r)) \<Longrightarrow> rule_defunct r s = (Inr (rule_dead s r), s)"
  by (erule fd_inv_live, assumption) (auto simp: rule_defunct_def rule_dead_def bind_def accessors_live)

lemma kernel_only_run:
  assumes "kernel_only m" "m s = (res, s')"
  shows "res \<noteq> Inl undefined_behaviour" "mc_heap s' = mc_heap s" "mc_refs s' = mc_refs s"
  using assms unfolding kernel_only_def by (metis fst_conv snd_conv)+

lemma fd_inv_cong: "mc_heap s' = mc_heap s \<Longrightarrow> mc_refs s' = mc_refs s \<Longrightarrow> fd_inv c s' = fd_inv c s"
  by (simp add: fd_inv_def)

text \<open>Dropping a handle changes no wrapper that another handle still needs.\<close>

lemma destroy_keeps:
  assumes "fd_inv c s" "FileDescriptor_destroy K d s = (res, s')" "0 < c (internal_fd d)"
    and "0 < (c(internal_fd d := c (internal_fd d) - 1)) q"
  shows "mc_heap s' q = mc_heap s q"
proof (cases "mc_refs s (internal_fd d) - 1 = 0")
  case True
  then have "c (internal_fd d) \<le> 1" using assms(1) unfolding fd_inv_def by (metis diff_is_0_eq le_trans)
  then have q: "q \<noteq> internal_fd d" using assms(4) by auto
  have "mc_heap (snd (FDWrapper_destroy K (internal_fd d) t)) q = mc_heap t q" for t
    using q by (auto simp: FDWrapper_destroy_def FDWrapper_close_def catch_exception_def bind_def wrapper_at_def
        update_wrapper_def kernel_call_def case_prod_unfold split: option.splits sum.splits)
  from this [of "s\<lparr>mc_refs := (mc_refs s)(internal_fd d := 0)\<rparr>"] show ?thesis
    using assms(2) True q by (auto simp: FileDescriptor_destroy_def Let_def bind_def split: prod.splits sum.splits)
next
  case False
  then show ?thesis using assms(2) by (auto simp: FileDescriptor_destroy_def Let_def)
qed

lemma rule_cancel_keeps:
  assumes "rule_logs lg nm r" "fd_inv (with_rules b (r # rs)) s" "rule_cancel K r s = (res, s')"
  shows "res \<noteq> Inl undefined_behaviour"
    and "res = Inr () \<Longrightarrow> fd_inv (with_rules b rs) s' \<and> (\<forall>q. 0 < with_rules b rs q \<longrightarrow> mc_heap s' q = mc_heap s q)"
proof -
  have only: "kernel_only (rl_cancel r)" using assms(1) by (simp add: rule_logs_def)
  obtain x s1 where c: "rl_cancel r s = (x, s1)" by fastforce
  note k = kernel_only_run [OF only c]
  have inv: "fd_inv (with_rules b (r # rs)) s1" using assms(2) fd_inv_cong [OF k(2,3)] by blast
  obtain s2 where d: "FileDescriptor_destroy K (rl_fd r) s1 = (Inr (), s2)" "fd_inv (with_rules b rs) s2"
    using destroy_safe [OF inv with_rules_Cons(3) [of b r rs]] unfolding with_rules_Cons(2) by blast
  have keep: "mc_heap s2 q = mc_heap s1 q" if "0 < with_rules b rs q" for q
    using destroy_keeps [OF inv d(1) with_rules_Cons(3) [of b r rs], unfolded with_rules_Cons(2), of q] that .
  show "res \<noteq> Inl undefined_behaviour" using assms(3) c d k(1) by (auto simp: rule_cancel_def bind_def split: sum.splits)
  show "fd_inv (with_rules b rs) s' \<and> (\<forall>q. 0 < with_rules b rs q \<longrightarrow> mc_heap s' q = mc_heap s q)" if "res = Inr ()"
    using assms(3) that c d keep k(2) by (auto simp: rule_cancel_def bind_def split: sum.splits)
qed

lemma Direction_value_nonzero [simp]: "Direction_value d \<noteq> 0"
  by (cases d) (simp_all add: POLLIN_def POLLOUT_def)

text \<open>
  What the first loop leaves of the rules \<open>rs\<close>, judged in the state \<open>s\<close>, if the log was \<open>l\<close> before: the
  dead rules are cancelled, and the live rules and their poll array are left. An exception leaves it at a
  rule \<open>r\<close> whose \<open>cancel\<close> or \<open>interest\<close> threw, with the rules after it as they were.
\<close>

definition setup_stop :: "('w Rule \<Rightarrow> 'n) \<Rightarrow> 'w machine \<Rightarrow> cpp_failure \<Rightarrow> 'w Rule list \<Rightarrow> 'w Rule list \<Rightarrow> 'n loop_event list \<Rightarrow> bool" where
  "setup_stop nm s e rs rs' evs \<longleftrightarrow> (\<exists>rs1 r rs2. rs = rs1 @ r # rs2 \<and> rs' = live_rules s rs1 @ r # rs2 \<and>
     evs = cancellations nm (dead_rules s (rs1 @ [r])) \<and>
     (if rule_dead s r then cancel_throws r e else \<exists>t. fst (rl_interest r t) = Inl e))"

definition setup_spec :: "('w \<Rightarrow> 'n loop_event list) \<Rightarrow> ('w Rule \<Rightarrow> 'n) \<Rightarrow> 'w machine \<Rightarrow> 'w Rule list \<Rightarrow> 'n loop_event list
    \<Rightarrow> (cpp_failure + pollfd list \<times> bool) \<times> 'w Rule list \<times> 'w machine \<Rightarrow> bool" where
  "setup_spec lg nm s rs l = (\<lambda>(res, rs', s'). case res of
      Inl e \<Rightarrow> \<exists>evs. lg (mc_kernel s') = l @ evs \<and> setup_stop nm s e rs rs' evs
    | Inr (pfs, something_to_poll) \<Rightarrow> lg (mc_kernel s') = l @ cancellations nm (dead_rules s rs) \<and> rs' = live_rules s rs \<and>
        list_all2 (asks_for s) (live_rules s rs) pfs \<and> (something_to_poll \<longleftrightarrow> (\<exists>p\<in>set pfs. pf_events p \<noteq> 0)))"

lemma setup_stop_later:
  assumes "setup_stop nm s e rs rs' evs"
  shows "setup_stop nm s e (r # rs) (if rule_dead s r then rs' else r # rs') ((if rule_dead s r then [Cancelled (nm r)] else []) @ evs)"
proof -
  from assms obtain rs1 t rs2 where *: "rs = rs1 @ t # rs2" "rs' = live_rules s rs1 @ t # rs2"
    "evs = cancellations nm (dead_rules s (rs1 @ [t]))"
    "if rule_dead s t then cancel_throws t e else \<exists>u. fst (rl_interest t u) = Inl e"
    unfolding setup_stop_def by blast
  show ?thesis
    unfolding setup_stop_def by (intro exI [of _ "r # rs1"] exI [of _ t] exI [of _ rs2]) (use * in auto)
qed

lemma setup_spec_dead:
  "rule_dead s r \<Longrightarrow> setup_spec lg nm s rs (l @ [Cancelled (nm r)]) out \<Longrightarrow> setup_spec lg nm s (r # rs) l out"
  unfolding setup_spec_def using setup_stop_later [of nm s _ rs _ _ r] by (fastforce split: prod.splits sum.splits)

lemma setup_spec_throw:
  "if rule_dead s r then cancel_throws r e else \<exists>t. fst (rl_interest r t) = Inl e \<Longrightarrow>
   lg (mc_kernel s') = l @ (if rule_dead s r then [Cancelled (nm r)] else []) \<Longrightarrow> setup_spec lg nm s (r # rs) l (Inl e, r # rs, s')"
  unfolding setup_spec_def setup_stop_def prod.case sum.case
  by (intro exI [of _ "if rule_dead s r then [Cancelled (nm r)] else []"] conjI exI [of _ "[]"] exI [of _ r] exI [of _ rs]) simp_all

lemma setup_spec_live:
  "\<not> rule_dead s r \<Longrightarrow> asks_for s r p \<Longrightarrow> setup_spec lg nm s rs l (res, rs', s') \<Longrightarrow>
   setup_spec lg nm s (r # rs) l (case res of Inl e \<Rightarrow> (Inl e, r # rs', s')
     | Inr (pollfds, something_to_poll) \<Rightarrow> (Inr (p # pollfds, pf_events p \<noteq> 0 \<or> something_to_poll), r # rs', s'))"
  unfolding setup_spec_def using setup_stop_later [of nm s _ rs rs' _ r] by (cases res) fastforce+

text \<open>Rules whose descriptors did not change are judged the same.\<close>

lemma setup_spec_same:
  assumes "\<forall>q. 0 < with_rules b rs q \<longrightarrow> mc_heap s' q = mc_heap s q"
  shows "setup_spec lg nm s' rs = setup_spec lg nm s rs"
proof -
  have same: "mc_heap s' (internal_fd (rl_fd r)) = mc_heap s (internal_fd (rl_fd r))" if "r \<in> set rs" for r
    using assms that by (auto simp: rule_count_def filter_empty_conv)
  then have dead: "rule_dead s' r = rule_dead s r" if "r \<in> set rs" for r using that by (simp add: rule_dead_def)
  then have "setup_stop nm s' e rs rs' evs = setup_stop nm s e rs rs' evs" for e rs' evs
    unfolding setup_stop_def by (intro iff_exI conj_cong refl) (auto cong: filter_cong)
  moreover have "dead_rules s' rs = dead_rules s rs" "live_rules s' rs = live_rules s rs"
    using dead by (auto intro: filter_cong)
  moreover have "list_all2 (asks_for s') (live_rules s rs) pfs = list_all2 (asks_for s) (live_rules s rs) pfs" for pfs
    by (rule list.rel_cong [OF refl refl]) (simp add: asks_for_def same)
  ultimately show ?thesis unfolding setup_spec_def by presburger
qed

lemma poll_setup_log:
  assumes "log_frame K lg" "list_all (rule_logs lg nm) rs" "fd_inv (with_rules b rs) s"
  shows "setup_spec lg nm s rs (lg (mc_kernel s)) (poll_setup K rs s)"
  using assms(2,3)
proof (induction rs arbitrary: b s)
  case Nil
  then show ?case by (simp add: setup_spec_def)
next
  case (Cons r rs)
  let ?b = "b(internal_fd (rl_fd r) := Suc (b (internal_fd (rl_fd r))))" and ?l = "lg (mc_kernel s)"
  have log: "rule_logs lg nm r" and logs: "list_all (rule_logs lg nm) rs" using Cons.prems(1) by simp_all
  note inv = Cons.prems(2) and pos = with_rules_Cons(3) [of b r rs]
  have dead: "rule_defunct r s = (Inr (rule_dead s r), s)" by (rule rule_defunct_eq [OF inv pos])
  show ?case
  proof (cases "rule_dead s r")
    case True
    obtain x s1 where rc: "rule_cancel K r s = (x, s1)" by fastforce
    have l: "lg (mc_kernel s1) = ?l @ [Cancelled (nm r)]" by (rule loggedD [OF rule_cancel_log [OF assms(1) log] rc])
    have "setup_spec lg nm s (r # rs) ?l (poll_setup K rs s1)" if "x = Inr ()"
    proof -
      have k: "fd_inv (with_rules b rs) s1" "\<forall>q. 0 < with_rules b rs q \<longrightarrow> mc_heap s1 q = mc_heap s q"
        using rule_cancel_keeps(2) [OF log inv rc that] by simp_all
      show ?thesis using Cons.IH [OF logs k(1)] setup_spec_dead [OF True] unfolding setup_spec_same [OF k(2)] l by blast
    qed
    moreover have "cancel_throws r e" if "x = Inl e" for e
      using rule_cancel_throws [of K r s e s1] rule_cancel_keeps(1) [OF log inv rc] rc that by auto
    ultimately show ?thesis using dead True rc l by (cases x) (auto intro: setup_spec_throw)
  next
    case False
    obtain x s1 where ri: "rl_interest r s = (x, s1)" by fastforce
    have only: "kernel_only (rl_interest r)" "logged lg (rl_interest r) []" using log by (simp_all add: rule_logs_def)
    note k = kernel_only_run [OF only(1) ri]
    have l: "lg (mc_kernel s1) = ?l" using loggedD [OF only(2) ri] by simp
    have inv1: "fd_inv (with_rules b (r # rs)) s1" using inv fd_inv_cong [OF k(2,3)] by blast
    obtain w where w: "mc_heap s1 (internal_fd (rl_fd r)) = Some w" by (rule fd_inv_live [OF inv1 pos])
    have rest: "setup_spec lg nm s rs ?l (poll_setup K rs s1)"
      using Cons.IH [OF logs inv1 [unfolded with_rules_Cons(1)]] unfolding l setup_spec_same [of ?b rs s1 s, simplified k(2), simplified] .
    show ?thesis
    proof (cases x)
      case (Inl e)
      then have "\<exists>t. fst (rl_interest r t) = Inl e" using ri by (intro exI [of _ s]) simp
      then have "setup_spec lg nm s (r # rs) ?l (Inl e, r # rs, s1)" using False l by (intro setup_spec_throw) simp_all
      then show ?thesis using dead False ri Inl by (simp add: bind_def)
    next
      case (Inr i)
      let ?p = "\<lparr>pf_fd = fw_fd w, pf_events = (if i then Direction_value (rl_direction r) else 0), pf_revents = 0\<rparr>"
      have "asks_for s r ?p"
        unfolding asks_for_def using w k(2) ri Inr by (auto intro!: exI [of _ s] exI [of _ i])
      note step = setup_spec_live [OF False this, of lg nm rs ?l]
      obtain res rs' s' where su: "poll_setup K rs s1 = (res, rs', s')" by (metis prod.exhaust)
      show ?thesis
        using step [OF rest [unfolded su]] dead False ri w Inr su
        by (cases res) (auto simp: bind_def accessors_live split: prod.splits if_splits)
    qed
  qed
qed

text \<open>The call of \<open>poll\<close> does not touch the log, and the second loop follows its answer.\<close>

lemma poll_answer_log:
  assumes "log_frame K lg" "poll_contract K" "list_all (rule_logs lg nm) rs" "list_all2 (asks_for s) rs ask"
    and po: "sys_poll K ask t (mc_kernel s1) = ((n, err), pfs, k)"
    and re: "poll_results K pfs rs (s1\<lparr>mc_kernel := k\<rparr>) = (res, rs', s')"
  shows "lg k = lg (mc_kernel s1)"
    and "res = Inl e \<Longrightarrow> \<exists>evs. lg (mc_kernel s') = lg (mc_kernel s1) @ evs \<and> results_stop nm e pfs rs rs' evs"
    and "res = Inr u \<Longrightarrow> lg (mc_kernel s') = lg (mc_kernel s1) @ dues nm pfs rs \<and> list_all (\<lambda>p. \<not> pf_failed p) pfs \<and> rs' = survivors pfs rs"
proof -
  have "length pfs = length rs" using poll_contractD(1) [OF assms(2) po] list_all2_lengthD [OF assms(4)] by simp
  note log = poll_results_log [OF assms(1,3) this re]
  show lgk: "lg k = lg (mc_kernel s1)" using assms(1) po unfolding log_frame_def by (metis snd_conv)
  show "res = Inl e \<Longrightarrow> \<exists>evs. lg (mc_kernel s') = lg (mc_kernel s1) @ evs \<and> results_stop nm e pfs rs rs' evs"
    and "res = Inr u \<Longrightarrow> lg (mc_kernel s') = lg (mc_kernel s1) @ dues nm pfs rs \<and> list_all (\<lambda>p. \<not> pf_failed p) pfs \<and> rs' = survivors pfs rs"
    using log by (auto simp: lgk)
qed

section \<open>Properties of one call\<close>

text \<open>
  Claim C18. \<open>wait_next_event\<close> serves exactly the rules that are due. Rules at the end of their input or with a
  closed descriptor are cancelled and removed first, and the others polled, each for its own
  direction or for nothing. With \<open>Success\<close>, by what \<open>poll\<close> answered, each ready rule was served once, each
  that only hung up was cancelled and removed, and nothing else ran, all in the order of the rules.
  With \<open>Timeout\<close> or \<open>Exit\<close> no rule was served; \<open>Exit\<close> means that nothing was asked for or that a signal
  came. An exception leaves the call at one rule, and the rules after it are untouched: in the first pass
  (\<open>setup_stop\<close>) at a rule whose \<open>cancel\<close> or \<open>interest\<close> threw, after the dead rules up to it were cancelled;
  in the second (\<open>results_stop\<close>), by what \<open>poll\<close> answered, at an entry with an error, for which nothing
  runs, or at a rule whose \<open>cancel\<close>, callback or busy wait threw, after exactly what the rules before it
  were due.
\<close>

theorem EventLoop_serves_due_rules:
  assumes "log_frame K lg" and "poll_contract K" and "list_all (rule_logs lg nm) (el_rules el)"
    and "fd_inv (rule_count (el_rules el)) s"
  shows "let live = live_rules s (el_rules el); gone = cancellations nm (dead_rules s (el_rules el)) in
    case EventLoop_wait_next_event K el timeout_ms s of
      (Inr result, el', s') \<Rightarrow> \<exists>ask n err pfs k k'. list_all2 (asks_for s) live ask \<and>
        sys_poll K ask timeout_ms k = ((n, err), pfs, k') \<and>
        (case result of
           Success \<Rightarrow> list_all (\<lambda>p. \<not> pf_failed p) pfs \<and> el_rules el' = survivors pfs live \<and>
             lg (mc_kernel s') = lg (mc_kernel s) @ gone @ dues nm pfs live
         | Timeout \<Rightarrow> c_int n = 0 \<and> el_rules el' = live \<and> lg (mc_kernel s') = lg (mc_kernel s) @ gone
         | Exit \<Rightarrow> (list_all (\<lambda>p. pf_events p = 0) ask \<or> c_int n < 0 \<and> err = EINTR) \<and> el_rules el' = live \<and>
             lg (mc_kernel s') = lg (mc_kernel s) @ gone)
    | (Inl e, el', s') \<Rightarrow> \<exists>evs.
        lg (mc_kernel s') = lg (mc_kernel s) @ evs \<and> setup_stop nm s e (el_rules el) (el_rules el') evs \<or>
        (\<exists>ask n err pfs k k'. list_all2 (asks_for s) live ask \<and> sys_poll K ask timeout_ms k = ((n, err), pfs, k') \<and>
           c_int n \<noteq> 0 \<and> lg (mc_kernel s') = lg (mc_kernel s) @ gone @ evs \<and> results_stop nm e pfs live (el_rules el') evs)"
proof -
  let ?gone = "cancellations nm (dead_rules s (el_rules el))" and ?live = "live_rules s (el_rules el)"
  obtain res rs s1 where su: "poll_setup K (el_rules el) s = (res, rs, s1)" by (metis prod.exhaust)
  from poll_setup_log [OF assms(1,3), of "\<lambda>_. 0" s] assms(4)
  have spec: "setup_spec lg nm s (el_rules el) (lg (mc_kernel s)) (res, rs, s1)" unfolding su by simp
  show ?thesis
  proof (cases res)
    case (Inl e)
    then show ?thesis using wait_next_event_cases [OF su, of timeout_ms] spec by (auto simp: Let_def setup_spec_def)
  next
    case (Inr x)
    obtain ask f where x: "x = (ask, f)" by fastforce
    obtain n err pfs k where po: "sys_poll K ask timeout_ms (mc_kernel s1) = ((n, err), pfs, k)" by (metis prod.exhaust)
    have asks: "list_all2 (asks_for s) ?live ask" and rs: "rs = ?live" and lg1: "lg (mc_kernel s1) = lg (mc_kernel s) @ ?gone"
      and f: "f \<longleftrightarrow> (\<exists>p\<in>set ask. pf_events p \<noteq> 0)" using spec Inr x by (simp_all add: setup_spec_def)
    obtain res2 rs2 s2 where re: "poll_results K pfs ?live (s1\<lparr>mc_kernel := k\<rparr>) = (res2, rs2, s2)" by (metis prod.exhaust)
    have "list_all (rule_logs lg nm) ?live" using assms(3) by (simp add: list_all_iff)
    note answer = poll_answer_log [OF assms(1,2) this asks po re, unfolded lg1]
    note lgk = answer(1)
    note run = wait_next_event_cases [OF su, of timeout_ms n err pfs k, unfolded Inr x rs] re po
    consider "\<not> f" | "f" "c_int n < 0" "err = EINTR" | "f" "c_int n = 0" | "f" "c_int n \<noteq> 0" "\<not> (c_int n < 0 \<and> err = EINTR)" by blast
    then show ?thesis
    proof cases
      case 1
      then have "list_all (\<lambda>p. pf_events p = 0) ask" using f by (simp add: list_all_iff)
      then show ?thesis using 1 run asks lg1 po by (simp add: Let_def) blast
    next
      case 2
      then show ?thesis using run asks lgk by (simp add: Let_def EINTR_def) (metis po)
    next
      case 3
      then show ?thesis using run asks lgk by (simp add: Let_def) (metis po)
    next
      case 4
      then have w: "EventLoop_wait_next_event K el timeout_ms s = (case res2 of Inl e \<Rightarrow> (Inl e, el\<lparr>el_rules := rs2\<rparr>, s2)
          | Inr _ \<Rightarrow> (Inr Success, el\<lparr>el_rules := rs2\<rparr>, s2))"
        using run by (auto split: sum.split)
      show ?thesis
      proof (cases res2)
        case (Inl e)
        then show ?thesis using answer(2) [OF Inl] w asks po 4(2) by (simp add: Let_def) blast
      next
        case (Inr u)
        then show ?thesis using answer(3) [OF Inr] w asks by (simp add: Let_def) (metis po)
      qed
    qed
  qed
qed

text \<open>
  Three rules on a kernel that is only a log: the descriptor 3 is always ready, the descriptor 9 hung
  up, and the input of the third rule is at its end.
\<close>

definition logging_kernel :: "nat loop_event list kernel" where
  "logging_kernel =
     \<lparr>sys_read = (\<lambda>_ _ w. ((0, 0), [], w)), sys_writev = (\<lambda>_ _ w. ((- 1, 9), w)), sys_close = (\<lambda>_ w. ((0, 0), w)),
      sys_getfl = (\<lambda>_ w. ((0, 0), w)), sys_setfl = (\<lambda>_ _ w. ((0, 0), w)),
      sys_poll = (\<lambda>fds _ w. ((int (length fds), 0), map (\<lambda>p. p\<lparr>pf_revents := (if pf_fd p = 9 then POLLHUP else pf_events p)\<rparr>) fds, w))\<rparr>"

definition logging_rule :: "nat \<Rightarrow> nat loop_event list Rule" where
  "logging_rule n = \<lparr>rl_fd = FileDescriptor n, rl_direction = In,
     rl_callback = bind (kernel_call (\<lambda>w. ((), w @ [Served n]))) (\<lambda>_. FileDescriptor_register_read (FileDescriptor n)),
     rl_interest = returns True, rl_cancel = kernel_call (\<lambda>w. ((), w @ [Cancelled n]))\<rparr>"

definition three_descriptors :: "nat loop_event list machine" where
  "three_descriptors = \<lparr>mc_heap = (\<lambda>_. None)
       (0 \<mapsto> \<lparr>fw_fd = 3, fw_eof = False, fw_closed = False, fw_read_count = 0, fw_write_count = 0\<rparr>,
        1 \<mapsto> \<lparr>fw_fd = 9, fw_eof = False, fw_closed = False, fw_read_count = 0, fw_write_count = 0\<rparr>,
        2 \<mapsto> \<lparr>fw_fd = 5, fw_eof = True, fw_closed = False, fw_read_count = 1, fw_write_count = 0\<rparr>),
     mc_refs = (\<lambda>p. if p < 3 then 1 else 0), mc_next = 3, mc_kernel = []\<rparr>"

abbreviation rule_number :: "'w Rule \<Rightarrow> nat" where
  "rule_number r \<equiv> internal_fd (rl_fd r)"

lemma logging_rule_logs: "rule_logs id rule_number (logging_rule n)"
  by (simp add: rule_logs_def logged_def kernel_only_def logging_rule_def bind_def kernel_call_def FileDescriptor_register_read_def
      update_wrapper_def wrapper_at_def split: option.split)

theorem EventLoop_serves_due_rules_witness:
  "\<exists>el' s'. EventLoop_wait_next_event logging_kernel \<lparr>el_rules = [logging_rule 0, logging_rule 1, logging_rule 2]\<rparr> 100 three_descriptors =
      (Inr Success, el', s') \<and> mc_kernel s' = [Cancelled 2, Served 0, Cancelled 1] \<and> el_rules el' = [logging_rule 0]"
proof -
  let ?el = "\<lparr>el_rules = [logging_rule 0, logging_rule 1, logging_rule 2]\<rparr>"
  have frame: "log_frame logging_kernel id" and poll: "poll_contract logging_kernel"
    by (simp_all add: log_frame_def poll_contract_def logging_kernel_def)
  have logs: "list_all (rule_logs id rule_number) (el_rules ?el)" by (simp add: logging_rule_logs)
  have inv: "fd_inv (rule_count (el_rules ?el)) three_descriptors"
    by (auto simp: fd_inv_def rule_count_def logging_rule_def three_descriptors_def)
  have live: "live_rules three_descriptors (el_rules ?el) = [logging_rule 0, logging_rule 1]"
    "dead_rules three_descriptors (el_rules ?el) = [logging_rule 2]"
    by (simp_all add: rule_dead_def logging_rule_def three_descriptors_def)
  obtain el' s' where run: "EventLoop_wait_next_event logging_kernel ?el 100 three_descriptors = (Inr Success, el', s')"
    by (simp add: EventLoop_wait_next_event_def rule_defunct_def rule_cancel_def rule_serve_def bind_def accessors_live Rule_service_count_def
        FileDescriptor_destroy_def FDWrapper_destroy_def FDWrapper_close_def catch_exception_def update_wrapper_def wrapper_at_def
        kernel_call_def FileDescriptor_register_read_def SystemCall_def c_int_def Let_def
        logging_kernel_def logging_rule_def three_descriptors_def POLLIN_def POLLHUP_def POLLERR_def POLLNVAL_def)
  note T = EventLoop_serves_due_rules [OF frame poll logs inv, of 100, unfolded Let_def live run]
  from T obtain ask n err pfs k k' where ask: "list_all2 (asks_for three_descriptors) [logging_rule 0, logging_rule 1] ask"
    and sys: "sys_poll logging_kernel ask 100 k = ((n, err), pfs, k')"
    and el: "el_rules el' = survivors pfs [logging_rule 0, logging_rule 1]"
    and log: "mc_kernel s' = [Cancelled 2] @ dues rule_number pfs [logging_rule 0, logging_rule 1]"
    by (auto simp: logging_rule_def three_descriptors_def)
  have "ask = [\<lparr>pf_fd = 3, pf_events = POLLIN, pf_revents = 0\<rparr>, \<lparr>pf_fd = 9, pf_events = POLLIN, pf_revents = 0\<rparr>]"
    using ask by (auto simp: list_all2_Cons1 asks_for_def logging_rule_def three_descriptors_def)
  then have "pfs = [\<lparr>pf_fd = 3, pf_events = POLLIN, pf_revents = POLLIN\<rparr>, \<lparr>pf_fd = 9, pf_events = POLLIN, pf_revents = POLLHUP\<rparr>]"
    using sys by (auto simp: logging_kernel_def)
  then show ?thesis
    using run el log by (simp add: rule_due_def pf_hung_up_def pf_ready_def POLLIN_def POLLHUP_def logging_rule_def)
qed

section \<open>Sessions\<close>

text \<open>
  The states of an application with an event loop: it starts without rules, adds rules for
  descriptors it has a handle of, with callbacks that keep to their contract, waits, also after an
  exception, and does in between what it likes as long as the handles of the rules stay.
\<close>

definition safe_callback :: "nat \<Rightarrow> ('w machine, 'a) action \<Rightarrow> bool" where
  "safe_callback p m \<longleftrightarrow> (\<forall>c. callback_safe c p m)"

inductive loop_reachable :: "'w kernel \<Rightarrow> 'w EventLoop \<Rightarrow> 'w machine \<Rightarrow> bool" for K where
  loop_start: "el_rules el = [] \<Longrightarrow> fd_inv (\<lambda>_. 0) s \<Longrightarrow> loop_reachable K el s"
| loop_add: "loop_reachable K el s \<Longrightarrow> mc_heap s (internal_fd fd) \<noteq> None \<Longrightarrow> safe_callback (internal_fd fd) callback \<Longrightarrow>
    safe_callback (internal_fd fd) interest \<Longrightarrow> safe_callback (internal_fd fd) cancel \<Longrightarrow>
    EventLoop_add_rule fd direction callback interest cancel el s = (Inr el', s') \<Longrightarrow> loop_reachable K el' s'"
| loop_wait: "loop_reachable K el s \<Longrightarrow> EventLoop_wait_next_event K el timeout_ms s = (res, el', s') \<Longrightarrow> loop_reachable K el' s'"
| loop_work: "loop_reachable K el s \<Longrightarrow> fd_inv (rule_count (el_rules el)) s' \<Longrightarrow> loop_reachable K el s'"

lemma safe_callback_returns [simp]: "safe_callback p (returns x)"
  by (simp add: safe_callback_def callback_safe_def)

lemma wait_rules_subset:
  "EventLoop_wait_next_event K el t s = (res, el', s') \<Longrightarrow> set (el_rules el') \<subseteq> set (el_rules el)"
  using list_emb_set [OF EventLoop_rules_only_removed [of K el t s]] by auto

lemma loop_reachable_inv:
  assumes "loop_reachable K el s" "poll_contract K"
  shows "fd_inv (rule_count (el_rules el)) s \<and> (\<forall>r\<in>set (el_rules el). \<forall>c. rule_safe c r)"
  using assms(1)
proof (induction rule: loop_reachable.induct)
  case (loop_start el s)
  then show ?case by (simp add: rule_count_def)
next
  case (loop_add el s fd callback interest cancel direction el' s')
  then show ?case
    by (auto simp: EventLoop_add_rule_def FileDescriptor_duplicate_def bind_def rule_safe_def safe_callback_def fd_inv_def rule_count_def
        split: if_splits)
next
  case (loop_wait el s timeout_ms res el' s')
  then have safe: "\<And>r. r \<in> set (el_rules el) \<Longrightarrow> rule_safe (rule_count (el_rules el)) r" by blast
  from EventLoop_memory_safe [OF this _ assms(2), of s timeout_ms] loop_wait wait_rules_subset [OF loop_wait.hyps(2)]
  show ?case by auto
next
  case (loop_work el s s')
  then show ?case by blast
qed

text \<open>
  Claim C24. Memory safety of whole sessions: in every reachable state of an application each rule's handle is
  alive and counted, and the next \<open>wait_next_event\<close>, with any timeout, accesses no destroyed descriptor and
  no entry outside the poll array.
\<close>

theorem EventLoop_sessions_safe:
  assumes "loop_reachable K el s" and "poll_contract K"
  shows "fd_inv (rule_count (el_rules el)) s \<and> list_all (\<lambda>r. mc_heap s (internal_fd (rl_fd r)) \<noteq> None) (el_rules el) \<and>
    fst (EventLoop_wait_next_event K el timeout_ms s) \<noteq> Inl undefined_behaviour"
proof -
  have inv: "fd_inv (rule_count (el_rules el)) s" and safe: "\<And>r. r \<in> set (el_rules el) \<Longrightarrow> rule_safe (rule_count (el_rules el)) r"
    using loop_reachable_inv [OF assms] by auto
  have "mc_heap s (internal_fd (rl_fd r)) \<noteq> None" if "r \<in> set (el_rules el)" for r
  proof -
    have "0 < rule_count (el_rules el) (internal_fd (rl_fd r))" using that by (auto simp: rule_count_def filter_empty_conv)
    then show ?thesis by (rule fd_inv_live [OF inv]) simp
  qed
  moreover have "fst (EventLoop_wait_next_event K el timeout_ms s) \<noteq> Inl undefined_behaviour"
    using EventLoop_memory_safe [OF safe inv assms(2), of timeout_ms] by (auto split: prod.splits)
  ultimately show ?thesis using inv by (simp add: list_all_iff)
qed

text \<open>A reader is added to an empty loop, which then waits twice.\<close>

theorem EventLoop_sessions_safe_witness:
  "\<exists>el s. loop_reachable pipe_kernel el s \<and> fd_inv (rule_count (el_rules el)) s \<and>
    fst (EventLoop_wait_next_event pipe_kernel el 1000 s) \<noteq> Inl undefined_behaviour"
proof -
  let ?cb = "bind (FileDescriptor_read pipe_kernel (FileDescriptor 0) 10) (\<lambda>_. returns ())"
  have "loop_reachable pipe_kernel \<lparr>el_rules = []\<rparr> reader_state"
    by (rule loop_start) (simp_all add: fd_inv_def reader_state_def)
  moreover obtain el s where add: "EventLoop_add_rule (FileDescriptor 0) In ?cb (returns True) (returns ()) \<lparr>el_rules = []\<rparr> reader_state = (Inr el, s)"
    by (simp add: EventLoop_add_rule_def FileDescriptor_duplicate_def bind_def)
  moreover have "safe_callback 0 ?cb" using read_callback_safe [OF pipe_kernel_contracts(2), of _ "FileDescriptor 0" 10]
    by (simp add: safe_callback_def)
  ultimately have "loop_reachable pipe_kernel el s" by (intro loop_add [OF _ _ _ _ _ add]) (simp_all add: reader_state_def)
  then have "loop_reachable pipe_kernel (fst (snd (EventLoop_wait_next_event pipe_kernel el 1000 s)))
      (snd (snd (EventLoop_wait_next_event pipe_kernel el 1000 s)))"
    by (rule loop_wait) (simp add: prod_eq_iff)
  from this EventLoop_sessions_safe [OF this pipe_kernel_poll, of 1000] show ?thesis by blast
qed

end
