(* ===== verification/Socket_Address.thy ===== *)
theory Socket_Address
  imports Text_Format
begin

unbundle bit_operations_syntax

text \<open>
  Socket addresses: \<open>libsponge/util/address.hh\<close> and \<open>address.cc\<close>. A \<open>sockaddr_storage\<close> is its 128
  bytes; the resolver (\<open>getaddrinfo\<close>, \<open>getnameinfo\<close>) and the byte order of the host are parameters.
\<close>

section \<open>Memory and byte order\<close>

datatype byte_order = Little_Endian | Big_Endian

text \<open>The bytes of a word, the lowest first, and back; in memory they stand in the host's order.\<close>

primrec word_bytes :: "nat \<Rightarrow> 'a::len word \<Rightarrow> bytes" where
  "word_bytes 0 w = []"
| "word_bytes (Suc n) w = ucast w # word_bytes n (drop_bit 8 w)"

primrec word_of_bytes :: "bytes \<Rightarrow> 'a::len word" where
  "word_of_bytes [] = 0"
| "word_of_bytes (b # bs) = ucast b OR push_bit 8 (word_of_bytes bs)"

definition to_memory :: "byte_order \<Rightarrow> nat \<Rightarrow> 'a::len word \<Rightarrow> bytes" where
  "to_memory e n w = (case e of Little_Endian \<Rightarrow> word_bytes n w | Big_Endian \<Rightarrow> rev (word_bytes n w))"

definition from_memory :: "byte_order \<Rightarrow> bytes \<Rightarrow> 'a::len word" where
  "from_memory e bs = (case e of Little_Endian \<Rightarrow> word_of_bytes bs | Big_Endian \<Rightarrow> word_of_bytes (rev bs))"

text \<open>
  \<open>htobe32\<close>, \<open>be32toh\<close> and \<open>htons\<close> swap the \<open>n\<close> bytes of a number on a little-endian host and
  do nothing on a big-endian one.
\<close>

definition net_order :: "byte_order \<Rightarrow> nat \<Rightarrow> 'a::len word \<Rightarrow> 'a word" where
  "net_order e n w = (case e of Little_Endian \<Rightarrow> word_of_bytes (rev (word_bytes n w)) | Big_Endian \<Rightarrow> w)"

definition htobe32 :: "byte_order \<Rightarrow> u32 \<Rightarrow> u32" where
  "htobe32 e w = net_order e 4 w"

definition be32toh :: "byte_order \<Rightarrow> u32 \<Rightarrow> u32" where
  "be32toh e w = net_order e 4 w"

section \<open>The structures of the socket interface\<close>

definition AF_INET :: u16 where "AF_INET = 2"
definition AF_UNIX :: u16 where "AF_UNIX = 1"
definition sizeof_sockaddr_storage :: nat where "sizeof_sockaddr_storage = 128"
definition sizeof_sockaddr_in :: nat where "sizeof_sockaddr_in = 16"
definition AI_NUMERICHOST :: int where "AI_NUMERICHOST = 0x0004"
definition AI_ALL :: int where "AI_ALL = 0x0010"
definition AI_NUMERICSERV :: int where "AI_NUMERICSERV = 0x0400"
definition NI_NUMERICHOST :: int where "NI_NUMERICHOST = 1"
definition NI_NUMERICSERV :: int where "NI_NUMERICSERV = 2"

record sockaddr_in =
  sin_family :: u16
  sin_port :: u16
  sin_addr :: u32
  sin_zero :: bytes

definition sockaddr_in_memory :: "byte_order \<Rightarrow> sockaddr_in \<Rightarrow> bytes" where
  "sockaddr_in_memory e a =
     to_memory e 2 (sin_family a) @ to_memory e 2 (sin_port a) @ to_memory e 4 (sin_addr a) @ sin_zero a"

definition sockaddr_in_of_memory :: "byte_order \<Rightarrow> bytes \<Rightarrow> sockaddr_in" where
  "sockaddr_in_of_memory e bs =
     \<lparr>sin_family = from_memory e (take 2 bs), sin_port = from_memory e (take 2 (drop 2 bs)),
      sin_addr = from_memory e (take 4 (drop 4 bs)), sin_zero = take 8 (drop 8 bs)\<rparr>"

text \<open>The value-initialised \<open>sockaddr_in\<close> has every byte zero.\<close>

definition sockaddr_in_zero :: sockaddr_in where
  "sockaddr_in_zero = \<lparr>sin_family = 0, sin_port = 0, sin_addr = 0, sin_zero = replicate 8 0\<rparr>"

record addrinfo =
  ai_flags :: int
  ai_family :: int

text \<open>
  The resolver. \<open>getaddrinfo\<close> gives its return value and the list of results, each the bytes at
  \<open>ai_addr\<close> and \<open>ai_addrlen\<close>; \<open>getnameinfo\<close> gives its return value, the host and the service.
\<close>

record resolver =
  getaddrinfo :: "string \<Rightarrow> string \<Rightarrow> addrinfo \<Rightarrow> int \<times> (bytes \<times> u32) list"
  getnameinfo :: "bytes \<Rightarrow> u32 \<Rightarrow> int \<Rightarrow> int \<times> string \<times> string"

section \<open>Address\<close>

record Address =
  ad_size :: u32
  ad_storage :: bytes

definition Address_size :: "Address \<Rightarrow> u32" where
  "Address_size a = ad_size a"

declare Address_size_def [simp]

text \<open>
  The constructor from a \<open>sockaddr *\<close>: \<open>mem\<close> are the bytes readable there, none for \<open>nullptr\<close>.
  Copying more than is readable is undefined behaviour; copying nothing reads nothing.
\<close>

definition Address_of_sockaddr :: "bytes \<Rightarrow> size_t \<Rightarrow> cpp_failure + Address" where
  "Address_of_sockaddr mem sz =
     (let storage = replicate sizeof_sockaddr_storage 0 in
      if sizeof_sockaddr_storage < unat sz then Inl (runtime_error ''invalid sockaddr size'')
      else if length mem < unat sz then Inl undefined_behaviour
      else Inr \<lparr>ad_size = ucast sz, ad_storage = take (unat sz) mem @ drop (unat sz) storage\<rparr>)"

definition make_hints :: "int \<Rightarrow> int \<Rightarrow> addrinfo" where
  "make_hints flags family = \<lparr>ai_flags = flags, ai_family = family\<rparr>"

definition Address_resolve :: "resolver \<Rightarrow> string \<Rightarrow> string \<Rightarrow> addrinfo \<Rightarrow> cpp_failure + Address" where
  "Address_resolve R node service hints =
     (let (gai_ret, resolved_address) = getaddrinfo R (c_str node) (c_str service) hints in
      if gai_ret \<noteq> 0
      then Inl (tagged_error (''getaddrinfo('' @ node @ '', '' @ service @ '')'') gai_ret)
      else case resolved_address of
        [] \<Rightarrow> Inl (runtime_error ''getaddrinfo returned successfully but with no results'')
      | (mem, len) # _ \<Rightarrow> Address_of_sockaddr mem (ucast len))"

definition Address_of_host :: "resolver \<Rightarrow> string \<Rightarrow> string \<Rightarrow> cpp_failure + Address" where
  "Address_of_host R hostname service = Address_resolve R hostname service (make_hints AI_ALL (uint AF_INET))"

text \<open>The two flags are different bits: their disjunction is their sum.\<close>

definition Address_of_ip :: "resolver \<Rightarrow> string \<Rightarrow> u16 \<Rightarrow> cpp_failure + Address" where
  "Address_of_ip R ip port =
     Address_resolve R ip (to_string (uint port)) (make_hints (AI_NUMERICHOST + AI_NUMERICSERV) (uint AF_INET))"

definition Address_ip_port :: "resolver \<Rightarrow> Address \<Rightarrow> cpp_failure + (string \<times> u16)" where
  "Address_ip_port R a =
     (let (gni_ret, ip, port) = getnameinfo R (ad_storage a) (ad_size a) (NI_NUMERICHOST + NI_NUMERICSERV) in
      if gni_ret \<noteq> 0 then Inl (tagged_error ''getnameinfo'' gni_ret)
      else and_then (stoi port) (\<lambda>n. Inr (ip, of_int n)))"

definition Address_ip :: "resolver \<Rightarrow> Address \<Rightarrow> cpp_failure + string" where
  "Address_ip R a = and_then (Address_ip_port R a) (\<lambda>p. Inr (fst p))"

definition Address_port :: "resolver \<Rightarrow> Address \<Rightarrow> cpp_failure + u16" where
  "Address_port R a = and_then (Address_ip_port R a) (\<lambda>p. Inr (snd p))"

definition Address_to_string :: "resolver \<Rightarrow> Address \<Rightarrow> cpp_failure + string" where
  "Address_to_string R a =
     and_then (Address_ip_port R a) (\<lambda>ip_and_port. Inr (fst ip_and_port @ '':'' @ to_string (uint (snd ip_and_port))))"

definition Address_ipv4_numeric :: "byte_order \<Rightarrow> Address \<Rightarrow> cpp_failure + u32" where
  "Address_ipv4_numeric e a =
     (if from_memory e (take 2 (ad_storage a)) \<noteq> AF_INET \<or> unat (ad_size a) \<noteq> sizeof_sockaddr_in
      then Inl (runtime_error ''ipv4_numeric called on non-IPV4 address'')
      else let ipv4_addr = sockaddr_in_of_memory e (take (unat (ad_size a)) (ad_storage a))
           in Inr (be32toh e (sin_addr ipv4_addr)))"

definition Address_from_ipv4_numeric :: "byte_order \<Rightarrow> u32 \<Rightarrow> cpp_failure + Address" where
  "Address_from_ipv4_numeric e ip_address =
     (let ipv4_addr = sockaddr_in_zero\<lparr>sin_family := AF_INET, sin_addr := htobe32 e ip_address\<rparr>
      in Address_of_sockaddr (sockaddr_in_memory e ipv4_addr) (of_nat sizeof_sockaddr_in))"

definition Address_eq :: "Address \<Rightarrow> Address \<Rightarrow> bool" where
  "Address_eq a b =
     (if ad_size a \<noteq> ad_size b then False
      else take (unat (ad_size a)) (ad_storage a) = take (unat (ad_size a)) (ad_storage b))"

definition Address_neq :: "Address \<Rightarrow> Address \<Rightarrow> bool" where
  "Address_neq a b \<longleftrightarrow> \<not> Address_eq a b"

section \<open>Lemmas\<close>

lemma length_word_bytes [simp]: "length (word_bytes n w) = n"
  by (induction n arbitrary: w) simp_all

lemma nth_word_bytes: "k < n \<Longrightarrow> word_bytes n w ! k = ucast (drop_bit (8 * k) w)"
proof (induction n arbitrary: k w)
  case (Suc n)
  then show ?case by (cases k) (simp_all add: drop_bit_drop_bit add.commute)
qed simp

lemma bit_word_of_bytes:
  "bit (word_of_bytes bs :: 'a::len word) i \<longleftrightarrow> i < LENGTH('a) \<and> i div 8 < length bs \<and> bit (bs ! (i div 8)) (i mod 8)"
proof (induction bs arbitrary: i)
  case (Cons b bs)
  show ?case
  proof (cases "i < 8")
    case False
    then obtain j where "i = j + 8" by (metis add.commute le_Suc_ex not_less)
    moreover have "(j + 8) div 8 = Suc (j div 8)" by simp
    ultimately show ?thesis
      using Cons [of j] bit_imp_le_length [of b i] by (auto simp: bit_simps simp del: div_add_self2)
  qed (auto simp: bit_simps)
qed simp

lemma word_of_bytes_word_bytes [simp]:
  fixes w :: "'a::len word"
  assumes "LENGTH('a) \<le> 8 * n"
  shows "word_of_bytes (word_bytes n w) = w"
proof (rule bit_word_eqI)
  fix i assume "i < LENGTH('a)"
  moreover from this have "i div 8 < n" using assms by (simp add: less_mult_imp_div_less mult.commute)
  ultimately show "bit (word_of_bytes (word_bytes n w) :: 'a word) i \<longleftrightarrow> bit w i"
    by (simp add: bit_word_of_bytes nth_word_bytes bit_simps)
qed

lemma word_bytes_word_of_bytes [simp]:
  assumes "length bs = n" "8 * n \<le> LENGTH('a::len)"
  shows "word_bytes n (word_of_bytes bs :: 'a word) = bs"
proof (rule nth_equalityI)
  fix k assume "k < length (word_bytes n (word_of_bytes bs :: 'a word))"
  then have k: "k < n" by simp
  have "bit (word_bytes n (word_of_bytes bs :: 'a word) ! k) i \<longleftrightarrow> bit (bs ! k) i" if "i < 8" for i
    using k that assms by (auto simp: nth_word_bytes bit_simps bit_word_of_bytes)
  then show "word_bytes n (word_of_bytes bs :: 'a word) ! k = bs ! k" by (intro bit_word_eqI) simp
qed (simp add: assms)

lemma length_to_memory [simp]: "length (to_memory e n w) = n"
  by (simp add: to_memory_def split: byte_order.split)

lemma from_to_memory [simp]: "LENGTH('a::len) \<le> 8 * n \<Longrightarrow> from_memory e (to_memory e n (w :: 'a word)) = w"
  by (simp add: from_memory_def to_memory_def split: byte_order.split)

lemma net_order_twice [simp]: "LENGTH('a::len) = 8 * n \<Longrightarrow> net_order e n (net_order e n (w :: 'a word)) = w"
  by (simp add: net_order_def split: byte_order.split)

lemma length_sockaddr_in_memory [simp]: "length (sockaddr_in_memory e a) = 8 + length (sin_zero a)"
  by (simp add: sockaddr_in_memory_def)

lemma sockaddr_in_of_memory_to [simp]:
  "length (sin_zero a) = 8 \<Longrightarrow> sockaddr_in_of_memory e (sockaddr_in_memory e a) = a"
  by (simp add: sockaddr_in_of_memory_def sockaddr_in_memory_def)

text \<open>What every constructor makes: the copied bytes, then zeros.\<close>

definition Address_ok :: "Address \<Rightarrow> bool" where
  "Address_ok a \<longleftrightarrow> unat (ad_size a) \<le> sizeof_sockaddr_storage \<and> length (ad_storage a) = sizeof_sockaddr_storage \<and>
     drop (unat (ad_size a)) (ad_storage a) = replicate (sizeof_sockaddr_storage - unat (ad_size a)) 0"

lemma unat_ucast_size: "unat (sz :: size_t) \<le> 128 \<Longrightarrow> unat (ucast sz :: u32) = unat sz"
  by (simp add: unsigned_ucast_eq take_bit_nat_eq_self)

lemma Address_of_sockaddr_Inr:
  "Address_of_sockaddr mem sz = Inr a \<longleftrightarrow>
     unat sz \<le> 128 \<and> unat sz \<le> length mem \<and> Address_ok a \<and> unat (ad_size a) = unat sz \<and>
     take (unat sz) (ad_storage a) = take (unat sz) mem"
proof -
  have "a = \<lparr>ad_size = ucast sz, ad_storage = take (unat sz) mem @ replicate (128 - unat sz) 0\<rparr>"
    if "unat sz \<le> 128" "unat sz \<le> length mem" "Address_ok a" "unat (ad_size a) = unat sz"
      "take (unat sz) (ad_storage a) = take (unat sz) mem"
  proof -
    have "ad_storage a = take (unat sz) (ad_storage a) @ drop (unat sz) (ad_storage a)" by simp
    also have "\<dots> = take (unat sz) mem @ replicate (128 - unat sz) 0"
      using that unfolding Address_ok_def sizeof_sockaddr_storage_def by simp
    finally have "ad_storage a = take (unat sz) mem @ replicate (128 - unat sz) 0" .
    moreover have "ad_size a = ucast sz" using that by (simp add: word_unat_eq_iff unat_ucast_size)
    ultimately show ?thesis by simp
  qed
  then show ?thesis
    by (auto simp: Address_of_sockaddr_def Address_ok_def sizeof_sockaddr_storage_def Let_def unat_ucast_size)
qed

lemma Address_resolve_ok:
  "Address_resolve R node service hints = Inr a \<Longrightarrow> Address_ok a"
  by (auto simp: Address_resolve_def Address_of_sockaddr_Inr Let_def split: prod.splits if_splits list.splits)

text \<open>
  The documented behaviour of the resolver for numeric hosts and services: \<open>getaddrinfo\<close> gives the
  \<open>sockaddr_in\<close> with the number in network byte order, \<open>getnameinfo\<close> writes it as text again.
\<close>

definition dotted_quad :: "u32 \<Rightarrow> string" where
  "dotted_quad ip =
     (let b = (\<lambda>i. string_of_nat (unat (word_bytes 4 ip ! i))) in b 3 @ ''.'' @ b 2 @ ''.'' @ b 1 @ ''.'' @ b 0)"

definition inet_sockaddr :: "byte_order \<Rightarrow> u32 \<Rightarrow> u16 \<Rightarrow> bytes" where
  "inet_sockaddr e ip port = sockaddr_in_memory e
     \<lparr>sin_family = AF_INET, sin_port = net_order e 2 port, sin_addr = htobe32 e ip, sin_zero = replicate 8 0\<rparr>"

definition numeric_resolver :: "byte_order \<Rightarrow> resolver \<Rightarrow> bool" where
  "numeric_resolver e R \<longleftrightarrow> (\<forall>ip port.
     (\<exists>more. getaddrinfo R (dotted_quad ip) (string_of_nat (unat port))
         (make_hints (AI_NUMERICHOST + AI_NUMERICSERV) (uint AF_INET)) = (0, (inet_sockaddr e ip port, 16) # more)) \<and>
     (\<forall>storage. take 16 storage = inet_sockaddr e ip port \<longrightarrow>
        getnameinfo R storage 16 (NI_NUMERICHOST + NI_NUMERICSERV) = (0, dotted_quad ip, string_of_nat (unat port))))"

lemma null_notin_digits [simp]: "CHR 0x00 \<notin> set (string_of_nat n)"
  using string_of_nat_digits [of "CHR 0x00" n] by (auto simp: is_digit_def)

lemma c_str_string_of_nat [simp]: "c_str (string_of_nat n) = string_of_nat n"
  by (rule c_str_id) simp

lemma c_str_dotted_quad [simp]: "c_str (dotted_quad ip) = dotted_quad ip"
  by (rule c_str_id) (simp add: dotted_quad_def Let_def)

lemma to_string_uint: "to_string (uint (w :: 'a::len word)) = string_of_nat (unat w)"
  by (simp add: to_string_def)

section \<open>A resolver to compute with\<close>

text \<open>A resolver of dotted quads and decimal ports that knows no names.\<close>

fun split_at :: "char \<Rightarrow> string \<Rightarrow> string list" where
  "split_at d [] = [[]]"
| "split_at d (c # cs) =
     (if c = d then [] # split_at d cs else (c # hd (split_at d cs)) # tl (split_at d cs))"

definition parse_quad :: "string \<Rightarrow> u32 option" where
  "parse_quad s = (case split_at (CHR ''.'') s of
     [a, b, c, d] \<Rightarrow> Some (word_of_bytes (map (\<lambda>x. of_nat (read_nat 0 x)) [d, c, b, a])) | _ \<Rightarrow> None)"

definition numeric_only :: "byte_order \<Rightarrow> resolver" where
  "numeric_only e =
     \<lparr>getaddrinfo = (\<lambda>node service hints. case parse_quad node of
        None \<Rightarrow> (- 2, []) | Some ip \<Rightarrow> (0, [(inet_sockaddr e ip (of_nat (read_nat 0 service)), 16)])),
      getnameinfo = (\<lambda>storage sz flags. let a = sockaddr_in_of_memory e (take 16 storage)
        in (0, dotted_quad (be32toh e (sin_addr a)), string_of_nat (unat (net_order e 2 (sin_port a)))))\<rparr>"

lemma split_at_nonempty [simp]: "split_at d s \<noteq> []"
  by (cases s) auto

lemma split_at_append: "d \<notin> set xs \<Longrightarrow> split_at d (xs @ d # ys) = xs # split_at d ys"
  by (induction xs) auto

lemma split_at_none: "d \<notin> set xs \<Longrightarrow> split_at d xs = [xs]"
  by (induction xs) auto

lemma dot_notin_digits [simp]: "CHR ''.'' \<notin> set (string_of_nat n)"
  using string_of_nat_digits [of "CHR ''.''" n] by (auto simp: is_digit_def)

lemma word_bytes_4: "word_bytes 4 w = [word_bytes 4 w ! 0, word_bytes 4 w ! 1, word_bytes 4 w ! 2, word_bytes 4 w ! 3]"
  by (simp add: eval_nat_numeral)

lemma parse_dotted_quad [simp]: "parse_quad (dotted_quad ip) = Some ip"
proof -
  have "word_of_bytes [word_bytes 4 ip ! 0, word_bytes 4 ip ! 1, word_bytes 4 ip ! 2, word_bytes 4 ip ! 3] = ip"
    by (subst word_bytes_4 [symmetric]) simp
  then show ?thesis
    by (simp add: parse_quad_def dotted_quad_def Let_def split_at_append split_at_none read_string_of_nat)
qed

lemma numeric_only_contract: "numeric_resolver e (numeric_only e)"
  by (simp add: numeric_resolver_def numeric_only_def read_string_of_nat inet_sockaddr_def htobe32_def be32toh_def
      Let_def)

section \<open>Properties\<close>

lemma ipv4_numeric_inet:
  assumes "take 16 (ad_storage a) = inet_sockaddr e ip port" "unat (ad_size a) = 16"
  shows "Address_ipv4_numeric e a = Inr ip"
proof -
  have "take 2 (ad_storage a) = take 2 (inet_sockaddr e ip port)" using arg_cong [OF assms(1), of "take 2"] by simp
  then have "from_memory e (take 2 (ad_storage a)) = AF_INET"
    by (simp add: inet_sockaddr_def sockaddr_in_memory_def)
  then show ?thesis
    using assms by (simp add: Address_ipv4_numeric_def sizeof_sockaddr_in_def inet_sockaddr_def htobe32_def be32toh_def)
qed

text \<open>
  An address built from a 32-bit number holds that number, on hosts of either byte order;
  it has port 0 and is written as the dotted quad.
\<close>

theorem Address_ipv4_roundtrip:
  assumes "numeric_resolver e R"
  shows "\<exists>a. Address_from_ipv4_numeric e ip = Inr a \<and> Address_ipv4_numeric e a = Inr ip \<and>
    Address_to_string R a = Inr (dotted_quad ip @ '':0'')"
proof -
  have mem: "sockaddr_in_memory e (sockaddr_in_zero\<lparr>sin_family := AF_INET, sin_addr := htobe32 e ip\<rparr>) = inet_sockaddr e ip 0"
    by (cases e) (simp_all add: inet_sockaddr_def sockaddr_in_zero_def net_order_def eval_nat_numeral)
  define a where "a = \<lparr>ad_size = 16, ad_storage = inet_sockaddr e ip 0 @ replicate 112 0\<rparr>"
  have len: "length (inet_sockaddr e ip 0) = 16" by (simp add: inet_sockaddr_def)
  then have new: "Address_from_ipv4_numeric e ip = Inr a"
    unfolding Address_from_ipv4_numeric_def Let_def mem
    by (simp add: Address_of_sockaddr_def sizeof_sockaddr_in_def a_def sizeof_sockaddr_storage_def)
  have "getnameinfo R (ad_storage a) 16 (NI_NUMERICHOST + NI_NUMERICSERV) = (0, dotted_quad ip, string_of_nat 0)"
    using assms len unfolding numeric_resolver_def a_def by (auto dest!: spec [of _ ip] spec [of _ "0 :: u16"])
  then have "Address_to_string R a = Inr (dotted_quad ip @ '':0'')"
    using stoi_string_of_nat [of 0]
    by (simp add: Address_to_string_def Address_ip_port_def a_def to_string_def string_of_nat.simps decimal_digit_def)
  moreover have "Address_ipv4_numeric e a = Inr ip" by (rule ipv4_numeric_inet [of _ _ _ 0]) (simp_all add: a_def len)
  ultimately show ?thesis using new by blast
qed

theorem Address_ipv4_roundtrip_witness:
  "\<exists>a. Address_from_ipv4_numeric Little_Endian 0x12F30001 = Inr a \<and>
    Address_ipv4_numeric Little_Endian a = Inr 0x12F30001 \<and>
    Address_to_string (numeric_only Little_Endian) a = Inr (''18.243.0.1'' @ '':0'')"
proof -
  have "dotted_quad 0x12F30001 = ''18.243.0.1''" by code_simp
  with Address_ipv4_roundtrip [OF numeric_only_contract, of Little_Endian "0x12F30001"] show ?thesis by simp
qed

text \<open>The address of a numeric host and port.\<close>

lemma numeric_address:
  assumes "numeric_resolver e R"
  shows "\<exists>a. Address_of_ip R (dotted_quad ip) port = Inr a \<and> Address_ip_port R a = Inr (dotted_quad ip, port) \<and>
    Address_ipv4_numeric e a = Inr ip \<and> Address_ok a \<and> ad_size a = 16 \<and> take 16 (ad_storage a) = inet_sockaddr e ip port"
proof -
  let ?mem = "inet_sockaddr e ip port"
  define a where "a = \<lparr>ad_size = 16, ad_storage = ?mem @ replicate 112 0\<rparr>"
  have len: "length ?mem = 16" by (simp add: inet_sockaddr_def)
  obtain more where gai: "getaddrinfo R (dotted_quad ip) (string_of_nat (unat port))
      (make_hints (AI_NUMERICHOST + AI_NUMERICSERV) (uint AF_INET)) = (0, (?mem, 16) # more)"
    using assms unfolding numeric_resolver_def by blast
  have new: "Address_of_ip R (dotted_quad ip) port = Inr a"
    by (simp add: Address_of_ip_def Address_resolve_def Address_of_sockaddr_def to_string_uint gai len a_def
        sizeof_sockaddr_storage_def)
  have "getnameinfo R (ad_storage a) 16 (NI_NUMERICHOST + NI_NUMERICSERV) = (0, dotted_quad ip, string_of_nat (unat port))"
    using assms len unfolding numeric_resolver_def a_def by simp
  then have "Address_ip_port R a = Inr (dotted_quad ip, port)"
    using stoi_string_of_nat [of "unat port"] unat_lt_16 [of port] by (simp add: Address_ip_port_def a_def)
  moreover have "Address_ipv4_numeric e a = Inr ip" by (rule ipv4_numeric_inet [of _ _ _ port]) (simp_all add: a_def len)
  moreover have "Address_ok a" using len by (simp add: a_def Address_ok_def sizeof_sockaddr_storage_def)
  ultimately show ?thesis using new len by (intro exI [of _ a]) (simp add: a_def)
qed

text \<open>
  Claim C26. With a resolver that handles numeric hosts and services as documented, an address built
  from a dotted quad and a port gives both back, prints as \<open>ip:port\<close>, and holds the number of the quad.
\<close>

theorem Address_ip_port_roundtrip:
  assumes "numeric_resolver e R"
  shows "\<exists>a. Address_of_ip R (dotted_quad ip) port = Inr a \<and> Address_ip_port R a = Inr (dotted_quad ip, port) \<and>
    Address_to_string R a = Inr (dotted_quad ip @ '':'' @ string_of_nat (unat port)) \<and> Address_ipv4_numeric e a = Inr ip"
  using numeric_address [OF assms, of ip port] by (fastforce simp: Address_to_string_def to_string_uint)

theorem Address_ip_port_roundtrip_witness:
  "\<exists>a. Address_of_ip (numeric_only Big_Endian) ''8.8.8.8'' 53 = Inr a \<and>
    Address_to_string (numeric_only Big_Endian) a = Inr ''8.8.8.8:53''"
proof -
  have "dotted_quad 0x08080808 = ''8.8.8.8''" "string_of_nat (unat (53 :: u16)) = ''53''" by code_simp+
  with Address_ip_port_roundtrip [OF numeric_only_contract, of Big_Endian "0x08080808" 53] show ?thesis by auto
qed

text \<open>
  Claim C27. Every constructor gives a well-formed address: a size of at most 128, 128 bytes of storage,
  and only zeros behind the size. Hence \<open>operator==\<close>, which looks at the first \<open>size()\<close> bytes only, is
  equality of the whole objects, and it compares the bytes the addresses were made from.
\<close>

theorem Address_well_formed:
  assumes "Address_of_sockaddr mem sz = Inr a \<or> Address_resolve R node service hints = Inr a \<or>
      Address_from_ipv4_numeric e ip = Inr a"
    and "Address_of_sockaddr mem' sz' = Inr b"
  shows "Address_ok a \<and> Address_ok b \<and> (Address_eq a b \<longleftrightarrow> a = b) \<and>
    (Address_eq a b \<longleftrightarrow> take (unat (ad_size a)) (ad_storage a) = take (unat sz') mem')"
proof -
  have a: "Address_ok a"
    using assms(1) Address_resolve_ok by (auto simp: Address_of_sockaddr_Inr Address_from_ipv4_numeric_def)
  have b: "Address_ok b" "unat (ad_size b) = unat sz'" "take (unat sz') (ad_storage b) = take (unat sz') mem'"
      "unat sz' \<le> length mem'"
    using assms(2) by (auto simp: Address_of_sockaddr_Inr)
  have len: "length (take (unat (ad_size a)) (ad_storage a)) = unat (ad_size a)"
    using a by (simp add: Address_ok_def)
  have "Address_eq a b \<longleftrightarrow> take (unat (ad_size a)) (ad_storage a) = take (unat sz') mem'"
  proof (cases "unat (ad_size a) = unat sz'")
    case True
    then show ?thesis using b by (simp add: Address_eq_def word_unat_eq_iff)
  next
    case False
    then have "take (unat (ad_size a)) (ad_storage a) \<noteq> take (unat sz') mem'" using len b(4) by (metis length_take min.absorb2)
    then show ?thesis using False b(2) by (auto simp: Address_eq_def)
  qed
  moreover have "a = b" if eq: "Address_eq a b"
  proof -
    have "ad_storage a = ad_storage b"
      using eq a b(1) unfolding Address_eq_def Address_ok_def
      by (metis append_take_drop_id)
    then show ?thesis using eq by (simp add: Address_eq_def split: if_splits)
  qed
  moreover have "Address_eq a a" by (simp add: Address_eq_def)
  ultimately show ?thesis using a b(1) by blast
qed

theorem Address_well_formed_witness:
  "\<exists>a b. Address_of_sockaddr [2, 0, 0, 80, 9] 4 = Inr a \<and> Address_of_sockaddr [2, 0, 0, 80, 7] 4 = Inr b \<and> Address_ok a \<and> a = b"
proof -
  obtain a b where ab: "Address_of_sockaddr [2, 0, 0, 80, 9] 4 = Inr a" "Address_of_sockaddr [2, 0, 0, 80, 7] 4 = Inr b"
    by (simp add: Address_of_sockaddr_def sizeof_sockaddr_storage_def)
  have "take (unat (ad_size a)) (ad_storage a) = [2, 0, 0, 80]"
    using ab(1) by (auto simp: Address_of_sockaddr_Inr)
  with Address_well_formed [OF disjI1 [OF ab(1)] ab(2)] ab show ?thesis by auto
qed

end
