(* ===== verification/Sockets.thy ===== *)
theory Sockets
  imports File_Descriptor Socket_Address
begin

unbundle bit_operations_syntax

text \<open>
  Network sockets: \<open>libsponge/util/socket.hh\<close> and \<open>socket.cc\<close>. A socket is a \<open>FileDescriptor\<close>; the
  socket calls of the kernel are parameters, and an exception in a constructor destroys the handle
  the base class already holds.
\<close>

section \<open>The socket calls\<close>

definition SOCK_STREAM :: int where "SOCK_STREAM = 1"
definition SOCK_DGRAM :: int where "SOCK_DGRAM = 2"
definition SOL_SOCKET :: int where "SOL_SOCKET = 1"
definition SO_REUSEADDR :: int where "SO_REUSEADDR = 2"
definition SO_TYPE :: int where "SO_TYPE = 3"
definition SO_DOMAIN :: int where "SO_DOMAIN = 39"
definition SHUT_RD :: int where "SHUT_RD = 0"
definition SHUT_WR :: int where "SHUT_WR = 1"
definition SHUT_RDWR :: int where "SHUT_RDWR = 2"
definition MSG_TRUNC :: int where "MSG_TRUNC = 0x20"

text \<open>
  Every call gives what it reports and what it stored through its pointers. \<open>sys_getsockopt\<close> stores a
  value and its length; the calls that ask for an address get the size of the buffer and store bytes
  and the real length; \<open>sys_recvfrom\<close> stores the data before those; \<open>sys_sendmsg\<close> gets the
  destination, if any, and the \<open>iovec\<close>s.
\<close>

record 'w socket_kernel =
  sys_socket :: "int \<Rightarrow> int \<Rightarrow> int \<Rightarrow> 'w \<Rightarrow> (sys_result \<times> unit) \<times> 'w"
  sys_getsockopt :: "int \<Rightarrow> int \<Rightarrow> int \<Rightarrow> u32 \<Rightarrow> 'w \<Rightarrow> (sys_result \<times> int \<times> u32) \<times> 'w"
  sys_setsockopt :: "int \<Rightarrow> int \<Rightarrow> int \<Rightarrow> int \<Rightarrow> u32 \<Rightarrow> 'w \<Rightarrow> (sys_result \<times> unit) \<times> 'w"
  sys_getsockname :: "int \<Rightarrow> u32 \<Rightarrow> 'w \<Rightarrow> (sys_result \<times> bytes \<times> u32) \<times> 'w"
  sys_getpeername :: "int \<Rightarrow> u32 \<Rightarrow> 'w \<Rightarrow> (sys_result \<times> bytes \<times> u32) \<times> 'w"
  sys_bind :: "int \<Rightarrow> bytes \<times> u32 \<Rightarrow> 'w \<Rightarrow> (sys_result \<times> unit) \<times> 'w"
  sys_connect :: "int \<Rightarrow> bytes \<times> u32 \<Rightarrow> 'w \<Rightarrow> (sys_result \<times> unit) \<times> 'w"
  sys_shutdown :: "int \<Rightarrow> int \<Rightarrow> 'w \<Rightarrow> (sys_result \<times> unit) \<times> 'w"
  sys_listen :: "int \<Rightarrow> int \<Rightarrow> 'w \<Rightarrow> (sys_result \<times> unit) \<times> 'w"
  sys_accept :: "int \<Rightarrow> 'w \<Rightarrow> (sys_result \<times> unit) \<times> 'w"
  sys_recvfrom :: "int \<Rightarrow> size_t \<Rightarrow> int \<Rightarrow> u32 \<Rightarrow> 'w \<Rightarrow> (sys_result \<times> bytes \<times> bytes \<times> u32) \<times> 'w"
  sys_sendmsg :: "int \<Rightarrow> (bytes \<times> u32) option \<Rightarrow> (bytes \<times> size_t) list \<Rightarrow> 'w \<Rightarrow> (sys_result \<times> unit) \<times> 'w"

text \<open>\<open>SystemCall(name, ::f(fd_num(), ...))\<close>: the value of the call and what it stored.\<close>

definition fd_call ::
  "string \<Rightarrow> FileDescriptor \<Rightarrow> (int \<Rightarrow> 'w \<Rightarrow> (sys_result \<times> 'x) \<times> 'w) \<Rightarrow> ('w machine, int \<times> 'x) action" where
  "fd_call name d f =
     bind (FileDescriptor_fd_num d) (\<lambda>n.
     bind (kernel_call (f n)) (\<lambda>(r, stored).
     bind (lift (SystemCall name r 0)) (\<lambda>v. returns (v, stored))))"

text \<open>What a call stored in a buffer that held \<open>buf\<close>.\<close>

definition overlay :: "bytes \<Rightarrow> bytes \<Rightarrow> bytes" where
  "overlay stored buf = take (length buf) stored @ drop (length stored) buf"

definition raw_address :: "bytes \<Rightarrow> bytes" where
  "raw_address stored = overlay stored (replicate sizeof_sockaddr_storage 0)"

text \<open>An exception in the body of a constructor destroys the base object.\<close>

definition or_destroy :: "'w kernel \<Rightarrow> FileDescriptor \<Rightarrow> ('w machine, 'a) action \<Rightarrow> ('w machine, 'a) action" where
  "or_destroy K d m = catch_exception m (\<lambda>e. bind (FileDescriptor_destroy K d) (\<lambda>_. throws e))"

section \<open>Socket\<close>

type_synonym Socket = FileDescriptor

definition Socket_new :: "'w socket_kernel \<Rightarrow> int \<Rightarrow> int \<Rightarrow> ('w machine, Socket) action" where
  "Socket_new N domain ty =
     bind (kernel_call (sys_socket N domain ty 0)) (\<lambda>(r, _).
     bind (lift (SystemCall ''socket'' r 0)) FileDescriptor_new)"

text \<open>\<open>sizeof(int)\<close> is 4.\<close>

definition verify_option ::
  "'w socket_kernel \<Rightarrow> FileDescriptor \<Rightarrow> int \<Rightarrow> int \<Rightarrow> string \<Rightarrow> ('w machine, unit) action" where
  "verify_option N d opt expected message =
     bind (fd_call ''getsockopt'' d (\<lambda>n. sys_getsockopt N n SOL_SOCKET opt 4)) (\<lambda>(_, actual_value, len).
       if len \<noteq> 4 \<or> actual_value \<noteq> expected then throws (runtime_error message) else returns ())"

definition Socket_of_fd ::
  "'w kernel \<Rightarrow> 'w socket_kernel \<Rightarrow> FileDescriptor \<Rightarrow> int \<Rightarrow> int \<Rightarrow> ('w machine, Socket) action" where
  "Socket_of_fd K N fd domain ty =
     or_destroy K fd
       (bind (verify_option N fd SO_DOMAIN domain ''socket domain mismatch'') (\<lambda>_.
        bind (verify_option N fd SO_TYPE ty ''socket type mismatch'') (\<lambda>_. returns fd)))"

definition Socket_get_address ::
  "string \<Rightarrow> (int \<Rightarrow> u32 \<Rightarrow> 'w \<Rightarrow> (sys_result \<times> bytes \<times> u32) \<times> 'w) \<Rightarrow> Socket \<Rightarrow> ('w machine, Address) action" where
  "Socket_get_address name_of_function func d =
     bind (fd_call name_of_function d (\<lambda>n. func n (of_nat sizeof_sockaddr_storage))) (\<lambda>(_, address, sz).
       lift (Address_of_sockaddr (raw_address address) (ucast sz)))"

definition Socket_local_address :: "'w socket_kernel \<Rightarrow> Socket \<Rightarrow> ('w machine, Address) action" where
  "Socket_local_address N d = Socket_get_address ''getsockname'' (sys_getsockname N) d"

definition Socket_peer_address :: "'w socket_kernel \<Rightarrow> Socket \<Rightarrow> ('w machine, Address) action" where
  "Socket_peer_address N d = Socket_get_address ''getpeername'' (sys_getpeername N) d"

definition Socket_bind :: "'w socket_kernel \<Rightarrow> Socket \<Rightarrow> Address \<Rightarrow> ('w machine, unit) action" where
  "Socket_bind N d address =
     bind (fd_call ''bind'' d (\<lambda>n. sys_bind N n (ad_storage address, Address_size address))) (\<lambda>_. returns ())"

definition Socket_connect :: "'w socket_kernel \<Rightarrow> Socket \<Rightarrow> Address \<Rightarrow> ('w machine, unit) action" where
  "Socket_connect N d address =
     bind (fd_call ''connect'' d (\<lambda>n. sys_connect N n (ad_storage address, Address_size address))) (\<lambda>_. returns ())"

definition Socket_shutdown :: "'w socket_kernel \<Rightarrow> Socket \<Rightarrow> int \<Rightarrow> ('w machine, unit) action" where
  "Socket_shutdown N d how =
     bind (fd_call ''shutdown'' d (\<lambda>n. sys_shutdown N n how)) (\<lambda>_.
       if how = SHUT_RD then FileDescriptor_register_read d
       else if how = SHUT_WR then FileDescriptor_register_write d
       else if how = SHUT_RDWR
       then bind (FileDescriptor_register_read d) (\<lambda>_. FileDescriptor_register_write d)
       else throws (runtime_error ''Socket::shutdown() called with invalid `how`''))"

text \<open>The template at \<open>int\<close>, the only type it is used at.\<close>

definition Socket_setsockopt ::
  "'w socket_kernel \<Rightarrow> Socket \<Rightarrow> int \<Rightarrow> int \<Rightarrow> int \<Rightarrow> ('w machine, unit) action" where
  "Socket_setsockopt N d level opt opt_value =
     bind (fd_call ''setsockopt'' d (\<lambda>n. sys_setsockopt N n level opt opt_value 4)) (\<lambda>_. returns ())"

definition Socket_set_reuseaddr :: "'w socket_kernel \<Rightarrow> Socket \<Rightarrow> ('w machine, unit) action" where
  "Socket_set_reuseaddr N d = Socket_setsockopt N d SOL_SOCKET SO_REUSEADDR 1"

section \<open>UDPSocket\<close>

definition UDPSocket_new :: "'w socket_kernel \<Rightarrow> ('w machine, Socket) action" where
  "UDPSocket_new N = Socket_new N (uint AF_INET) SOCK_DGRAM"

definition UDPSocket_of_fd :: "'w kernel \<Rightarrow> 'w socket_kernel \<Rightarrow> FileDescriptor \<Rightarrow> ('w machine, Socket) action" where
  "UDPSocket_of_fd K N fd = Socket_of_fd K N fd (uint AF_INET) SOCK_DGRAM"

record received_datagram =
  dg_source_address :: Address
  dg_payload :: bytes

text \<open>
  \<open>recv(datagram, mtu)\<close> changes the caller's datagram also where it throws: its state is the machine
  and the datagram.
\<close>

definition on_machine :: "('w machine, 'a) action \<Rightarrow> ('w machine \<times> 'g, 'a) action" where
  "on_machine m = (\<lambda>(s, g). case m s of (r, s') \<Rightarrow> (r, (s', g)))"

definition resize_payload :: "int \<Rightarrow> ('w machine \<times> received_datagram, unit) action" where
  "resize_payload n = (\<lambda>(s, g). case resize_to n (dg_payload g) of
     Inl e \<Rightarrow> (Inl e, (s, g)) | Inr p \<Rightarrow> (Inr (), (s, g\<lparr>dg_payload := p\<rparr>)))"

definition store_payload :: "bytes \<Rightarrow> ('w machine \<times> received_datagram, unit) action" where
  "store_payload data = (\<lambda>(s, g). (Inr (), (s, g\<lparr>dg_payload := overlay data (dg_payload g)\<rparr>)))"

definition store_source :: "Address \<Rightarrow> ('w machine \<times> received_datagram, unit) action" where
  "store_source a = (\<lambda>(s, g). (Inr (), (s, g\<lparr>dg_source_address := a\<rparr>)))"

definition UDPSocket_recv_into ::
  "'w socket_kernel \<Rightarrow> Socket \<Rightarrow> size_t \<Rightarrow> ('w machine \<times> received_datagram, unit) action" where
  "UDPSocket_recv_into N d mtu =
     bind (resize_payload (sint mtu)) (\<lambda>_.
     bind (on_machine (FileDescriptor_fd_num d)) (\<lambda>n.
     bind (on_machine (kernel_call (sys_recvfrom N n mtu MSG_TRUNC (of_nat sizeof_sockaddr_storage))))
       (\<lambda>(r, data, from, fromlen).
     bind (store_payload data) (\<lambda>_.
     bind (lift (SystemCall ''recvfrom'' r 0)) (\<lambda>recv_len.
     if sint mtu < recv_len then throws (runtime_error ''recvfrom (oversized datagram)'')
     else
       bind (on_machine (FileDescriptor_register_read d)) (\<lambda>_.
       bind (lift (Address_of_sockaddr (raw_address from) (ucast fromlen))) (\<lambda>a.
       bind (store_source a) (\<lambda>_.
       resize_payload recv_len))))))))"

definition UDPSocket_recv :: "'w socket_kernel \<Rightarrow> Socket \<Rightarrow> size_t \<Rightarrow> ('w machine, received_datagram) action" where
  "UDPSocket_recv N d mtu =
     bind (lift (Address_of_sockaddr [] 0)) (\<lambda>a s.
       case UDPSocket_recv_into N d mtu (s, \<lparr>dg_source_address = a, dg_payload = []\<rparr>) of
         (Inl e, (s', _)) \<Rightarrow> (Inl e, s') | (Inr _, (s', ret)) \<Rightarrow> (Inr ret, s'))"

definition sendmsg_helper ::
  "'w socket_kernel \<Rightarrow> int \<Rightarrow> (bytes \<times> u32) option \<Rightarrow> BufferViewList \<Rightarrow> ('w machine, unit) action" where
  "sendmsg_helper N fd_num destination payload =
     bind (kernel_call (sys_sendmsg N fd_num destination (BufferViewList_as_iovecs payload))) (\<lambda>(r, _).
     bind (lift (SystemCall ''sendmsg'' r 0)) (\<lambda>bytes_sent.
       if of_int bytes_sent \<noteq> BufferViewList_size payload
       then throws (runtime_error ''datagram payload too big for sendmsg()'') else returns ()))"

definition UDPSocket_sendto ::
  "'w socket_kernel \<Rightarrow> Socket \<Rightarrow> Address \<Rightarrow> BufferViewList \<Rightarrow> ('w machine, unit) action" where
  "UDPSocket_sendto N d destination payload =
     bind (FileDescriptor_fd_num d) (\<lambda>n.
     bind (sendmsg_helper N n (Some (ad_storage destination, Address_size destination)) payload) (\<lambda>_.
       FileDescriptor_register_write d))"

definition UDPSocket_send :: "'w socket_kernel \<Rightarrow> Socket \<Rightarrow> BufferViewList \<Rightarrow> ('w machine, unit) action" where
  "UDPSocket_send N d payload =
     bind (FileDescriptor_fd_num d) (\<lambda>n.
     bind (sendmsg_helper N n None payload) (\<lambda>_.
       FileDescriptor_register_write d))"

section \<open>TCPSocket and LocalStreamSocket\<close>

definition TCPSocket_new :: "'w socket_kernel \<Rightarrow> ('w machine, Socket) action" where
  "TCPSocket_new N = Socket_new N (uint AF_INET) SOCK_STREAM"

definition TCPSocket_of_fd :: "'w kernel \<Rightarrow> 'w socket_kernel \<Rightarrow> FileDescriptor \<Rightarrow> ('w machine, Socket) action" where
  "TCPSocket_of_fd K N fd = Socket_of_fd K N fd (uint AF_INET) SOCK_STREAM"

definition TCPSocket_listen :: "'w socket_kernel \<Rightarrow> Socket \<Rightarrow> int \<Rightarrow> ('w machine, unit) action" where
  "TCPSocket_listen N d backlog = bind (fd_call ''listen'' d (\<lambda>n. sys_listen N n backlog)) (\<lambda>_. returns ())"

definition TCPSocket_accept :: "'w kernel \<Rightarrow> 'w socket_kernel \<Rightarrow> Socket \<Rightarrow> ('w machine, Socket) action" where
  "TCPSocket_accept K N d =
     bind (FileDescriptor_register_read d) (\<lambda>_.
     bind (fd_call ''accept'' d (sys_accept N)) (\<lambda>(n, _).
     bind (FileDescriptor_new n) (\<lambda>fd. TCPSocket_of_fd K N fd)))"

definition LocalStreamSocket_of_fd ::
  "'w kernel \<Rightarrow> 'w socket_kernel \<Rightarrow> FileDescriptor \<Rightarrow> ('w machine, Socket) action" where
  "LocalStreamSocket_of_fd K N fd = Socket_of_fd K N fd (uint AF_UNIX) SOCK_STREAM"

section \<open>Calls on a live descriptor\<close>

lemma fd_call_live:
  assumes "mc_heap s (internal_fd d) = Some w" "f (fw_fd w) (mc_kernel s) = ((r, x), k)"
  shows "fd_call name d f s =
    (case SystemCall name r 0 of Inl e \<Rightarrow> (Inl e, s\<lparr>mc_kernel := k\<rparr>) | Inr v \<Rightarrow> (Inr (v, x), s\<lparr>mc_kernel := k\<rparr>))"
  by (simp add: fd_call_def bind_def fd_num_live [OF assms(1)] kernel_call_def assms(2) split: sum.split)

lemma SystemCall_no_ub: "SystemCall name r m = Inl e \<Longrightarrow> e \<noteq> undefined_behaviour"
  by (auto simp: SystemCall_def Let_def split: if_splits)

lemma SystemCall_failed:
  "r < 0 \<Longrightarrow> - (2 ^ 31) \<le> r \<Longrightarrow> err \<noteq> 0 \<Longrightarrow> SystemCall name (r, err) 0 = Inl (unix_error name err)"
  by (simp add: SystemCall_def c_int_small Let_def)

text \<open>The last handle of an open descriptor closes it and frees the wrapper.\<close>

lemma destroy_last:
  assumes "mc_heap s (internal_fd d) = Some w" "mc_refs s (internal_fd d) = 1" "\<not> fw_closed w"
    "counts_closes K (fw_fd w) closes"
  shows "\<exists>s'. FileDescriptor_destroy K d s = (Inr (), s') \<and> mc_heap s' = (mc_heap s)(internal_fd d := None) \<and>
    mc_next s' = mc_next s \<and> closes (mc_kernel s') = Suc (closes (mc_kernel s))"
proof -
  obtain r k where call: "sys_close K (fw_fd w) (mc_kernel s) = (r, k)" by (metis prod.exhaust)
  then have "closes k = Suc (closes (mc_kernel s))" using assms(4) by (metis counts_closes_def snd_conv)
  then show ?thesis
    using assms(1-3) SystemCall_no_ub [of "''close''" r 0]
    by (cases "SystemCall ''close'' r 0")
      (simp_all add: FileDescriptor_destroy_def FDWrapper_destroy_def FDWrapper_close_def catch_exception_def bind_def
        wrapper_at_def kernel_call_def call update_wrapper_def Let_def)
qed

section \<open>Construction from a descriptor\<close>

text \<open>
  The documented behaviour of \<open>getsockopt(2)\<close> and \<open>accept(2)\<close>: \<open>info\<close> are the domain and the type of a
  descriptor, which asking does not change; neither call closes a descriptor.
\<close>

definition getsockopt_contract :: "'w socket_kernel \<Rightarrow> ('w \<Rightarrow> int \<Rightarrow> int \<times> int) \<Rightarrow> ('w \<Rightarrow> nat) \<Rightarrow> bool" where
  "getsockopt_contract N info closes \<longleftrightarrow> (\<forall>n opt w. case sys_getsockopt N n SOL_SOCKET opt 4 w of
     (((r, err), v, len), w') \<Rightarrow> info w' = info w \<and> closes w' = closes w \<and>
       (if r < 0 then - (2 ^ 31) \<le> r \<and> err \<noteq> 0
        else r < 2 ^ 31 \<and> (opt = SO_DOMAIN \<longrightarrow> v = fst (info w n) \<and> len = 4) \<and> (opt = SO_TYPE \<longrightarrow> v = snd (info w n) \<and> len = 4)))"

definition accept_contract :: "'w socket_kernel \<Rightarrow> ('w \<Rightarrow> nat) \<Rightarrow> bool" where
  "accept_contract N closes \<longleftrightarrow> (\<forall>n w. case sys_accept N n w of
     (((r, err), _), w') \<Rightarrow> closes w' = closes w \<and> - (2 ^ 31) \<le> r \<and> r < 2 ^ 31 \<and> (r < 0 \<longrightarrow> err \<noteq> 0))"

lemma getsockopt_contractD:
  assumes "getsockopt_contract N info closes" "sys_getsockopt N n SOL_SOCKET opt 4 w = (((r, err), v, len), w')"
  shows "info w' = info w" "closes w' = closes w" "r < 0 \<Longrightarrow> - (2 ^ 31) \<le> r \<and> err \<noteq> 0" "0 \<le> r \<Longrightarrow> r < 2 ^ 31"
    "0 \<le> r \<Longrightarrow> opt = SO_DOMAIN \<Longrightarrow> v = fst (info w n) \<and> len = 4"
    "0 \<le> r \<Longrightarrow> opt = SO_TYPE \<Longrightarrow> v = snd (info w n) \<and> len = 4"
  using spec [OF spec [OF spec [OF assms(1) [unfolded getsockopt_contract_def], of n], of opt], of w] assms(2) by (auto split: if_splits)

lemma verify_option_live:
  assumes "mc_heap s (internal_fd d) = Some w" "getsockopt_contract N info closes"
    and opt: "(opt, v) \<in> {(SO_DOMAIN, fst (info (mc_kernel s) (fw_fd w))), (SO_TYPE, snd (info (mc_kernel s) (fw_fd w)))}"
  shows "\<exists>k. info k = info (mc_kernel s) \<and> closes k = closes (mc_kernel s) \<and>
    (v = expected \<and> verify_option N d opt expected message s = (Inr (), s\<lparr>mc_kernel := k\<rparr>) \<or>
     (\<exists>e. e \<noteq> undefined_behaviour \<and> verify_option N d opt expected message s = (Inl e, s\<lparr>mc_kernel := k\<rparr>)))"
proof -
  obtain r err x len k where call:
    "sys_getsockopt N (fw_fd w) SOL_SOCKET opt 4 (mc_kernel s) = (((r, err), x, len), k)" by (metis prod.exhaust)
  note D = getsockopt_contractD [OF assms(2) call]
  have facts: "info k = info (mc_kernel s)" "closes k = closes (mc_kernel s)" "\<not> r < 0 \<longrightarrow> r < 2 ^ 31 \<and> x = v \<and> len = 4"
    "r < 0 \<longrightarrow> - (2 ^ 31) \<le> r \<and> err \<noteq> 0"
    using D opt by (auto simp: not_less)
  have fd: "fd_call ''getsockopt'' d (\<lambda>n. sys_getsockopt N n SOL_SOCKET opt 4) s =
      (if r < 0 then (Inl (unix_error ''getsockopt'' err), s\<lparr>mc_kernel := k\<rparr>) else (Inr (r, x, len), s\<lparr>mc_kernel := k\<rparr>))"
    using fd_call_live [OF assms(1), of "\<lambda>n. sys_getsockopt N n SOL_SOCKET opt 4" "(r, err)" "(x, len)" k] facts call
    by (simp add: SystemCall_failed SystemCall_ok)
  show ?thesis
    using facts by (intro exI [of _ k]) (auto simp: verify_option_def bind_def fd)
qed

text \<open>Both checks of the constructor pass, or one of them throws.\<close>

lemma verify_options_live:
  assumes live: "mc_heap s (internal_fd d) = Some w" and N: "getsockopt_contract N info closes"
    and m: "m = bind (verify_option N d SO_DOMAIN domain ''socket domain mismatch'') (\<lambda>_.
        bind (verify_option N d SO_TYPE ty ''socket type mismatch'') (\<lambda>_. returns d))"
  obtains k where "m s = (Inr d, s\<lparr>mc_kernel := k\<rparr>)" "info k = info (mc_kernel s)" "info k (fw_fd w) = (domain, ty)"
      "closes k = closes (mc_kernel s)"
    | e k where "m s = (Inl e, s\<lparr>mc_kernel := k\<rparr>)" "e \<noteq> undefined_behaviour" "closes k = closes (mc_kernel s)"
proof -
  obtain k1 where k1: "info k1 = info (mc_kernel s)" "closes k1 = closes (mc_kernel s)"
    and v1: "fst (info (mc_kernel s) (fw_fd w)) = domain \<and>
        verify_option N d SO_DOMAIN domain ''socket domain mismatch'' s = (Inr (), s\<lparr>mc_kernel := k1\<rparr>) \<or>
      (\<exists>e. e \<noteq> undefined_behaviour \<and>
        verify_option N d SO_DOMAIN domain ''socket domain mismatch'' s = (Inl e, s\<lparr>mc_kernel := k1\<rparr>))"
    using verify_option_live [OF live N, of SO_DOMAIN _ domain "''socket domain mismatch''"] by blast
  obtain k2 where k2: "info k2 = info k1" "closes k2 = closes k1"
    and v2: "snd (info k1 (fw_fd w)) = ty \<and>
        verify_option N d SO_TYPE ty ''socket type mismatch'' (s\<lparr>mc_kernel := k1\<rparr>) = (Inr (), s\<lparr>mc_kernel := k2\<rparr>) \<or>
      (\<exists>e. e \<noteq> undefined_behaviour \<and>
        verify_option N d SO_TYPE ty ''socket type mismatch'' (s\<lparr>mc_kernel := k1\<rparr>) = (Inl e, s\<lparr>mc_kernel := k2\<rparr>))"
    using verify_option_live [of "s\<lparr>mc_kernel := k1\<rparr>" d w N info closes SO_TYPE "snd (info k1 (fw_fd w))" ty
        "''socket type mismatch''"] live N
    by auto
  show thesis
    using v1
  proof (elim disjE conjE exE)
    fix e assume "e \<noteq> undefined_behaviour" "verify_option N d SO_DOMAIN domain ''socket domain mismatch'' s = (Inl e, s\<lparr>mc_kernel := k1\<rparr>)"
    then show thesis using that(2) [of e k1] k1 by (simp add: bind_def m)
  next
    assume domain: "fst (info (mc_kernel s) (fw_fd w)) = domain"
      "verify_option N d SO_DOMAIN domain ''socket domain mismatch'' s = (Inr (), s\<lparr>mc_kernel := k1\<rparr>)"
    show thesis
      using v2
    proof (elim disjE conjE exE)
      fix e assume "e \<noteq> undefined_behaviour"
        "verify_option N d SO_TYPE ty ''socket type mismatch'' (s\<lparr>mc_kernel := k1\<rparr>) = (Inl e, s\<lparr>mc_kernel := k2\<rparr>)"
      then show thesis using that(2) [of e k2] domain k1 k2 by (simp add: bind_def m)
    next
      assume "snd (info k1 (fw_fd w)) = ty"
        "verify_option N d SO_TYPE ty ''socket type mismatch'' (s\<lparr>mc_kernel := k1\<rparr>) = (Inr (), s\<lparr>mc_kernel := k2\<rparr>)"
      moreover from this(1) have "info k2 (fw_fd w) = (domain, ty)" using domain(1) k1 k2 by (simp add: prod_eq_iff)
      ultimately show thesis using that(1) [of k2] domain k1 k2 by (simp add: bind_def m)
    qed
  qed
qed

lemma Socket_of_fd_live:
  assumes live: "mc_heap s (internal_fd d) = Some w" "mc_refs s (internal_fd d) = 1" "\<not> fw_closed w"
    and K: "counts_closes K (fw_fd w) closes" and N: "getsockopt_contract N info closes"
  shows "(\<exists>k. Socket_of_fd K N d domain ty s = (Inr d, s\<lparr>mc_kernel := k\<rparr>) \<and> info k = info (mc_kernel s) \<and>
      info k (fw_fd w) = (domain, ty) \<and> closes k = closes (mc_kernel s)) \<or>
    (\<exists>e s'. Socket_of_fd K N d domain ty s = (Inl e, s') \<and> e \<noteq> undefined_behaviour \<and>
      mc_heap s' = (mc_heap s)(internal_fd d := None) \<and> closes (mc_kernel s') = Suc (closes (mc_kernel s)))"
proof -
  let ?m = "bind (verify_option N d SO_DOMAIN domain ''socket domain mismatch'') (\<lambda>_.
        bind (verify_option N d SO_TYPE ty ''socket type mismatch'') (\<lambda>_. returns d))"
  show ?thesis
  proof (cases rule: verify_options_live [OF live(1) N, of ?m domain ty, OF refl])
    case (1 k)
    then show ?thesis
      by (intro disjI1 exI [of _ k]) (simp add: Socket_of_fd_def or_destroy_def catch_exception_def)
  next
    case (2 e k)
    obtain s' where "FileDescriptor_destroy K d (s\<lparr>mc_kernel := k\<rparr>) = (Inr (), s')"
      "mc_heap s' = (mc_heap s)(internal_fd d := None)" "closes (mc_kernel s') = Suc (closes k)"
      using destroy_last [of "s\<lparr>mc_kernel := k\<rparr>" d w K closes] live K by auto
    then show ?thesis
      using 2 by (simp add: Socket_of_fd_def or_destroy_def catch_exception_def bind_def)
  qed
qed

section \<open>Datagrams\<close>

text \<open>
  The documented behaviour of \<open>recvfrom(2)\<close> with \<open>MSG_TRUNC\<close> on the descriptor \<open>n\<close>: \<open>queue\<close> are the
  waiting datagrams with the bytes of their sender's address. A call takes the first of them, stores as
  much of it as fits, and returns its real length; or it fails and takes none.
\<close>

definition recvfrom_contract :: "'w socket_kernel \<Rightarrow> int \<Rightarrow> ('w \<Rightarrow> (bytes \<times> bytes) list) \<Rightarrow> bool" where
  "recvfrom_contract N n queue \<longleftrightarrow> (\<forall>sz w. case sys_recvfrom N n sz MSG_TRUNC 128 w of
     (((r, err), data, from, fromlen), w') \<Rightarrow>
       if r < 0 then - (2 ^ 31) \<le> r \<and> err \<noteq> 0 \<and> queue w' = queue w
       else \<exists>p. queue w = (p, from) # queue w' \<and> r = int (length p) \<and> length p < 2 ^ 31 \<and>
         data = take (unat sz) p \<and> unat fromlen = length from \<and> length from \<le> 128)"

text \<open>
  \<open>sendmsg(2)\<close>: \<open>sent\<close> are the datagrams that left the host. A successful call sends one with a prefix
  of the data, a failing one none.
\<close>

definition sendmsg_contract :: "'w socket_kernel \<Rightarrow> int \<Rightarrow> ('w \<Rightarrow> ((bytes \<times> u32) option \<times> bytes) list) \<Rightarrow> bool" where
  "sendmsg_contract N n sent \<longleftrightarrow> (\<forall>dest iov w. case sys_sendmsg N n dest iov w of (((r, err), _), w') \<Rightarrow>
     let data = concat (map fst iov) in
       if r < 0 then - (2 ^ 31) \<le> r \<and> err \<noteq> 0 \<and> sent w' = sent w
       else r < 2 ^ 31 \<and> nat r \<le> length data \<and> sent w' = sent w @ [(dest, take (nat r) data)])"

lemma recvfrom_contractD:
  assumes "recvfrom_contract N n queue" "sys_recvfrom N n sz MSG_TRUNC 128 w = (((r, err), data, from, fromlen), w')"
  shows "r < 0 \<Longrightarrow> - (2 ^ 31) \<le> r \<and> err \<noteq> 0 \<and> queue w' = queue w"
    "0 \<le> r \<Longrightarrow> \<exists>p. queue w = (p, from) # queue w' \<and> r = int (length p) \<and> length p < 2 ^ 31 \<and>
      data = take (unat sz) p \<and> unat fromlen = length from \<and> length from \<le> 128"
  using spec [OF spec [OF assms(1) [unfolded recvfrom_contract_def], of sz], of w] assms(2) by (simp_all split: if_splits)

lemma sendmsg_contractD:
  assumes "sendmsg_contract N n sent" "sys_sendmsg N n dest iov w = (((r, err), u), w')"
  shows "r < 0 \<Longrightarrow> - (2 ^ 31) \<le> r \<and> err \<noteq> 0 \<and> sent w' = sent w"
    "0 \<le> r \<Longrightarrow> r < 2 ^ 31 \<and> nat r \<le> length (concat (map fst iov)) \<and>
      sent w' = sent w @ [(dest, take (nat r) (concat (map fst iov)))]"
  using spec [OF spec [OF spec [OF assms(1) [unfolded sendmsg_contract_def], of dest], of iov], of w] assms(2)
  by (simp_all add: Let_def split: if_splits)

lemma raw_address_store:
  assumes "unat fromlen = length from" "length from \<le> 128"
  shows "\<exists>a. Address_of_sockaddr (raw_address from) (ucast (fromlen :: u32)) = Inr a \<and>
    unat (ad_size a) = length from \<and> take (length from) (ad_storage a) = from"
proof -
  have len: "unat (ucast fromlen :: size_t) = length from" using assms by (simp add: unat_ucast_up)
  have raw: "length (raw_address from) = 128" "take (length from) (raw_address from) = from"
    using assms by (simp_all add: raw_address_def overlay_def sizeof_sockaddr_storage_def)
  define a where "a = \<lparr>ad_size = ucast (ucast fromlen :: size_t), ad_storage = from @ replicate (128 - length from) 0\<rparr>"
  have "Address_of_sockaddr (raw_address from) (ucast fromlen) = Inr a"
    using assms raw by (simp add: Address_of_sockaddr_def len a_def sizeof_sockaddr_storage_def)
  moreover have "unat (ad_size a) = length from" using unat_ucast_size [of "ucast fromlen"] assms(2) by (simp only: a_def Address.select_convs len)
  ultimately show ?thesis by (auto simp: a_def)
qed

text \<open>One call of \<open>recv\<close> on a live socket.\<close>

lemma recv_at:
  assumes live: "mc_heap s (internal_fd d) = Some w" and mtu: "unat mtu < 2 ^ 63"
    and D: "r < 0 \<Longrightarrow> - (2 ^ 31) \<le> r \<and> err \<noteq> 0 \<and> q' = q"
      "0 \<le> r \<Longrightarrow> \<exists>p. q = (p, from) # q' \<and> r = int (length p) \<and> length p < 2 ^ 31 \<and>
         data = take (unat mtu) p \<and> unat fromlen = length from \<and> length from \<le> 128"
    and call: "sys_recvfrom N (fw_fd w) mtu MSG_TRUNC 128 (mc_kernel s) = (((r, err), data, from, fromlen), k)"
  shows "r < 0 \<Longrightarrow> UDPSocket_recv N d mtu s = (Inl (unix_error ''recvfrom'' err), s\<lparr>mc_kernel := k\<rparr>)"
    and "int (unat mtu) < r \<Longrightarrow>
      UDPSocket_recv N d mtu s = (Inl (runtime_error ''recvfrom (oversized datagram)''), s\<lparr>mc_kernel := k\<rparr>)"
    and "0 \<le> r \<Longrightarrow> r \<le> int (unat mtu) \<Longrightarrow> \<exists>p a. q = (p, from) # q' \<and> r = int (length p) \<and>
      unat (ad_size a) = length from \<and> take (length from) (ad_storage a) = from \<and>
      UDPSocket_recv N d mtu s = (Inr \<lparr>dg_source_address = a, dg_payload = p\<rparr>, s\<lparr>mc_kernel := k,
        mc_heap := (mc_heap s)(internal_fd d \<mapsto> w\<lparr>fw_read_count := fw_read_count w + 1\<rparr>)\<rparr>)"
proof -
  obtain a0 where a0: "Address_of_sockaddr [] 0 = Inr a0" by (simp add: Address_of_sockaddr_def)
  have sint: "sint mtu = uint mtu" using sint_eq_unat [OF mtu] by simp
  have start: "resize_to (uint mtu) [] = Inr (replicate (unat mtu) 0)" by (simp add: resize_to_def string_resize_def)
  note unfolds = UDPSocket_recv_def UDPSocket_recv_into_def bind_def on_machine_def resize_payload_def store_payload_def
    store_source_def kernel_call_def sizeof_sockaddr_storage_def
  note sims = a0 start fd_num_live [OF live] call sint
  show "UDPSocket_recv N d mtu s = (Inl (unix_error ''recvfrom'' err), s\<lparr>mc_kernel := k\<rparr>)" if "r < 0"
    using that D(1) by (simp add: unfolds sims SystemCall_failed)
  show "UDPSocket_recv N d mtu s = (Inl (runtime_error ''recvfrom (oversized datagram)''), s\<lparr>mc_kernel := k\<rparr>)"
    if "int (unat mtu) < r"
  proof -
    have "0 \<le> r" using that by linarith
    then have "SystemCall ''recvfrom'' (r, err) 0 = Inr r" using D(2) by (intro SystemCall_ok) auto
    then show ?thesis using that by (simp add: unfolds sims)
  qed
  assume r: "0 \<le> r" "r \<le> int (unat mtu)"
  then obtain p where p: "q = (p, from) # q'" "r = int (length p)" "length p < 2 ^ 31"
    "data = take (unat mtu) p" "unat fromlen = length from" "length from \<le> 128" using D(2) by blast
  obtain a where a: "Address_of_sockaddr (raw_address from) (ucast fromlen) = Inr a"
    "unat (ad_size a) = length from" "take (length from) (ad_storage a) = from"
    using raw_address_store [OF p(5,6)] by blast
  have sys: "SystemCall ''recvfrom'' (r, err) 0 = Inr r" using p r by (intro SystemCall_ok) auto
  have resize: "resize_to r (overlay data (replicate (unat mtu) 0)) = Inr p"
  proof -
    have "length p \<le> unat mtu" using p(2) r(2) by (simp only: of_nat_le_iff)
    then show ?thesis using p by (simp add: resize_to_def string_resize_def overlay_def)
  qed
  have "UDPSocket_recv N d mtu s = (Inr \<lparr>dg_source_address = a, dg_payload = p\<rparr>, s\<lparr>mc_kernel := k,
      mc_heap := (mc_heap s)(internal_fd d \<mapsto> w\<lparr>fw_read_count := fw_read_count w + 1\<rparr>)\<rparr>)"
    using r(2) by (simp add: unfolds sims sys a resize FileDescriptor_register_read_def update_wrapper_def wrapper_at_def live)
  then show "\<exists>p a. q = (p, from) # q' \<and> r = int (length p) \<and>
      unat (ad_size a) = length from \<and> take (length from) (ad_storage a) = from \<and>
      UDPSocket_recv N d mtu s = (Inr \<lparr>dg_source_address = a, dg_payload = p\<rparr>, s\<lparr>mc_kernel := k,
        mc_heap := (mc_heap s)(internal_fd d \<mapsto> w\<lparr>fw_read_count := fw_read_count w + 1\<rparr>)\<rparr>)"
    using p a by blast
qed

lemma recv_live:
  assumes "mc_heap s (internal_fd d) = Some w" "unat mtu < 2 ^ 63" and N: "recvfrom_contract N (fw_fd w) queue"
    and call: "sys_recvfrom N (fw_fd w) mtu MSG_TRUNC 128 (mc_kernel s) = (((r, err), data, from, fromlen), k)"
  shows "r < 0 \<Longrightarrow> UDPSocket_recv N d mtu s = (Inl (unix_error ''recvfrom'' err), s\<lparr>mc_kernel := k\<rparr>)"
    and "int (unat mtu) < r \<Longrightarrow>
      UDPSocket_recv N d mtu s = (Inl (runtime_error ''recvfrom (oversized datagram)''), s\<lparr>mc_kernel := k\<rparr>)"
    and "0 \<le> r \<Longrightarrow> r \<le> int (unat mtu) \<Longrightarrow> \<exists>p a. queue (mc_kernel s) = (p, from) # queue k \<and> r = int (length p) \<and>
      unat (ad_size a) = length from \<and> take (length from) (ad_storage a) = from \<and>
      UDPSocket_recv N d mtu s = (Inr \<lparr>dg_source_address = a, dg_payload = p\<rparr>, s\<lparr>mc_kernel := k,
        mc_heap := (mc_heap s)(internal_fd d \<mapsto> w\<lparr>fw_read_count := fw_read_count w + 1\<rparr>)\<rparr>)"
  by (rule recv_at [OF assms(1,2) recvfrom_contractD [OF N call] call]; assumption)+

lemma sendmsg_live:
  assumes N: "sendmsg_contract N n sent" and size: "BufferViewList_ok payload"
    and call: "sys_sendmsg N n dest (BufferViewList_as_iovecs payload) (mc_kernel s) = (((r, err), u), k)"
  shows "sendmsg_helper N n dest payload s =
    (if r < 0 then (Inl (unix_error ''sendmsg'' err), s\<lparr>mc_kernel := k\<rparr>)
     else if nat r \<noteq> length (concat (bv_views payload))
     then (Inl (runtime_error ''datagram payload too big for sendmsg()''), s\<lparr>mc_kernel := k\<rparr>)
     else (Inr (), s\<lparr>mc_kernel := k\<rparr>))"
proof -
  note D = sendmsg_contractD [OF N call, unfolded iovecs_data]
  show ?thesis
  proof (cases "r < 0")
    case True
    then show ?thesis using D(1) by (simp add: sendmsg_helper_def bind_def kernel_call_def call SystemCall_failed)
  next
    case False
    then have r: "r < 2 ^ 31" "SystemCall ''sendmsg'' (r, err) 0 = Inr r" using D(2) by (auto intro: SystemCall_ok)
    have "unat (of_int r :: size_t) = nat r"
      using False r(1) unat_of_nat_64 [of "nat r"] by simp
    then have "(of_int r :: size_t) = BufferViewList_size payload \<longleftrightarrow> nat r = length (concat (bv_views payload))"
      using views.sz [OF size] by (simp only: word_unat_eq_iff)
    then show ?thesis
      using False r(2) by (simp add: sendmsg_helper_def bind_def kernel_call_def call del: length_concat)
  qed
qed

lemma sendto_sent:
  assumes "mc_heap s (internal_fd d) = Some w" "BufferViewList_ok payload" "sendmsg_contract N (fw_fd w) sent"
    and "UDPSocket_sendto N d destination payload s = (Inr (), s')"
  shows "sent (mc_kernel s') =
    sent (mc_kernel s) @ [(Some (ad_storage destination, ad_size destination), concat (bv_views payload))]"
proof -
  let ?dest = "Some (ad_storage destination, ad_size destination)"
  obtain r err u k where call:
    "sys_sendmsg N (fw_fd w) ?dest (BufferViewList_as_iovecs payload) (mc_kernel s) = (((r, err), u), k)"
    by (metis prod.exhaust)
  note D = sendmsg_contractD [OF assms(3) call, unfolded iovecs_data]
  have "0 \<le> r" "nat r = length (concat (bv_views payload))" "mc_kernel s' = k"
    using assms(4)
    by (auto simp: UDPSocket_sendto_def bind_def fd_num_live [OF assms(1)] sendmsg_live [OF assms(3,2) call]
        FileDescriptor_register_write_def update_wrapper_def wrapper_at_def assms(1) simp del: length_concat split: if_splits)
  then show ?thesis using D(2) by (simp del: length_concat)
qed

section \<open>A network to compute with\<close>

text \<open>Datagrams wait in a queue, sent ones of at most 64 bytes are kept, and every new descriptor is a TCP socket.\<close>

record network =
  nw_queue :: "(bytes \<times> bytes) list"
  nw_sent :: "((bytes \<times> u32) option \<times> bytes) list"
  nw_closes :: nat
  nw_next_fd :: int
  nw_input :: bytes
  nw_output :: bytes

definition network_kernel :: "network kernel" where
  "network_kernel =
     \<lparr>sys_read = (\<lambda>_ sz w. let k = min 3 (min (unat sz) (length (nw_input w)))
        in ((int k, 0), take k (nw_input w), w\<lparr>nw_input := drop k (nw_input w)\<rparr>)),
      sys_writev = (\<lambda>_ iov w. let data = concat (map fst iov); k = min 16 (length data)
        in ((int k, 0), w\<lparr>nw_output := nw_output w @ take k data\<rparr>)),
      sys_close = (\<lambda>_ w. ((0, 0), w\<lparr>nw_closes := Suc (nw_closes w)\<rparr>)),
      sys_getfl = (\<lambda>_ w. ((0, 0), w)), sys_setfl = (\<lambda>_ _ w. ((0, 0), w)), sys_poll = (\<lambda>fds _ w. ((0, 0), fds, w))\<rparr>"

definition network_sockets :: "int \<times> int \<Rightarrow> network socket_kernel" where
  "network_sockets info =
     \<lparr>sys_socket = (\<lambda>_ _ _ w. (((nw_next_fd w, 0), ()), w\<lparr>nw_next_fd := nw_next_fd w + 1\<rparr>)),
      sys_getsockopt = (\<lambda>_ _ opt _ w. (((0, 0), if opt = SO_DOMAIN then fst info else snd info, 4), w)),
      sys_setsockopt = (\<lambda>_ _ _ _ _ w. (((0, 0), ()), w)),
      sys_getsockname = (\<lambda>_ sz w. (((0, 0), take (unat sz) [2, 0], 2), w)),
      sys_getpeername = (\<lambda>_ sz w. (((0, 0), take (unat sz) [2, 0], 2), w)),
      sys_bind = (\<lambda>_ _ w. (((0, 0), ()), w)), sys_connect = (\<lambda>_ _ w. (((0, 0), ()), w)),
      sys_shutdown = (\<lambda>_ _ w. (((0, 0), ()), w)), sys_listen = (\<lambda>_ _ w. (((0, 0), ()), w)),
      sys_accept = (\<lambda>_ w. (((3, 0), ()), w)),
      sys_recvfrom = (\<lambda>_ sz _ _ w. case nw_queue w of [] \<Rightarrow> (((- 1, 11), [], [], 0), w)
        | (p, from) # q \<Rightarrow> if 2 ^ 31 \<le> length p \<or> 128 < length from then (((- 1, 5), [], [], 0), w)
            else (((int (length p), 0), take (unat sz) p, from, of_nat (length from)), w\<lparr>nw_queue := q\<rparr>)),
      sys_sendmsg = (\<lambda>_ dest iov w. let data = take 64 (concat (map fst iov))
        in (((int (length data), 0), ()), w\<lparr>nw_sent := nw_sent w @ [(dest, data)]\<rparr>))\<rparr>"

lemma network_contracts:
  "recvfrom_contract (network_sockets info) n nw_queue" "sendmsg_contract (network_sockets info) n nw_sent"
  "getsockopt_contract (network_sockets info) (\<lambda>_ _. info) nw_closes" "accept_contract (network_sockets info) nw_closes"
  "counts_closes network_kernel n nw_closes"
  by (auto simp: recvfrom_contract_def sendmsg_contract_def getsockopt_contract_def accept_contract_def counts_closes_def
      network_sockets_def network_kernel_def Let_def SO_DOMAIN_def SO_TYPE_def unat_of_nat take_bit_nat_eq_self
      split: list.splits)

section \<open>Properties\<close>

text \<open>
  Claim C14. \<open>recv(mtu)\<close> never delivers a cut datagram: if it returns, it has taken the first waiting
  datagram off the queue and gives exactly its payload and the bytes of its sender's address, and the
  read is counted; if the datagram is longer than \<open>mtu\<close>, it throws (and the datagram is gone); every
  other exception is the kernel's error and takes nothing off the queue.
\<close>

theorem UDPSocket_recv_whole:
  assumes "mc_heap s (internal_fd d) = Some w" and "unat mtu < 2 ^ 63"
    and "recvfrom_contract N (fw_fd w) queue"
  shows "case UDPSocket_recv N d mtu s of
      (Inr g, s') \<Rightarrow> (\<exists>src. queue (mc_kernel s) = (dg_payload g, src) # queue (mc_kernel s') \<and>
        length (dg_payload g) \<le> unat mtu \<and> unat (ad_size (dg_source_address g)) = length src \<and>
        take (length src) (ad_storage (dg_source_address g)) = src) \<and>
        mc_heap s' = (mc_heap s)(internal_fd d \<mapsto> w\<lparr>fw_read_count := fw_read_count w + 1\<rparr>)
    | (Inl e, s') \<Rightarrow> mc_heap s' = mc_heap s \<and>
        (if e = runtime_error ''recvfrom (oversized datagram)''
         then \<exists>p src. queue (mc_kernel s) = (p, src) # queue (mc_kernel s') \<and> unat mtu < length p
         else queue (mc_kernel s') = queue (mc_kernel s) \<and> (\<exists>errno. e = unix_error ''recvfrom'' errno))"
proof -
  obtain r err data src fromlen k where call:
    "sys_recvfrom N (fw_fd w) mtu MSG_TRUNC 128 (mc_kernel s) = (((r, err), data, src, fromlen), k)"
    by (metis prod.exhaust)
  note live = recv_live [OF assms call] and D = recvfrom_contractD [OF assms(3) call]
  consider "r < 0" | "0 \<le> r" "int (unat mtu) < r" | "0 \<le> r" "r \<le> int (unat mtu)" by linarith
  then show ?thesis
  proof cases
    case 1
    then show ?thesis using live(1) D(1) by simp
  next
    case 2
    then obtain p where "queue (mc_kernel s) = (p, src) # queue k" "r = int (length p)" using D(2) by blast
    moreover from this 2(2) have "unat mtu < length p" by (simp only: of_nat_less_iff)
    ultimately show ?thesis using live(2) [OF 2(2)] by simp
  next
    case 3
    then obtain p a where pa: "queue (mc_kernel s) = (p, src) # queue k" "r = int (length p)"
      "unat (ad_size a) = length src" "take (length src) (ad_storage a) = src"
      "UDPSocket_recv N d mtu s = (Inr \<lparr>dg_source_address = a, dg_payload = p\<rparr>, s\<lparr>mc_kernel := k,
        mc_heap := (mc_heap s)(internal_fd d \<mapsto> w\<lparr>fw_read_count := fw_read_count w + 1\<rparr>)\<rparr>)"
      using live(3) by blast
    then have "length p \<le> unat mtu" using 3(2) by (simp only: of_nat_le_iff)
    then show ?thesis using pa by simp
  qed
qed

text \<open>A machine with one open descriptor, number 7.\<close>

definition one_socket :: "network \<Rightarrow> network machine" where
  "one_socket net =
     \<lparr>mc_heap = [0 \<mapsto> \<lparr>fw_fd = 7, fw_eof = False, fw_closed = False, fw_read_count = 0, fw_write_count = 0\<rparr>],
      mc_refs = (\<lambda>p. if p = 0 then 1 else 0), mc_next = 1, mc_kernel = net\<rparr>"

definition empty_network :: network where
  "empty_network =
     \<lparr>nw_queue = [], nw_sent = [], nw_closes = 0, nw_next_fd = 5, nw_input = [], nw_output = []\<rparr>"

lemma one_socket_live:
  "mc_heap (one_socket net) (internal_fd (FileDescriptor 0)) =
     Some \<lparr>fw_fd = 7, fw_eof = False, fw_closed = False, fw_read_count = 0, fw_write_count = 0\<rparr>"
  by (simp add: one_socket_def)

theorem UDPSocket_recv_whole_witness:
  "case UDPSocket_recv (network_sockets (2, 2)) (FileDescriptor 0) 65536
      (one_socket (empty_network\<lparr>nw_queue := [([1, 2, 3], [2, 0])]\<rparr>)) of
     (Inr g, s') \<Rightarrow> dg_payload g = [1, 2, 3] \<and> nw_queue (mc_kernel s') = [] | (Inl e, s') \<Rightarrow> False"
proof -
  let ?s = "one_socket (empty_network\<lparr>nw_queue := [([1, 2, 3], [2, 0])]\<rparr>)"
  have "\<not> isl (fst (UDPSocket_recv (network_sockets (2, 2)) (FileDescriptor 0) 65536 ?s))"
  proof -
    have call: "sys_recvfrom (network_sockets (2, 2)) 7 65536 MSG_TRUNC 128 (mc_kernel ?s) =
        (((3, 0), [1, 2, 3], [2, 0], 2), empty_network)"
      by (simp add: network_sockets_def one_socket_def empty_network_def)
    show ?thesis
      using recv_live(3) [OF one_socket_live, of 65536 "network_sockets (2, 2)" nw_queue] network_contracts(1) call
      by (fastforce simp: isl_def)
  qed
  then show ?thesis
    using UDPSocket_recv_whole [OF one_socket_live, of 65536 "network_sockets (2, 2)" nw_queue
        "empty_network\<lparr>nw_queue := [([1, 2, 3], [2, 0])]\<rparr>"] network_contracts(1)
    by (auto simp: one_socket_def isl_def split: sum.splits prod.splits)
qed

text \<open>
  Claim C25. \<open>sendto\<close> sends whole datagrams or throws: if it returns, exactly one datagram left, with all
  the bytes of the payload's views in order and the destination's address, and the write is counted;
  if the kernel took only a part, it throws, and if the kernel failed, nothing was sent.
\<close>

theorem UDPSocket_sendto_whole:
  assumes "mc_heap s (internal_fd d) = Some w" and "addressable (concat (bv_views payload))"
    and "sendmsg_contract N (fw_fd w) sent"
  shows "case UDPSocket_sendto N d destination payload s of
      (Inr _, s') \<Rightarrow> sent (mc_kernel s') = sent (mc_kernel s) @
          [(Some (ad_storage destination, ad_size destination), concat (bv_views payload))] \<and>
        mc_heap s' = (mc_heap s)(internal_fd d \<mapsto> w\<lparr>fw_write_count := fw_write_count w + 1\<rparr>)
    | (Inl e, s') \<Rightarrow> mc_heap s' = mc_heap s \<and>
        (if e = runtime_error ''datagram payload too big for sendmsg()''
         then \<exists>k < length (concat (bv_views payload)). sent (mc_kernel s') = sent (mc_kernel s) @
           [(Some (ad_storage destination, ad_size destination), take k (concat (bv_views payload)))]
         else sent (mc_kernel s') = sent (mc_kernel s) \<and> (\<exists>errno. e = unix_error ''sendmsg'' errno))"
proof -
  let ?dest = "Some (ad_storage destination, ad_size destination)" and ?data = "concat (bv_views payload)"
  obtain r err u k where call:
    "sys_sendmsg N (fw_fd w) ?dest (BufferViewList_as_iovecs payload) (mc_kernel s) = (((r, err), u), k)"
    by (metis prod.exhaust)
  note D = sendmsg_contractD [OF assms(3) call, unfolded iovecs_data]
  have ok: "BufferViewList_ok payload" using assms(2) by (simp add: BufferViewList_ok_def)
  note run = UDPSocket_sendto_def bind_def fd_num_live [OF assms(1)] sendmsg_live [OF assms(3) ok call]
    FileDescriptor_register_write_def update_wrapper_def wrapper_at_def assms(1)
  consider "r < 0" | "0 \<le> r" "nat r \<noteq> length ?data" | "0 \<le> r" "nat r = length ?data" by linarith
  then show ?thesis
  proof cases
    case 2
    then have "nat r < length ?data" using D(2) by auto
    then show ?thesis using 2 D(2) by (auto simp: run simp del: length_concat)
  qed (use D in \<open>simp_all add: run del: length_concat\<close>)
qed

theorem UDPSocket_sendto_whole_witness:
  "\<exists>a s'. Address_from_ipv4_numeric Little_Endian 1 = Inr a \<and>
    UDPSocket_sendto (network_sockets (2, 2)) (FileDescriptor 0) a (BufferViewList_of_view [7, 8]) (one_socket empty_network)
      = (Inr (), s') \<and> nw_sent (mc_kernel s') = [(Some (ad_storage a, ad_size a), [7, 8])]"
proof -
  let ?N = "network_sockets (2, 2)" and ?v = "BufferViewList_of_view [7, 8]"
  obtain a where a: "Address_from_ipv4_numeric Little_Endian 1 = Inr a"
    by (simp add: Address_from_ipv4_numeric_def Address_of_sockaddr_def Let_def sizeof_sockaddr_in_def
        sizeof_sockaddr_storage_def sockaddr_in_zero_def)
  have ad: "addressable (concat (bv_views ?v))" by (simp add: BufferViewList_of_view_def addressable_def)
  have call: "sys_sendmsg ?N 7 dest (BufferViewList_as_iovecs ?v) (mc_kernel (one_socket empty_network)) =
      (((2, 0), ()), empty_network\<lparr>nw_sent := [(dest, [7, 8])]\<rparr>)" for dest
    unfolding network_sockets_def
    by (simp add: iovecs_data one_socket_def empty_network_def BufferViewList_of_view_def Let_def)
  then obtain s' where s': "UDPSocket_sendto ?N (FileDescriptor 0) a ?v (one_socket empty_network) = (Inr (), s')"
    using sendmsg_live [OF network_contracts(2) _ call] ad
      fd_num_live [OF one_socket_live, of empty_network]
    by (simp add: UDPSocket_sendto_def bind_def BufferViewList_ok_def BufferViewList_of_view_def
        FileDescriptor_register_write_def update_wrapper_def wrapper_at_def one_socket_def)
  with UDPSocket_sendto_whole [OF one_socket_live ad, of ?N nw_sent empty_network a] network_contracts(2) a show ?thesis
    by (auto simp: BufferViewList_of_view_def one_socket_def empty_network_def)
qed

text \<open>
  Claim C15. \<open>accept()\<close> leaks no descriptor. If it returns, the new handle is the only one of a wrapper
  around a descriptor of the right domain and type, and nothing was closed; if it throws after the kernel
  has handed out a descriptor (the checks of the constructor fail), that descriptor is closed exactly
  once and its wrapper is gone. The read of the listening socket is counted in both cases.
\<close>

theorem TCPSocket_accept_no_leak:
  assumes "mc_heap s (internal_fd d) = Some w" and "internal_fd d < mc_next s" and "mc_heap s (mc_next s) = None"
    and "\<And>n. counts_closes K n closes" and "getsockopt_contract N info closes" and "accept_contract N closes"
  shows "case TCPSocket_accept K N d s of (res, s') \<Rightarrow>
    (let new = fst (fst (fst (sys_accept N (fw_fd w) (mc_kernel s)))) in
     mc_heap s' (internal_fd d) = Some (w\<lparr>fw_read_count := fw_read_count w + 1\<rparr>) \<and>
     (case res of
        Inr d' \<Rightarrow> internal_fd d' = mc_next s \<and> mc_refs s' (mc_next s) = 1 \<and> closes (mc_kernel s') = closes (mc_kernel s) \<and>
          mc_heap s' (mc_next s) = Some \<lparr>fw_fd = new, fw_eof = False, fw_closed = False, fw_read_count = 0, fw_write_count = 0\<rparr> \<and>
          info (mc_kernel s') new = (uint AF_INET, SOCK_STREAM)
      | Inl e \<Rightarrow> e \<noteq> undefined_behaviour \<and> mc_heap s' (mc_next s) = None \<and>
          closes (mc_kernel s') = closes (mc_kernel s) + (if 0 \<le> new then 1 else 0)))"
proof -
  obtain r err u k where call: "sys_accept N (fw_fd w) (mc_kernel s) = (((r, err), u), k)" by (metis prod.exhaust)
  then have D: "closes k = closes (mc_kernel s)" "- (2 ^ 31) \<le> r" "r < 2 ^ 31" "r < 0 \<Longrightarrow> err \<noteq> 0"
    using spec [OF spec [OF assms(6) [unfolded accept_contract_def], of "fw_fd w"], of "mc_kernel s"] by simp_all
  define w' where "w' = w\<lparr>fw_read_count := fw_read_count w + 1\<rparr>"
  define s1 where "s1 = s\<lparr>mc_heap := (mc_heap s)(internal_fd d \<mapsto> w')\<rparr>"
  have live1: "mc_heap s1 (internal_fd d) = Some w'" and fd1: "fw_fd w' = fw_fd w" "mc_kernel s1 = mc_kernel s"
    by (simp_all add: s1_def w'_def)
  have reg: "FileDescriptor_register_read d s = (Inr (), s1)"
    by (simp add: FileDescriptor_register_read_def update_wrapper_live [OF assms(1)] s1_def w'_def)
  have acc: "fd_call ''accept'' d (sys_accept N) s1 = (case SystemCall ''accept'' (r, err) 0 of
      Inl e \<Rightarrow> (Inl e, s1\<lparr>mc_kernel := k\<rparr>) | Inr v \<Rightarrow> (Inr (v, u), s1\<lparr>mc_kernel := k\<rparr>))"
    by (rule fd_call_live [OF live1]) (simp add: fd1 call)
  show ?thesis
  proof (cases "r < 0")
    case True
    then have "TCPSocket_accept K N d s = (Inl (unix_error ''accept'' err), s1\<lparr>mc_kernel := k\<rparr>)"
      using D by (simp add: TCPSocket_accept_def bind_def reg acc SystemCall_failed)
    then show ?thesis using True D(1) assms(2,3) by (simp add: call s1_def w'_def)
  next
    case False
    let ?wn = "\<lparr>fw_fd = r, fw_eof = False, fw_closed = False, fw_read_count = 0, fw_write_count = 0\<rparr>"
    define s2 where "s2 = s1\<lparr>mc_kernel := k, mc_heap := (mc_heap s1)(mc_next s \<mapsto> ?wn),
      mc_refs := (mc_refs s)(mc_next s := 1), mc_next := mc_next s + 1\<rparr>"
    have s1: "mc_next s1 = mc_next s" "mc_refs s1 = mc_refs s" by (simp_all add: s1_def)
    have run: "TCPSocket_accept K N d s = Socket_of_fd K N (FileDescriptor (mc_next s)) (uint AF_INET) SOCK_STREAM s2"
      using False D(3)
      by (simp add: TCPSocket_accept_def TCPSocket_of_fd_def bind_def reg acc SystemCall_ok FileDescriptor_new_def
          FDWrapper_new_def s2_def s1)
    have "mc_heap s2 (mc_next s) = Some ?wn" "mc_refs s2 (mc_next s) = 1" "mc_kernel s2 = k"
      "mc_heap s2 (internal_fd d) = Some w'" "internal_fd d \<noteq> mc_next s"
      using assms(2) by (simp_all add: s2_def s1_def)
    then show ?thesis
      using Socket_of_fd_live [of s2 "FileDescriptor (mc_next s)" ?wn K closes N info "uint AF_INET" SOCK_STREAM]
        assms(4,5) D(1) False unfolding run w'_def [symmetric] by (auto simp: call)
  qed
qed

theorem TCPSocket_accept_no_leak_witness:
  "\<exists>e s'. TCPSocket_accept network_kernel (network_sockets (1, 1)) (FileDescriptor 0) (one_socket empty_network) = (Inl e, s') \<and>
    nw_closes (mc_kernel s') = 1 \<and> mc_heap s' 1 = None"
proof -
  let ?s = "one_socket empty_network"
  obtain res s' where run: "TCPSocket_accept network_kernel (network_sockets (1, 1)) (FileDescriptor 0) ?s = (res, s')"
    by (metis prod.exhaust)
  have start: "internal_fd (FileDescriptor 0) < mc_next ?s" "mc_heap ?s (mc_next ?s) = None" "mc_next ?s = 1"
    "nw_closes (mc_kernel ?s) = 0" "0 \<le> fst (fst (fst (sys_accept (network_sockets (1, 1)) n (mc_kernel ?s))))" for n
    by (simp_all add: one_socket_def empty_network_def network_sockets_def)
  note leak = TCPSocket_accept_no_leak [OF one_socket_live start(1,2) network_contracts(5,3,4), of "(1, 1)"]
  show ?thesis
  proof (cases res)
    case (Inl e)
    then show ?thesis using leak run start by (simp add: Let_def)
  next
    case (Inr d')
    then show ?thesis using leak run start by (simp add: Let_def AF_INET_def)
  qed
qed

section \<open>Names and shutdown\<close>

text \<open>
  The documented behaviour of \<open>getsockname(2)\<close> and \<open>getpeername(2)\<close> on the descriptor \<open>n\<close> with the name \<open>nm\<close>: the
  name is stored, cut at the size of the buffer, and its full length is reported.
\<close>

definition name_contract :: "(int \<Rightarrow> u32 \<Rightarrow> 'w \<Rightarrow> (sys_result \<times> bytes \<times> u32) \<times> 'w) \<Rightarrow> int \<Rightarrow> ('w \<Rightarrow> bytes) \<Rightarrow> bool" where
  "name_contract func n nm \<longleftrightarrow> (\<forall>sz w. case func n sz w of (((r, err), stored, len), w') \<Rightarrow>
     if r < 0 then - (2 ^ 31) \<le> r \<and> err \<noteq> 0
     else r = 0 \<and> stored = take (unat sz) (nm w) \<and> unat len = length (nm w))"

lemma Socket_get_address_cases:
  assumes "mc_heap s (internal_fd d) = Some w" and "name_contract func (fw_fd w) nm"
  shows "case Socket_get_address name func d s of
      (Inr a, s') \<Rightarrow> Address_ok a \<and> take (unat (ad_size a)) (ad_storage a) = nm (mc_kernel s) \<and> mc_heap s' = mc_heap s
    | (Inl e, s') \<Rightarrow> (\<exists>errno. e = unix_error name errno) \<or>
        128 < length (nm (mc_kernel s)) \<and> e = runtime_error ''invalid sockaddr size''"
proof -
  obtain r err stored len k where call: "func (fw_fd w) 128 (mc_kernel s) = (((r, err), stored, len), k)" by (metis prod.exhaust)
  have D: "if r < 0 then - (2 ^ 31) \<le> r \<and> err \<noteq> 0
     else r = 0 \<and> stored = take 128 (nm (mc_kernel s)) \<and> unat len = length (nm (mc_kernel s))"
    using spec [OF spec [OF assms(2) [unfolded name_contract_def], of 128], of "mc_kernel s"] call by (auto split: if_splits)
  note run = Socket_get_address_def bind_def sizeof_sockaddr_storage_def lift_def fd_call_live [where f = "\<lambda>n. func n 128", OF assms(1) call]
  show ?thesis
  proof (cases "r < 0")
    case True
    then show ?thesis using D by (simp add: run SystemCall_failed)
  next
    case False
    then have D: "r = 0" "stored = take 128 (nm (mc_kernel s))" "unat len = length (nm (mc_kernel s))" using D by simp_all
    have sys: "SystemCall name (0, err) 0 = Inr 0" by (rule SystemCall_ok) simp_all
    show ?thesis
    proof (cases "length (nm (mc_kernel s)) \<le> 128")
      case True
      then obtain a where "Address_of_sockaddr (raw_address stored) (ucast len) = Inr a"
        "unat (ad_size a) = length stored" "take (length stored) (ad_storage a) = stored"
        using raw_address_store [of len stored] D by auto
      moreover from this(1) have "Address_ok a" by (simp add: Address_of_sockaddr_Inr)
      ultimately show ?thesis using True D sys by (simp add: run)
    next
      case False
      then show ?thesis
        using D sys
        by (simp add: run Address_of_sockaddr_def unat_ucast_up)
    qed
  qed
qed

lemma network_names:
  "name_contract (sys_getsockname (network_sockets info)) n (\<lambda>_. [2, 0])"
  "name_contract (sys_getpeername (network_sockets info)) n (\<lambda>_. [2, 0])"
  by (simp_all add: name_contract_def network_sockets_def)

text \<open>
  \<open>local_address()\<close> and \<open>peer_address()\<close> give the name the kernel has for the socket and its peer, as a
  well-formed address; they throw the error of the kernel, or for a name that does not fit.
\<close>

theorem Socket_addresses_correct:
  assumes "mc_heap s (internal_fd d) = Some w"
    and "name_contract (sys_getsockname N) (fw_fd w) local" and "name_contract (sys_getpeername N) (fw_fd w) peer"
  shows "case Socket_local_address N d s of
      (Inr a, s') \<Rightarrow> Address_ok a \<and> take (unat (ad_size a)) (ad_storage a) = local (mc_kernel s) \<and> mc_heap s' = mc_heap s
    | (Inl e, s') \<Rightarrow> (\<exists>errno. e = unix_error ''getsockname'' errno) \<or>
        128 < length (local (mc_kernel s)) \<and> e = runtime_error ''invalid sockaddr size''"
    and "case Socket_peer_address N d s of
      (Inr a, s') \<Rightarrow> Address_ok a \<and> take (unat (ad_size a)) (ad_storage a) = peer (mc_kernel s) \<and> mc_heap s' = mc_heap s
    | (Inl e, s') \<Rightarrow> (\<exists>errno. e = unix_error ''getpeername'' errno) \<or>
        128 < length (peer (mc_kernel s)) \<and> e = runtime_error ''invalid sockaddr size''"
  using Socket_get_address_cases [OF assms(1,2)] Socket_get_address_cases [OF assms(1,3)]
  by (simp_all add: Socket_local_address_def Socket_peer_address_def)

text \<open>
  \<open>shutdown(how)\<close> that succeeds counts a read, a write or both, as the direction says; for any other
  value of \<open>how\<close> it throws, even if the kernel took the call, and counts nothing.
\<close>

theorem Socket_shutdown_cases:
  assumes "mc_heap s (internal_fd d) = Some w" and "sys_shutdown N (fw_fd w) how (mc_kernel s) = (((r, err), u), k)"
  shows "- (2 ^ 31) \<le> r \<Longrightarrow> r < 0 \<Longrightarrow> err \<noteq> 0 \<Longrightarrow> Socket_shutdown N d how s = (Inl (unix_error ''shutdown'' err), s\<lparr>mc_kernel := k\<rparr>)"
    and "r = 0 \<Longrightarrow> how \<in> {SHUT_RD, SHUT_WR, SHUT_RDWR} \<Longrightarrow> \<exists>s'. Socket_shutdown N d how s = (Inr (), s') \<and>
      mc_heap s' (internal_fd d) = Some (w\<lparr>fw_read_count := fw_read_count w + of_bool (how \<noteq> SHUT_WR),
        fw_write_count := fw_write_count w + of_bool (how \<noteq> SHUT_RD)\<rparr>)"
    and "r = 0 \<Longrightarrow> how \<notin> {SHUT_RD, SHUT_WR, SHUT_RDWR} \<Longrightarrow>
      Socket_shutdown N d how s = (Inl (runtime_error ''Socket::shutdown() called with invalid `how`''), s\<lparr>mc_kernel := k\<rparr>)"
proof -
  note call = fd_call_live [OF assms(1), where f = "\<lambda>n. sys_shutdown N n how", OF assms(2)]
  have sys: "SystemCall ''shutdown'' (0, err) 0 = Inr 0" by (rule SystemCall_ok) simp_all
  note run = Socket_shutdown_def bind_def call sys SystemCall_failed
    FileDescriptor_register_read_def FileDescriptor_register_write_def update_wrapper_def wrapper_at_def
  show "- (2 ^ 31) \<le> r \<Longrightarrow> r < 0 \<Longrightarrow> err \<noteq> 0 \<Longrightarrow> Socket_shutdown N d how s = (Inl (unix_error ''shutdown'' err), s\<lparr>mc_kernel := k\<rparr>)"
    by (simp add: run)
  show "r = 0 \<Longrightarrow> how \<in> {SHUT_RD, SHUT_WR, SHUT_RDWR} \<Longrightarrow> \<exists>s'. Socket_shutdown N d how s = (Inr (), s') \<and>
      mc_heap s' (internal_fd d) = Some (w\<lparr>fw_read_count := fw_read_count w + of_bool (how \<noteq> SHUT_WR),
        fw_write_count := fw_write_count w + of_bool (how \<noteq> SHUT_RD)\<rparr>)"
    using assms(1) by (auto simp: run SHUT_RD_def SHUT_WR_def SHUT_RDWR_def)
  show "r = 0 \<Longrightarrow> how \<notin> {SHUT_RD, SHUT_WR, SHUT_RDWR} \<Longrightarrow>
      Socket_shutdown N d how s = (Inl (runtime_error ''Socket::shutdown() called with invalid `how`''), s\<lparr>mc_kernel := k\<rparr>)"
    by (simp add: run throws_def)
qed

end
