(* ===== verification/Web_Get.thy ===== *)
theory Web_Get
  imports Sockets
begin

text \<open>
  The command-line client \<open>apps/webget.cc\<close>, composed from the sockets, the resolver and the
  descriptors. A server that never ends its answer keeps the program reading, so the loop is a partial
  function: \<open>None\<close> is a run that does not end.
\<close>

section \<open>The program\<close>

text \<open>
  The text of an exception (\<open>tagged_error\<close> of \<open>util.hh\<close>); the messages of the two error categories
  are parameters.
\<close>

record messages =
  strerror :: "int \<Rightarrow> string"
  gai_strerror :: "int \<Rightarrow> string"

definition gai_error_category_message :: "messages \<Rightarrow> int \<Rightarrow> string" where
  "gai_error_category_message M return_value = gai_strerror M return_value"

declare gai_error_category_message_def [simp]

fun exception_what :: "messages \<Rightarrow> cpp_failure \<Rightarrow> string" where
  "exception_what M (unix_error attempt error_code) = attempt @ '': '' @ strerror M error_code"
| "exception_what M (tagged_error attempt error_code) = attempt @ '': '' @ gai_error_category_message M error_code"
| "exception_what M (out_of_range what_arg) = what_arg"
| "exception_what M (length_error what_arg) = what_arg"
| "exception_what M (invalid_argument what_arg) = what_arg"
| "exception_what M (runtime_error what_arg) = what_arg"
| "exception_what M undefined_behaviour = ''''"

definition crlf :: string where
  "crlf = [CHR 0x0D, CHR 0x0A]"

definition http_request :: "string \<Rightarrow> string \<Rightarrow> bytes" where
  "http_request host path =
     string_bytes (''GET '' @ path @ '' HTTP/1.1'' @ crlf @
                   ''Host: '' @ host @ crlf @
                   ''Connection: close'' @ crlf @ crlf)"

text \<open>The default limit of \<open>read\<close>.\<close>

definition size_max :: size_t where
  "size_max = - 1"

partial_function (option) print_until_eof ::
  "'w kernel \<Rightarrow> Socket \<Rightarrow> bytes \<Rightarrow> 'w machine \<Rightarrow> ((cpp_failure + unit) \<times> bytes \<times> 'w machine) option" where
  "print_until_eof K sock cout s =
     (case FileDescriptor_eof sock s of
        (Inl e, s') \<Rightarrow> Some (Inl e, cout, s')
      | (Inr eof, s') \<Rightarrow>
          if eof then Some (Inr (), cout, s')
          else (case FileDescriptor_read K sock size_max s' of
              (Inl e, s'') \<Rightarrow> Some (Inl e, cout, s'')
            | (Inr str, s'') \<Rightarrow> print_until_eof K sock (cout @ str) s''))"

declare print_until_eof.simps [code]

text \<open>Leaving the scope of \<open>sock\<close>, normally or by an exception.\<close>

definition leave_scope ::
  "'w kernel \<Rightarrow> Socket \<Rightarrow> (cpp_failure + unit) \<times> bytes \<times> 'w machine \<Rightarrow> (cpp_failure + unit) \<times> bytes \<times> 'w machine" where
  "leave_scope K sock r =
     (case r of (res, cout, s) \<Rightarrow>
        if res = Inl undefined_behaviour then r
        else case FileDescriptor_destroy K sock s of (Inl e, s') \<Rightarrow> (Inl e, cout, s') | (Inr _, s') \<Rightarrow> (res, cout, s'))"

definition get_URL ::
  "'w kernel \<Rightarrow> 'w socket_kernel \<Rightarrow> resolver \<Rightarrow> string \<Rightarrow> string \<Rightarrow> 'w machine
   \<Rightarrow> ((cpp_failure + unit) \<times> bytes \<times> 'w machine) option" where
  "get_URL K N R host path s =
     (case TCPSocket_new N s of
        (Inl e, s) \<Rightarrow> Some (Inl e, [], s)
      | (Inr sock, s) \<Rightarrow>
          map_option (leave_scope K sock)
            (case bind (lift (Address_of_host R host ''http'')) (\<lambda>address.
                  bind (Socket_connect N sock address) (\<lambda>_.
                  FileDescriptor_write_string K sock (http_request host path) True)) s of
               (Inl e, s) \<Rightarrow> Some (Inl e, [], s)
             | (Inr _, s) \<Rightarrow>
                 (case print_until_eof K sock [] s of
                    None \<Rightarrow> None
                  | Some (Inl e, cout, s) \<Rightarrow> Some (Inl e, cout, s)
                  | Some (Inr _, cout, s) \<Rightarrow>
                      (case FileDescriptor_close K sock s of (res, s) \<Rightarrow> Some (res, cout, s)))))"

datatype process_end = Aborted | Exited int | Undefined

definition EXIT_SUCCESS :: int where "EXIT_SUCCESS = 0"
definition EXIT_FAILURE :: int where "EXIT_FAILURE = 1"

text \<open>\<open>main\<close>: how the process ends, what it printed, its error output, and the machine.\<close>

definition webget_main ::
  "messages \<Rightarrow> 'w kernel \<Rightarrow> 'w socket_kernel \<Rightarrow> resolver \<Rightarrow> string list \<Rightarrow> 'w machine
   \<Rightarrow> (process_end \<times> bytes \<times> string \<times> 'w machine) option" where
  "webget_main M K N R argv s =
     (case argv of
        [] \<Rightarrow> Some (Aborted, [], '''', s)
      | [_, host, path] \<Rightarrow>
          (case get_URL K N R host path s of
             None \<Rightarrow> None
           | Some (Inr _, cout, s') \<Rightarrow> Some (Exited EXIT_SUCCESS, cout, '''', s')
           | Some (Inl e, cout, s') \<Rightarrow>
               if e = undefined_behaviour then Some (Undefined, cout, '''', s')
               else Some (Exited EXIT_FAILURE, cout, exception_what M e @ [CHR 0x0A], s'))
      | argv0 # _ \<Rightarrow>
          Some (Exited EXIT_FAILURE, [],
            ''Usage: '' @ argv0 @ '' HOST PATH'' @ [CHR 0x0A] @
            [CHR 0x09] @ ''Example: '' @ argv0 @ '' stanford.edu /class/cs144'' @ [CHR 0x0A], s))"

section \<open>What the connection promises\<close>

text \<open>
  An established connection on the descriptor \<open>n\<close>: \<open>inp\<close> are the bytes the server is going to send
  before it ends the connection, \<open>out\<close> the bytes the client has sent, \<open>closes\<close> counts the closes. Reads
  deliver at least one byte while there are any, writes take at least one byte of the data offered, and
  no call fails.
\<close>

definition connection :: "'w kernel \<Rightarrow> int \<Rightarrow> ('w \<Rightarrow> bytes) \<Rightarrow> ('w \<Rightarrow> bytes) \<Rightarrow> ('w \<Rightarrow> nat) \<Rightarrow> bool" where
  "connection K n inp out closes \<longleftrightarrow>
     (\<forall>sz w. case sys_read K n sz w of ((r, err), data, w') \<Rightarrow>
        0 \<le> r \<and> length data = nat r \<and> nat r \<le> unat sz \<and> inp w = data @ inp w' \<and>
        (sz \<noteq> 0 \<longrightarrow> inp w \<noteq> [] \<longrightarrow> data \<noteq> []) \<and> out w' = out w \<and> closes w' = closes w) \<and>
     (\<forall>iov w. case sys_writev K n iov w of ((r, err), w') \<Rightarrow> let data = concat (map fst iov) in
        0 \<le> r \<and> r \<le> 0x7ffff000 \<and> nat r \<le> length data \<and> (data \<noteq> [] \<longrightarrow> 0 < r) \<and>
        out w' = out w @ take (nat r) data \<and> inp w' = inp w \<and> closes w' = closes w) \<and>
     (\<forall>w. case sys_close K n w of ((r, err), w') \<Rightarrow>
        0 \<le> r \<and> r < 2 ^ 31 \<and> closes w' = Suc (closes w) \<and> out w' = out w \<and> inp w' = inp w)"

lemma connectionD:
  assumes "connection K n inp out closes"
  shows "read_contract K n" "writev_contract K n out" "counts_closes K n closes"
    and "sys_read K n sz w = ((r, err), data, w') \<Longrightarrow>
      0 \<le> r \<and> inp w = data @ inp w' \<and> (sz \<noteq> 0 \<longrightarrow> inp w \<noteq> [] \<longrightarrow> data \<noteq> []) \<and> out w' = out w \<and> closes w' = closes w"
    and "sys_writev K n iov w = ((r, err), w') \<Longrightarrow> 0 \<le> r \<and> inp w' = inp w \<and> closes w' = closes w"
    and "sys_close K n w = ((r, err), w') \<Longrightarrow>
      0 \<le> r \<and> r < 2 ^ 31 \<and> closes w' = Suc (closes w) \<and> out w' = out w \<and> inp w' = inp w"
proof -
  note R = conjunct1 [OF assms [unfolded connection_def]]
    and W = conjunct1 [OF conjunct2 [OF assms [unfolded connection_def]]]
    and C = conjunct2 [OF conjunct2 [OF assms [unfolded connection_def]]]
  show "read_contract K n"
    unfolding read_contract_def
  proof (intro allI)
    fix sz w
    show "let ((r, err), data, w') = sys_read K n sz w
      in if r < 0 then - (2 ^ 31) \<le> r \<and> err \<noteq> 0 else nat r \<le> unat sz \<and> length data = nat r"
      using spec [OF spec [OF R, of sz], of w] by (auto split: prod.splits)
  qed
  show "writev_contract K n out"
    unfolding writev_contract_def
  proof (intro allI)
    fix iov w
    show "let ((r, err), w') = sys_writev K n iov w; data = concat (map fst iov)
      in if r < 0 then - (2 ^ 31) \<le> r \<and> err \<noteq> 0 \<and> out w' = out w
         else r \<le> 0x7ffff000 \<and> nat r \<le> length data \<and> (data \<noteq> [] \<longrightarrow> 0 < r) \<and> out w' = out w @ take (nat r) data"
      using spec [OF spec [OF W, of iov], of w] by (auto simp: Let_def split: prod.splits)
  qed
  show "counts_closes K n closes"
    unfolding counts_closes_def
  proof
    fix w
    show "closes (snd (sys_close K n w)) = Suc (closes w)" using spec [OF C, of w] by (auto split: prod.splits)
  qed
  show "0 \<le> r \<and> inp w = data @ inp w' \<and> (sz \<noteq> 0 \<longrightarrow> inp w \<noteq> [] \<longrightarrow> data \<noteq> []) \<and> out w' = out w \<and> closes w' = closes w"
    if "sys_read K n sz w = ((r, err), data, w')"
    using spec [OF spec [OF R, of sz], of w] unfolding that prod.case by blast
  show "sys_writev K n iov w = ((r, err), w') \<Longrightarrow> 0 \<le> r \<and> inp w' = inp w \<and> closes w' = closes w"
    using spec [OF spec [OF W, of iov], of w] by (auto simp: Let_def)
  show "sys_close K n w = ((r, err), w') \<Longrightarrow>
      0 \<le> r \<and> r < 2 ^ 31 \<and> closes w' = Suc (closes w) \<and> out w' = out w \<and> inp w' = inp w"
    using spec [OF C, of w] by auto
qed

section \<open>What a write leaves alone\<close>

text \<open>A call on a live descriptor only counts and talks to the kernel.\<close>

definition fd_frame :: "FileDescriptor \<Rightarrow> ('w \<Rightarrow> 'w \<Rightarrow> bool) \<Rightarrow> 'w machine \<Rightarrow> 'w machine \<Rightarrow> bool" where
  "fd_frame d P s s' \<longleftrightarrow> mc_refs s' = mc_refs s \<and> mc_next s' = mc_next s \<and> P (mc_kernel s) (mc_kernel s') \<and>
     (\<forall>p. p \<noteq> internal_fd d \<longrightarrow> mc_heap s' p = mc_heap s p) \<and>
     (\<exists>w w'. mc_heap s (internal_fd d) = Some w \<and> mc_heap s' (internal_fd d) = Some w' \<and>
        fw_fd w' = fw_fd w \<and> fw_eof w' = fw_eof w \<and> fw_closed w' = fw_closed w)"

lemma fd_frame_trans:
  assumes "fd_frame d P s s'" "fd_frame d P s' s''" "transp P"
  shows "fd_frame d P s s''"
proof -
  note 1 = assms(1) [unfolded fd_frame_def] and 2 = assms(2) [unfolded fd_frame_def]
  have "P (mc_kernel s) (mc_kernel s'')" using transpD [OF assms(3)] 1 2 by metis
  moreover have "mc_refs s'' = mc_refs s" "mc_next s'' = mc_next s" using 1 2 by metis+
  moreover have "\<forall>p. p \<noteq> internal_fd d \<longrightarrow> mc_heap s'' p = mc_heap s p" using 1 2 by metis
  moreover have "\<exists>w w'. mc_heap s (internal_fd d) = Some w \<and> mc_heap s'' (internal_fd d) = Some w' \<and>
      fw_fd w' = fw_fd w \<and> fw_eof w' = fw_eof w \<and> fw_closed w' = fw_closed w" using 1 2 by (metis option.inject)
  ultimately show ?thesis unfolding fd_frame_def by blast
qed

lemma write_once_frame:
  assumes "mc_heap s (internal_fd d) = Some w" "FileDescriptor_write_once K d buffer s = (res, s')"
    and "\<forall>iov k. P k (snd (sys_writev K (fw_fd w) iov k))"
  shows "fd_frame d P s s'"
proof -
  obtain r k where call: "sys_writev K (fw_fd w) (BufferViewList_as_iovecs buffer) (mc_kernel s) = (r, k)" by (metis prod.exhaust)
  then have P: "P (mc_kernel s) k" using assms(3) by (metis snd_conv)
  define s1 where "s1 = s\<lparr>mc_kernel := k\<rparr>"
  define w' where "w' = w\<lparr>fw_write_count := fw_write_count w + 1\<rparr>"
  consider "s' = s1" | "s' = s1\<lparr>mc_heap := (mc_heap s)(internal_fd d \<mapsto> w')\<rparr>"
    using assms(2) unfolding FileDescriptor_write_once_def FileDescriptor_register_write_def
    by (auto simp: bind_def fd_num_live [OF assms(1)] kernel_call_def call update_wrapper_def wrapper_at_def assms(1)
        s1_def w'_def split: sum.splits if_splits)
  then show ?thesis using P assms(1) by cases (simp_all add: fd_frame_def s1_def w'_def)
qed

lemma write_loop_frame:
  assumes "mc_heap s (internal_fd d) = Some w" "FileDescriptor_write_loop K d write_all buffer t s = (res, s')"
    and "\<forall>iov k. P k (snd (sys_writev K (fw_fd w) iov k))" and "transp P"
  shows "fd_frame d P s s'"
  using assms(1,2,3)
proof (induction K d write_all buffer t s arbitrary: w rule: FileDescriptor_write_loop.induct)
  case (1 K d write_all buffer t s)
  obtain r s1 where once: "FileDescriptor_write_once K d buffer s = (r, s1)" by (metis prod.exhaust)
  have frame: "fd_frame d P s s1" using write_once_frame [OF "1.prems"(1) once "1.prems"(3)] .
  then obtain w1 where live: "mc_heap s1 (internal_fd d) = Some w1" "fw_fd w1 = fw_fd w"
    using "1.prems"(1) by (auto simp: fd_frame_def)
  show ?case
  proof (cases r)
    case (Inl e)
    then show ?thesis using "1.prems"(2) frame once by (simp add: FileDescriptor_write_loop.simps)
  next
    case (Inr x)
    then obtain n buffer' where r: "r = Inr (n, buffer')" by (cases x) auto
    show ?thesis
    proof (cases "write_all \<and> BufferViewList_size buffer' \<noteq> 0")
      case True
      then have "FileDescriptor_write_loop K d write_all buffer' (t + n) s1 = (res, s')"
        using "1.prems"(2) once r by (subst (asm) FileDescriptor_write_loop.simps) simp
      then have "fd_frame d P s1 s'"
        using "1.IH" [OF once [symmetric, unfolded r] refl refl refl True live(1)] "1.prems"(3) live(2) by simp
      with frame show ?thesis using assms(4) by (rule fd_frame_trans)
    next
      case False
      then show ?thesis
        using "1.prems"(2) once r frame by (subst (asm) FileDescriptor_write_loop.simps) (auto split: if_splits)
    qed
  qed
qed

section \<open>The reading loop\<close>

lemma eof_live: "mc_heap s (internal_fd d) = Some w \<Longrightarrow> FileDescriptor_eof d s = (Inr (fw_eof w), s)"
  by (simp add: FileDescriptor_eof_def bind_def wrapper_at_def)

text \<open>The loop ends, as each round consumes input or sees its end, and it prints all of it.\<close>

lemma print_until_eof_all:
  assumes "connection K n inp out closes" "mc_heap s (internal_fd d) = Some w" "fw_fd w = n" "\<not> fw_eof w"
  shows "\<exists>s' w'. print_until_eof K d cout s = Some (Inr (), cout @ inp (mc_kernel s), s') \<and>
    mc_heap s' (internal_fd d) = Some w' \<and> fw_fd w' = n \<and> fw_closed w' = fw_closed w \<and> mc_refs s' = mc_refs s \<and>
    out (mc_kernel s') = out (mc_kernel s) \<and> closes (mc_kernel s') = closes (mc_kernel s)"
  using assms(2-4)
proof (induction "length (inp (mc_kernel s))" arbitrary: s w cout rule: less_induct)
  case less
  obtain r err data k where call:
    "sys_read K n (min BUFFER_SIZE size_max) (mc_kernel s) = ((r, err), data, k)" by (metis prod.exhaust)
  have sz: "min BUFFER_SIZE size_max \<noteq> 0" "0 < size_max" by (simp_all add: BUFFER_SIZE_def size_max_def min_def word_neq_0_conv [symmetric])
  note C = connectionD(4) [OF assms(1) call]
  define w1 where "w1 = w\<lparr>fw_eof := (data = []), fw_read_count := fw_read_count w + 1\<rparr>"
  define s1 where "s1 = s\<lparr>mc_kernel := k, mc_heap := (mc_heap s)(internal_fd d \<mapsto> w1)\<rparr>"
  have read: "FileDescriptor_read K d size_max s = (Inr data, s1)"
    using read_live [OF less.prems(1), of K size_max r err data k] connectionD(1) [OF assms(1)] call conjunct1 [OF C] less.prems sz(2)
    by (simp add: s1_def w1_def)
  have s1: "mc_heap s1 (internal_fd d) = Some w1" "mc_refs s1 = mc_refs s" "mc_kernel s1 = k"
    and w1: "fw_fd w1 = n" "fw_closed w1 = fw_closed w" "fw_eof w1 \<longleftrightarrow> data = []"
    using less.prems by (simp_all add: s1_def w1_def)
  have step: "print_until_eof K d cout s = print_until_eof K d (cout @ data) s1"
    using less.prems by (subst print_until_eof.simps) (simp add: eof_live read)
  show ?case
  proof (cases "data = []")
    case True
    then have "inp (mc_kernel s) = []" using C sz by blast
    moreover have "print_until_eof K d (cout @ data) s1 = Some (Inr (), cout, s1)"
      using True s1 w1 by (subst print_until_eof.simps) (simp add: eof_live)
    ultimately show ?thesis using step s1 w1 C by auto
  next
    case False
    moreover have inp: "inp (mc_kernel s) = data @ inp k" using C by blast
    ultimately have "length (inp (mc_kernel s1)) < length (inp (mc_kernel s))" by (simp add: s1)
    from less.hyps [OF this s1(1) w1(1), of "cout @ data"] False w1 s1 step inp C show ?thesis by auto
  qed
qed

text \<open>A write fails only where the kernel does.\<close>

lemma remove_loop_error: "BufferViewList_remove_loop n vs = Inl e \<Longrightarrow> e \<noteq> unix_error a b"
  by (induction n vs rule: BufferViewList_remove_loop.induct) (auto split: if_splits)

text \<open>A write passes no more pieces to the kernel than it got.\<close>

lemma remove_loop_views: "BufferViewList_remove_loop n vs = Inr vs' \<Longrightarrow> length vs' \<le> length vs"
  by (induction n vs rule: BufferViewList_remove_loop.induct) (auto split: if_splits)

lemma length_as_iovecs: "length (BufferViewList_as_iovecs b) = length (bv_views b)"
  by (simp add: BufferViewList_as_iovecs_def foldl_push_back)

lemma write_once_views:
  assumes "FileDescriptor_write_once K d buffer s = (Inr (n, buffer'), s')"
  shows "length (bv_views buffer') \<le> length (bv_views buffer)"
  using assms unfolding FileDescriptor_write_once_def BufferViewList_remove_prefix_def
  by (auto simp: bind_def and_then_def dest!: remove_loop_views split: prod.splits sum.splits if_splits)

lemma write_once_no_error:
  assumes "mc_heap s (internal_fd d) = Some w" "J (mc_kernel s)" "length (bv_views buffer) \<le> c"
    and J: "\<And>iov k r err k'. length iov \<le> c \<Longrightarrow> J k \<Longrightarrow> sys_writev K (fw_fd w) iov k = ((r, err), k') \<Longrightarrow> 0 \<le> r \<and> r < 2 ^ 31"
  shows "fst (FileDescriptor_write_once K d buffer s) \<noteq> Inl (unix_error a b)"
proof -
  obtain r err k where call: "sys_writev K (fw_fd w) (BufferViewList_as_iovecs buffer) (mc_kernel s) = ((r, err), k)"
    by (metis prod.exhaust)
  have sys: "SystemCall ''writev'' (r, err) 0 = Inr r" using J [OF _ assms(2) call] assms(3) length_as_iovecs [of buffer] by (intro SystemCall_ok) auto
  show ?thesis
    unfolding FileDescriptor_write_once_def FileDescriptor_register_write_def BufferViewList_remove_prefix_def
    by (auto simp: bind_def fd_num_live [OF assms(1)] kernel_call_def call sys update_wrapper_def wrapper_at_def assms(1)
        and_then_def dest: remove_loop_error split: sum.splits)
qed

lemma write_loop_no_error:
  assumes "mc_heap s (internal_fd d) = Some w" "J (mc_kernel s)" "length (bv_views buffer) \<le> c"
    and "\<And>iov k r err k'. length iov \<le> c \<Longrightarrow> J k \<Longrightarrow> sys_writev K (fw_fd w) iov k = ((r, err), k') \<Longrightarrow> 0 \<le> r \<and> r < 2 ^ 31"
    and "\<And>iov k. J k \<Longrightarrow> J (snd (sys_writev K (fw_fd w) iov k))"
  shows "fst (FileDescriptor_write_loop K d write_all buffer t s) \<noteq> Inl (unix_error a b)"
  using assms
proof (induction K d write_all buffer t s arbitrary: w rule: FileDescriptor_write_loop.induct)
  case (1 K d write_all buffer t s)
  obtain r s1 where once: "FileDescriptor_write_once K d buffer s = (r, s1)" by (metis prod.exhaust)
  have r: "r \<noteq> Inl (unix_error a b)"
    using write_once_no_error [where J = J and K = K and buffer = buffer and a = a and b = b and c = c, OF "1.prems"(1-4)] by (simp add: once)
  have "fd_frame d (\<lambda>k k'. J k \<longrightarrow> J k') s s1" by (intro write_once_frame [OF "1.prems"(1) once]) (simp add: "1.prems"(5))
  then obtain w1 where live: "mc_heap s1 (internal_fd d) = Some w1" "fw_fd w1 = fw_fd w" "J (mc_kernel s1)"
    using "1.prems"(1,2) by (auto simp: fd_frame_def)
  show ?case
  proof (cases r)
    case (Inr x)
    then obtain n buffer' where x: "r = Inr (n, buffer')" by (cases x) auto
    have rec: "write_all \<and> BufferViewList_size buffer' \<noteq> 0 \<Longrightarrow>
        fst (FileDescriptor_write_loop K d write_all buffer' (t + n) s1) \<noteq> Inl (unix_error a b)"
      using "1.IH" [OF once [symmetric, unfolded x] refl refl refl _ live(1,3)] "1.prems"(3-5) live(2) write_once_views [OF once [unfolded x]]
      by simp
    show ?thesis using rec once x by (subst FileDescriptor_write_loop.simps) (auto simp: Let_def)
  qed (use r once in \<open>simp add: FileDescriptor_write_loop.simps\<close>)
qed

text \<open>Writing a string to the connection.\<close>

lemma write_string_all:
  assumes "connection K n inp out closes" "mc_heap s (internal_fd d) = Some w" "fw_fd w = n" "length str < 2 ^ 63"
  shows "\<exists>t s' w'. FileDescriptor_write_string K d str True s = (Inr t, s') \<and>
    mc_heap s' (internal_fd d) = Some w' \<and> fw_fd w' = n \<and> fw_eof w' = fw_eof w \<and> fw_closed w' = fw_closed w \<and>
    mc_refs s' = mc_refs s \<and> out (mc_kernel s') = out (mc_kernel s) @ str \<and> inp (mc_kernel s') = inp (mc_kernel s) \<and>
    closes (mc_kernel s') = closes (mc_kernel s)"
proof -
  let ?P = "\<lambda>k k'. inp k' = inp k \<and> closes k' = closes k"
  let ?v = "BufferViewList_of_view str"
  have data: "concat (bv_views ?v) = str" by (simp add: BufferViewList_of_view_def)
  obtain res s' where run: "FileDescriptor_write_loop K d True ?v 0 s = (res, s')" by (metis prod.exhaust)
  have "\<forall>iov k. ?P k (snd (sys_writev K (fw_fd w) iov k))"
    using connectionD(5) [OF assms(1)] assms(3) by (metis prod.collapse)
  then have frame: "fd_frame d ?P s s'"
    by (rule write_loop_frame [OF assms(2) run]) (auto simp: transp_def)
  have calls: "0 \<le> r \<and> r < 2 ^ 31" if "sys_writev K (fw_fd w) iov k = ((r, err), k')" for iov k r err k'
    using connectionD(5) [OF assms(1)] writev_contractD(2) [OF connectionD(2) [OF assms(1)]] that assms(3) by blast
  have outcome: "write_outcome out str 0 s (res, s')"
    using write_loop_all [OF assms(2), of K out ?v 0] connectionD(2) [OF assms(1)] assms(3,4) run data by simp
  show ?thesis
  proof (cases res)
    case (Inr t)
    then have "out (mc_kernel s') = out (mc_kernel s) @ str" using outcome by (auto simp: write_outcome_def)
    then show ?thesis
      using Inr frame assms(2,3) run unfolding FileDescriptor_write_string_def FileDescriptor_write_def fd_frame_def by auto
  next
    case (Inl e)
    then show ?thesis
      using outcome write_loop_no_error [where J = "\<lambda>_. True" and K = K and write_all = True and buffer = ?v and t = 0, OF assms(2) _ order_refl calls] run
      by (auto simp: write_outcome_def)
  qed
qed

section \<open>Properties\<close>

lemma TCPSocket_new_ok:
  assumes "sys_socket N (uint AF_INET) SOCK_STREAM 0 (mc_kernel s) = (((n, err), ()), k)" "0 \<le> n" "n < 2 ^ 31"
  shows "TCPSocket_new N s = (Inr (FileDescriptor (mc_next s)),
    s\<lparr>mc_kernel := k, mc_heap := (mc_heap s)(mc_next s \<mapsto>
        \<lparr>fw_fd = n, fw_eof = False, fw_closed = False, fw_read_count = 0, fw_write_count = 0\<rparr>),
      mc_refs := (mc_refs s)(mc_next s := 1), mc_next := mc_next s + 1\<rparr>)"
  using assms by (simp add: TCPSocket_new_def Socket_new_def bind_def kernel_call_def SystemCall_ok FileDescriptor_new_def
      FDWrapper_new_def)

text \<open>Closing and then leaving the scope closes the descriptor once.\<close>

lemma close_and_leave:
  assumes "connection K n inp out closes" "mc_heap s (internal_fd d) = Some w" "fw_fd w = n" "mc_refs s (internal_fd d) = 1"
  shows "\<exists>s1 s2. FileDescriptor_close K d s = (Inr (), s1) \<and> FileDescriptor_destroy K d s1 = (Inr (), s2) \<and>
    out (mc_kernel s2) = out (mc_kernel s) \<and> closes (mc_kernel s2) = Suc (closes (mc_kernel s)) \<and>
    mc_heap s2 (internal_fd d) = None"
proof -
  obtain r err k where call: "sys_close K n (mc_kernel s) = ((r, err), k)" by (metis prod.exhaust)
  note C = connectionD(6) [OF assms(1) call]
  then have sys: "SystemCall ''close'' (r, err) 0 = Inr r" by (intro SystemCall_ok) auto
  show ?thesis
    using C assms(2-4)
    by (simp add: FileDescriptor_close_def FDWrapper_close_def FileDescriptor_destroy_def FDWrapper_destroy_def
        catch_exception_def bind_def wrapper_at_def kernel_call_def call sys update_wrapper_def Let_def)
qed

text \<open>
  Claim C7. Given the name of a host that resolves and a connection to it on which no call fails, the
  program ends, whatever the sizes in which the data comes and goes: the server got exactly the request,
  the program printed exactly the bytes the server sent before it ended the connection, closed the
  socket exactly once, and returns \<open>EXIT_SUCCESS\<close>.
\<close>

theorem webget_prints_response:
  assumes "sys_socket N (uint AF_INET) SOCK_STREAM 0 (mc_kernel s) = (((n, err), ()), k0)" and "0 \<le> n" and "n < 2 ^ 31"
    and "Address_of_host R host ''http'' = Inr address"
    and "sys_connect N n (ad_storage address, ad_size address) k0 = (((c, err'), ()), k1)" and "0 \<le> c" and "c < 2 ^ 31"
    and "connection K n inp out closes" and "length (http_request host path) < 2 ^ 63"
  shows "\<exists>s'. webget_main M K N R [program, host, path] s = Some (Exited EXIT_SUCCESS, inp k1, '''', s') \<and>
    out (mc_kernel s') = out k1 @ http_request host path \<and> closes (mc_kernel s') = Suc (closes k1) \<and>
    mc_heap s' (mc_next s) = None"
proof -
  let ?d = "FileDescriptor (mc_next s)"
  let ?w = "\<lparr>fw_fd = n, fw_eof = False, fw_closed = False, fw_read_count = 0, fw_write_count = 0\<rparr>"
  define s0 where "s0 = s\<lparr>mc_kernel := k0, mc_heap := (mc_heap s)(mc_next s \<mapsto> ?w),
    mc_refs := (mc_refs s)(mc_next s := 1), mc_next := mc_next s + 1\<rparr>"
  define s1 where "s1 = s0\<lparr>mc_kernel := k1\<rparr>"
  have new: "TCPSocket_new N s = (Inr ?d, s0)" unfolding s0_def by (rule TCPSocket_new_ok) fact+
  have live: "mc_heap s0 (internal_fd ?d) = Some ?w" "mc_heap s1 (internal_fd ?d) = Some ?w" "mc_refs s1 (mc_next s) = 1"
    "mc_kernel s1 = k1" by (simp_all add: s0_def s1_def)
  have conn: "Socket_connect N ?d address s0 = (Inr (), s1)"
    using fd_call_live [OF live(1), of "\<lambda>n. sys_connect N n (ad_storage address, ad_size address)" "(c, err')" "()" k1 "''connect''"]
      assms(5-7) by (simp add: Socket_connect_def bind_def SystemCall_ok s0_def s1_def)
  obtain t s2 w2 where wr: "FileDescriptor_write_string K ?d (http_request host path) True s1 = (Inr t, s2)"
    and s2: "mc_heap s2 (internal_fd ?d) = Some w2" "fw_fd w2 = n" "fw_eof w2 = fw_eof ?w" "mc_refs s2 = mc_refs s1"
      "out (mc_kernel s2) = out k1 @ http_request host path" "inp (mc_kernel s2) = inp k1" "closes (mc_kernel s2) = closes k1"
    using write_string_all [OF assms(8) live(2) _ assms(9)] live(4) by auto
  obtain s3 w3 where pr: "print_until_eof K ?d [] s2 = Some (Inr (), inp (mc_kernel s2), s3)"
    and s3: "mc_heap s3 (internal_fd ?d) = Some w3" "fw_fd w3 = n" "mc_refs s3 = mc_refs s2"
      "out (mc_kernel s3) = out (mc_kernel s2)" "closes (mc_kernel s3) = closes (mc_kernel s2)"
    using print_until_eof_all [OF assms(8) s2(1,2), of "[]"] s2(3) by auto
  obtain s4 s5 where cl: "FileDescriptor_close K ?d s3 = (Inr (), s4)" "FileDescriptor_destroy K ?d s4 = (Inr (), s5)"
    and s5: "out (mc_kernel s5) = out (mc_kernel s3)" "closes (mc_kernel s5) = Suc (closes (mc_kernel s3))"
      "mc_heap s5 (internal_fd ?d) = None"
    using close_and_leave [OF assms(8) s3(1,2)] s3(3) s2(4) live(3) by auto
  have "get_URL K N R host path s = Some (Inr (), inp k1, s5)"
    by (simp add: get_URL_def new bind_def assms(4) conn wr pr cl leave_scope_def s2(6))
  then have "webget_main M K N R [program, host, path] s = Some (Exited EXIT_SUCCESS, inp k1, '''', s5)"
    by (simp add: webget_main_def)
  then show ?thesis using s5 s3(4,5) s2(5,7) by simp
qed

text \<open>
  If the name does not resolve, the program closes the socket it had already
  opened, reports the resolver's message for \<open>getaddrinfo(host, http)\<close>, and returns \<open>EXIT_FAILURE\<close>.
\<close>

theorem webget_unknown_host:
  assumes "sys_socket N (uint AF_INET) SOCK_STREAM 0 (mc_kernel s) = (((n, err), ()), k0)" and "0 \<le> n" and "n < 2 ^ 31"
    and "getaddrinfo R (c_str host) ''http'' (make_hints AI_ALL 2) = (gai, res)" and "gai \<noteq> 0"
    and "counts_closes K n closes"
  shows "\<exists>s'. webget_main M K N R [program, host, path] s =
      Some (Exited EXIT_FAILURE, [], ''getaddrinfo('' @ host @ '', http): '' @ gai_strerror M gai @ [CHR 0x0A], s') \<and>
    closes (mc_kernel s') = Suc (closes k0) \<and> mc_heap s' (mc_next s) = None"
proof -
  let ?d = "FileDescriptor (mc_next s)"
  let ?w = "\<lparr>fw_fd = n, fw_eof = False, fw_closed = False, fw_read_count = 0, fw_write_count = 0\<rparr>"
  define s0 where "s0 = s\<lparr>mc_kernel := k0, mc_heap := (mc_heap s)(mc_next s \<mapsto> ?w),
    mc_refs := (mc_refs s)(mc_next s := 1), mc_next := mc_next s + 1\<rparr>"
  have new: "TCPSocket_new N s = (Inr ?d, s0)" unfolding s0_def by (rule TCPSocket_new_ok) fact+
  have "c_str ''http'' = ''http''" by code_simp
  then have fail: "Address_of_host R host ''http'' = Inl (tagged_error (''getaddrinfo('' @ host @ '', http)'') gai)"
    using assms(4,5) by (simp add: Address_of_host_def Address_resolve_def AF_INET_def)
  obtain s1 where "FileDescriptor_destroy K ?d s0 = (Inr (), s1)" "mc_heap s1 = (mc_heap s0)(mc_next s := None)"
    "closes (mc_kernel s1) = Suc (closes k0)"
    using destroy_last [of s0 ?d ?w K closes] assms(6) by (auto simp: s0_def)
  then show ?thesis
    by (simp add: webget_main_def get_URL_def new bind_def fail leave_scope_def)
qed

section \<open>Runs on the concrete network\<close>

lemma network_connection: "connection network_kernel n nw_input nw_output nw_closes"
  by (auto simp: connection_def network_kernel_def Let_def unat_gt_0)

theorem webget_prints_response_witness:
  "\<exists>s'. webget_main \<lparr>strerror = (\<lambda>_. ''''), gai_strerror = (\<lambda>_. '''')\<rparr> network_kernel (network_sockets (2, 1))
      (numeric_only Little_Endian) [''webget'', ''8.8.8.8'', ''/''] (one_socket (empty_network\<lparr>nw_input := [72, 105, 33, 10]\<rparr>))
      = Some (Exited EXIT_SUCCESS, [72, 105, 33, 10], '''', s') \<and>
    nw_output (mc_kernel s') = http_request ''8.8.8.8'' ''/'' \<and> nw_closes (mc_kernel s') = 1"
proof -
  let ?net = "empty_network\<lparr>nw_input := [72, 105, 33, 10]\<rparr>"
  have "\<not> isl (Address_of_host (numeric_only Little_Endian) ''8.8.8.8'' ''http'')" by code_simp
  then obtain a where a: "Address_of_host (numeric_only Little_Endian) ''8.8.8.8'' ''http'' = Inr a"
    by (cases "Address_of_host (numeric_only Little_Endian) ''8.8.8.8'' ''http''") auto
  have sock: "sys_socket (network_sockets (2, 1)) (uint AF_INET) SOCK_STREAM 0 (mc_kernel (one_socket ?net)) =
      (((5, 0), ()), ?net\<lparr>nw_next_fd := 6\<rparr>)"
    by (simp add: network_sockets_def one_socket_def empty_network_def)
  have conn: "sys_connect (network_sockets (2, 1)) 5 (ad_storage a, ad_size a) (?net\<lparr>nw_next_fd := 6\<rparr>) =
      (((0, 0), ()), ?net\<lparr>nw_next_fd := 6\<rparr>)"
    by (simp add: network_sockets_def)
  have "length (http_request ''8.8.8.8'' ''/'') < 2 ^ 63" by (simp add: http_request_def string_bytes_def crlf_def)
  from webget_prints_response [OF sock _ _ a conn _ _ network_connection this,
      of "\<lparr>strerror = (\<lambda>_. ''''), gai_strerror = (\<lambda>_. '''')\<rparr>" "''webget''"]
  show ?thesis by (auto simp: empty_network_def)
qed

theorem webget_unknown_host_witness:
  "\<exists>s'. webget_main \<lparr>strerror = (\<lambda>_. ''''), gai_strerror = (\<lambda>_. ''unknown'')\<rparr> network_kernel (network_sockets (2, 1))
      (numeric_only Little_Endian) [''webget'', ''h'', ''/''] (one_socket empty_network)
      = Some (Exited EXIT_FAILURE, [], ''getaddrinfo(h, http): unknown'' @ [CHR 0x0A], s') \<and> nw_closes (mc_kernel s') = 1"
proof -
  have sock: "sys_socket (network_sockets (2, 1)) (uint AF_INET) SOCK_STREAM 0 (mc_kernel (one_socket empty_network)) =
      (((5, 0), ()), empty_network\<lparr>nw_next_fd := 6\<rparr>)"
    by (simp add: network_sockets_def one_socket_def empty_network_def)
  have gai: "getaddrinfo (numeric_only Little_Endian) (c_str ''h'') ''http'' (make_hints AI_ALL 2) = (- 2, [])"
    by (simp add: numeric_only_def c_str_def parse_quad_def)
  from webget_unknown_host [OF sock _ _ gai _ network_contracts(5),
      of "\<lparr>strerror = (\<lambda>_. ''''), gai_strerror = (\<lambda>_. ''unknown'')\<rparr>" "''webget''" "''/''"]
  show ?thesis by (auto simp: empty_network_def)
qed

end
