(* ===== verification/Web_Get_Safety.thy ===== *)
theory Web_Get_Safety
  imports Web_Get
begin

text \<open>
  What \<open>get_URL\<close> of \<open>apps/webget.cc\<close> releases on its exception paths: whichever call fails, the
  destructor of the socket runs. The one case in which the descriptor is closed twice is a failure of
  \<open>close(2)\<close> itself.
\<close>

section \<open>Contracts\<close>

text \<open>
  Calls on the descriptor \<open>n\<close> may fail at any time, but only \<open>close(2)\<close> closes it; \<open>closes\<close> counts its
  calls. Results of \<open>getaddrinfo(3)\<close> have as many bytes as their length says.
\<close>

definition closed_by_close_only :: "'w kernel \<Rightarrow> 'w socket_kernel \<Rightarrow> int \<Rightarrow> ('w \<Rightarrow> nat) \<Rightarrow> bool" where
  "closed_by_close_only K N n closes \<longleftrightarrow>
     (\<forall>sz w. closes (snd (snd (sys_read K n sz w))) = closes w) \<and>
     (\<forall>iov w. closes (snd (sys_writev K n iov w)) = closes w) \<and>
     (\<forall>a w. closes (snd (sys_connect N n a w)) = closes w) \<and> counts_closes K n closes"

definition resolver_sound :: "resolver \<Rightarrow> bool" where
  "resolver_sound R \<longleftrightarrow> (\<forall>node service hints. \<forall>(mem, len) \<in> set (snd (getaddrinfo R node service hints)). unat len \<le> length mem)"

lemma Address_resolve_no_ub:
  assumes "resolver_sound R"
  shows "Address_resolve R node service hints \<noteq> Inl undefined_behaviour"
proof -
  obtain g res where call: "getaddrinfo R (c_str node) (c_str service) hints = (g, res)" by (metis prod.exhaust)
  then have "\<forall>(mem, len) \<in> set res. unat len \<le> length mem" using assms by (metis resolver_sound_def snd_conv)
  moreover have "unat (ucast (len :: u32) :: size_t) = unat len" for len by (simp add: unat_ucast_up)
  ultimately show ?thesis
    by (cases res) (auto simp: Address_resolve_def call Address_of_sockaddr_def Let_def split: if_splits)
qed

section \<open>The socket stays live until the scope is left\<close>

text \<open>
  \<open>holds d n c s\<close>: \<open>d\<close> is the only handle of a wrapper of the open descriptor \<open>n\<close>, which has been closed
  \<open>c\<close> times before.
\<close>

definition holds :: "('w \<Rightarrow> nat) \<Rightarrow> FileDescriptor \<Rightarrow> int \<Rightarrow> nat \<Rightarrow> 'w machine \<Rightarrow> bool" where
  "holds closes d n c s \<longleftrightarrow> (\<exists>w. mc_heap s (internal_fd d) = Some w \<and> fw_fd w = n \<and> \<not> fw_closed w) \<and>
     mc_refs s (internal_fd d) = 1 \<and> closes (mc_kernel s) = c"

lemma holds_connect:
  assumes "holds closes d n c s" "closed_by_close_only K N n closes" "Socket_connect N d address s = (res, s')"
  shows "holds closes d n c s' \<and> res \<noteq> Inl undefined_behaviour \<and> res \<noteq> Inl (unix_error ''close'' errno)"
proof -
  obtain w where w: "mc_heap s (internal_fd d) = Some w" "fw_fd w = n" "\<not> fw_closed w"
    using assms(1) by (auto simp: holds_def)
  obtain r x k where call: "sys_connect N n (ad_storage address, ad_size address) (mc_kernel s) = ((r, x), k)"
    by (metis prod.exhaust)
  have k: "closes k = closes (mc_kernel s)" using assms(2) call by (metis closed_by_close_only_def snd_conv)
  have "SystemCall ''connect'' r 0 \<noteq> Inl (unix_error ''close'' errno)" by (simp add: SystemCall_def Let_def)
  then show ?thesis
    using fd_call_live [OF w(1), of "\<lambda>n. sys_connect N n (ad_storage address, ad_size address)" r x k "''connect''"]
      assms(1,3) call k w SystemCall_no_ub [of "''connect''" r 0]
    by (auto simp: Socket_connect_def bind_def holds_def split: sum.splits)
qed

lemma holds_write:
  assumes "holds closes d n c s" "closed_by_close_only K N n closes" "writev_contract K n out" "length str < 2 ^ 63"
    and "FileDescriptor_write_string K d str True s = (res, s')"
  shows "holds closes d n c s' \<and> (\<forall>e. res = Inl e \<longrightarrow> (\<exists>errno. e = unix_error ''writev'' errno))"
proof -
  let ?v = "BufferViewList_of_view str"
  obtain w where w: "mc_heap s (internal_fd d) = Some w" "fw_fd w = n" "\<not> fw_closed w"
    using assms(1) by (auto simp: holds_def)
  have run: "FileDescriptor_write_loop K d True ?v 0 s = (res, s')"
    using assms(5) by (simp add: FileDescriptor_write_string_def FileDescriptor_write_def)
  have "\<forall>iov k. closes (snd (sys_writev K (fw_fd w) iov k)) = closes k"
    using assms(2) w(2) by (simp add: closed_by_close_only_def)
  then have "fd_frame d (\<lambda>k k'. closes k' = closes k) s s'"
    by (rule write_loop_frame [OF w(1) run]) (simp add: transp_def)
  moreover have "write_outcome out (concat (bv_views ?v)) 0 s (res, s')"
    using write_loop_all [OF w(1), of K out ?v 0] assms(3,4) w(2) run by (simp add: BufferViewList_of_view_def)
  ultimately show ?thesis
    using assms(1) w by (auto simp: holds_def fd_frame_def write_outcome_def)
qed

lemma holds_read:
  assumes "holds closes d n c s" "closed_by_close_only K N n closes" "read_contract K n"
    and "FileDescriptor_read K d limit s = (res, s')"
  shows "holds closes d n c s' \<and> (\<forall>e. res = Inl e \<longrightarrow> (\<exists>errno. e = unix_error ''read'' errno))"
proof -
  obtain w where w: "mc_heap s (internal_fd d) = Some w" "fw_fd w = n" "\<not> fw_closed w"
    using assms(1) by (auto simp: holds_def)
  obtain r err data k where call: "sys_read K n (min BUFFER_SIZE limit) (mc_kernel s) = ((r, err), data, k)"
    by (metis prod.exhaust)
  have "closes k = closes (mc_kernel s)" using assms(2) call by (metis closed_by_close_only_def snd_conv)
  then show ?thesis
    using read_live [OF w(1), of K limit r err data k] assms(1,3,4) w call
    by (auto simp: holds_def split: if_splits)
qed

lemma holds_print_until_eof:
  assumes "print_until_eof K d cout s = Some r" "holds closes d n c s" "closed_by_close_only K N n closes" "read_contract K n"
  shows "holds closes d n c (snd (snd r)) \<and> (\<forall>e. fst r = Inl e \<longrightarrow> (\<exists>errno. e = unix_error ''read'' errno))"
  using assms(2-4)
proof (induction rule: print_until_eof.raw_induct [OF _ assms(1), case_names 1])
  case (1 loop K d cout s r)
  obtain w where w: "mc_heap s (internal_fd d) = Some w" using "1.prems"(1) by (auto simp: holds_def)
  show ?case
  proof (cases "fw_eof w")
    case True
    then show ?thesis using "1.hyps" "1.prems"(1) by (auto simp: eof_live [OF w])
  next
    case False
    obtain res s1 where rd: "FileDescriptor_read K d size_max s = (res, s1)" by (metis prod.exhaust)
    note h = holds_read [OF "1.prems"(1,2,3) rd]
    show ?thesis
      using "1.hyps" False "1.prems" rd h "1.IH" by (cases res) (auto simp: eof_live [OF w])
  qed
qed

text \<open>Leaving the scope frees the wrapper and closes the descriptor unless it was closed before.\<close>

lemma destroy_any:
  assumes "mc_heap s (internal_fd d) = Some w" "mc_refs s (internal_fd d) = 1" "counts_closes K (fw_fd w) closes"
  shows "\<exists>s'. FileDescriptor_destroy K d s = (Inr (), s') \<and> mc_heap s' (internal_fd d) = None \<and>
    closes (mc_kernel s') = closes (mc_kernel s) + (if fw_closed w then 0 else 1)"
proof -
  let ?s = "s\<lparr>mc_refs := (mc_refs s)(internal_fd d := 0)\<rparr>"
  obtain s' where "FDWrapper_destroy K (internal_fd d) ?s = (Inr (), s')"
    "closes (mc_kernel s') = closes (mc_kernel s) + (if fw_closed w then 0 else 1)"
    using FDWrapper_destroy_live [of ?s "internal_fd d" w K closes] assms by auto
  then show ?thesis using assms(2) by (simp add: FileDescriptor_destroy_def Let_def bind_def)
qed

lemma holds_leave_scope:
  assumes "holds closes d n c s" "counts_closes K n closes" "res \<noteq> Inl undefined_behaviour"
  shows "\<exists>s'. leave_scope K d (res, cout, s) = (res, cout, s') \<and> mc_heap s' (internal_fd d) = None \<and>
    closes (mc_kernel s') = c + 1"
proof -
  obtain w where w: "mc_heap s (internal_fd d) = Some w" "fw_fd w = n" "\<not> fw_closed w" using assms(1) by (auto simp: holds_def)
  then show ?thesis using destroy_any [OF w(1), of K closes] assms by (auto simp: holds_def leave_scope_def)
qed

lemma holds_close_leave:
  assumes "holds closes d n c s" "counts_closes K n closes" "FileDescriptor_close K d s = (res, s1)"
  shows "\<exists>s'. leave_scope K d (res, cout, s1) = (res, cout, s') \<and> mc_heap s' (internal_fd d) = None \<and>
    (case res of Inr _ \<Rightarrow> closes (mc_kernel s') = c + 1
     | Inl e \<Rightarrow> (\<exists>errno. e = unix_error ''close'' errno) \<and> closes (mc_kernel s') = c + 2)"
proof -
  obtain w where w: "mc_heap s (internal_fd d) = Some w" "fw_fd w = n" "\<not> fw_closed w" using assms(1) by (auto simp: holds_def)
  obtain r k where call: "sys_close K n (mc_kernel s) = (r, k)" by (metis prod.exhaust)
  have k: "closes k = Suc (closes (mc_kernel s))" using assms(2) call by (metis counts_closes_def snd_conv)
  note run = FileDescriptor_close_def FDWrapper_close_def bind_def wrapper_at_def kernel_call_def update_wrapper_def
  show ?thesis
  proof (cases "SystemCall ''close'' r 0")
    case (Inl e)
    then have e: "\<exists>errno. e = unix_error ''close'' errno" by (auto simp: SystemCall_def Let_def split: if_splits)
    have "res = Inl e" "s1 = s\<lparr>mc_kernel := k\<rparr>" using assms(3) Inl w call by (auto simp: run)
    then show ?thesis
      using destroy_any [of s1 d w K closes] assms(1,2) w k e by (auto simp: holds_def leave_scope_def)
  next
    case (Inr v)
    define w1 where "w1 = w\<lparr>fw_eof := True, fw_closed := True\<rparr>"
    have res: "res = Inr ()" "s1 = s\<lparr>mc_kernel := k, mc_heap := (mc_heap s)(internal_fd d \<mapsto> w1)\<rparr>"
      using assms(3) Inr w call by (auto simp: run w1_def)
    then show ?thesis
      using destroy_any [of s1 d w1 K closes] assms(1,2) w k by (auto simp: holds_def leave_scope_def w1_def)
  qed
qed

section \<open>Properties\<close>

lemma Address_resolve_error: "Address_resolve R node service hints \<noteq> Inl (unix_error a b)"
  by (auto simp: Address_resolve_def Address_of_sockaddr_def Let_def split: prod.splits list.splits if_splits)

text \<open>Everything between the construction of the socket and the reading loop.\<close>

lemma holds_request:
  assumes "holds closes d n c s" "closed_by_close_only K N n closes" "writev_contract K n out" "resolver_sound R"
    and "length (http_request host path) < 2 ^ 63"
    and "bind (lift (Address_of_host R host ''http'')) (\<lambda>address. bind (Socket_connect N d address) (\<lambda>_.
      FileDescriptor_write_string K d (http_request host path) True)) s = (res, s')"
  shows "holds closes d n c s' \<and> res \<noteq> Inl undefined_behaviour \<and> res \<noteq> Inl (unix_error ''close'' errno)"
proof (cases "Address_of_host R host ''http''")
  case (Inl e)
  then have "res = Inl e" "s' = s" using assms(6) by (simp_all add: bind_def)
  moreover have "e \<noteq> undefined_behaviour" "e \<noteq> unix_error ''close'' errno"
    using Inl Address_resolve_no_ub [OF assms(4)] Address_resolve_error unfolding Address_of_host_def by metis+
  ultimately show ?thesis using assms(1) by simp
next
  case (Inr address)
  obtain r1 s1 where co: "Socket_connect N d address s = (r1, s1)" by (metis prod.exhaust)
  note h1 = holds_connect [OF assms(1,2) co]
  show ?thesis
  proof (cases r1)
    case (Inl e)
    then show ?thesis using assms(6) Inr co h1 by (auto simp: bind_def)
  next
    case r1: (Inr u)
    then have "FileDescriptor_write_string K d (http_request host path) True s1 = (res, s')"
      using assms(6) Inr co by (simp add: bind_def)
    from holds_write [OF conjunct1 [OF h1] assms(2,3,5) this] show ?thesis by auto
  qed
qed

text \<open>
  Claim C16. Whichever system call fails and however the server behaves, if \<open>webget\<close> ends after its socket
  was created, it ends by returning from \<open>main\<close>, its socket object is gone, and the descriptor was
  closed: once, and twice only when \<open>close(2)\<close> itself fails, as the destructor then closes it again.
  With \<open>EXIT_SUCCESS\<close> nothing is reported, and with \<open>EXIT_FAILURE\<close> the error output is the text of the
  exception.
\<close>

theorem webget_releases_socket:
  assumes "sys_socket N (uint AF_INET) SOCK_STREAM 0 (mc_kernel s) = (((n, err), ()), k0)" and "0 \<le> n" and "n < 2 ^ 31"
    and "closed_by_close_only K N n closes" and "read_contract K n" and "writev_contract K n out" and "resolver_sound R"
    and "length (http_request host path) < 2 ^ 63"
    and "webget_main M K N R [program, host, path] s = Some (how, cout, cerr, s')"
  shows "mc_heap s' (mc_next s) = None \<and>
    (how = Exited EXIT_SUCCESS \<and> cerr = '''' \<and> closes (mc_kernel s') = closes k0 + 1 \<or>
     (\<exists>e. how = Exited EXIT_FAILURE \<and> cerr = exception_what M e @ [CHR 0x0A] \<and> e \<noteq> undefined_behaviour \<and>
       closes (mc_kernel s') = closes k0 + (if \<exists>errno. e = unix_error ''close'' errno then 2 else 1)))"
proof -
  let ?d = "FileDescriptor (mc_next s)" and ?c = "closes k0"
  let ?w = "\<lparr>fw_fd = n, fw_eof = False, fw_closed = False, fw_read_count = 0, fw_write_count = 0\<rparr>"
  define s0 where "s0 = s\<lparr>mc_kernel := k0, mc_heap := (mc_heap s)(mc_next s \<mapsto> ?w),
    mc_refs := (mc_refs s)(mc_next s := 1), mc_next := mc_next s + 1\<rparr>"
  have new: "TCPSocket_new N s = (Inr ?d, s0)" unfolding s0_def by (rule TCPSocket_new_ok) fact+
  have h0: "holds closes ?d n ?c s0" by (simp add: holds_def s0_def)
  have cc: "counts_closes K n closes" using assms(4) by (simp add: closed_by_close_only_def)
  let ?ok = "\<lambda>res s'. mc_heap s' (mc_next s) = None \<and> res \<noteq> Inl undefined_behaviour \<and>
    closes (mc_kernel s') = ?c + (if \<exists>errno. res = Inl (unix_error ''close'' errno) then 2 else 1)"
  obtain r1 s1 where rq: "bind (lift (Address_of_host R host ''http'')) (\<lambda>address. bind (Socket_connect N ?d address) (\<lambda>_.
      FileDescriptor_write_string K ?d (http_request host path) True)) s0 = (r1, s1)" by (metis prod.exhaust)
  note h1 = holds_request [OF h0 assms(4,6,7,8) rq]
  obtain res s2 where get: "get_URL K N R host path s = Some (res, cout, s2)"
    using assms(9) by (auto simp: webget_main_def split: option.splits sum.splits if_splits prod.splits)
  have ok: "?ok res s2"
  proof (cases r1)
    case (Inl e)
    then show ?thesis using get h1 holds_leave_scope [of closes ?d n ?c s1 K "Inl e" "[]"] cc by (auto simp: get_URL_def new rq)
  next
    case (Inr u)
    obtain r2 cout2 s3 where pr: "print_until_eof K ?d [] s1 = Some (r2, cout2, s3)"
      using get Inr by (auto simp: get_URL_def new rq split: option.splits)
    have h2: "holds closes ?d n ?c s3" "\<And>e. r2 = Inl e \<Longrightarrow> \<exists>errno. e = unix_error ''read'' errno"
      using holds_print_until_eof [OF pr _ assms(4,5)] h1 by auto
    show ?thesis
    proof (cases r2)
      case (Inl e)
      then show ?thesis
        using get Inr pr h2 holds_leave_scope [OF h2(1) cc, of "Inl e" cout2] by (auto simp: get_URL_def new rq)
    next
      case r2: (Inr v)
      obtain r3 s4 where cl: "FileDescriptor_close K ?d s3 = (r3, s4)" by (metis prod.exhaust)
      from holds_close_leave [OF h2(1) cc cl, of cout2] show ?thesis
        using get Inr pr r2 cl by (cases r3) (auto simp: get_URL_def new rq)
    qed
  qed
  then show ?thesis
    using assms(9) get by (cases res) (auto simp: webget_main_def)
qed

text \<open>A network in which connections are refused.\<close>

definition refusing_sockets :: "network socket_kernel" where
  "refusing_sockets = (network_sockets (2, 1))\<lparr>sys_connect := (\<lambda>_ _ w. (((- 1, 111), ()), w))\<rparr>"

lemma refusing_contracts:
  "closed_by_close_only network_kernel refusing_sockets n nw_closes"
  "read_contract network_kernel n" "writev_contract network_kernel n nw_output" "resolver_sound (numeric_only e)"
  by (auto simp: closed_by_close_only_def counts_closes_def read_contract_def writev_contract_def resolver_sound_def
      refusing_sockets_def network_kernel_def numeric_only_def inet_sockaddr_def sockaddr_in_memory_def Let_def
      split: option.splits)

theorem webget_releases_socket_witness:
  "\<exists>s'. webget_main \<lparr>strerror = (\<lambda>_. ''Connection refused''), gai_strerror = (\<lambda>_. '''')\<rparr> network_kernel refusing_sockets
      (numeric_only Little_Endian) [''webget'', ''8.8.8.8'', ''/''] (one_socket empty_network)
      = Some (Exited EXIT_FAILURE, [], ''connect: Connection refused'' @ [CHR 0x0A], s') \<and>
    nw_closes (mc_kernel s') = 1 \<and> mc_heap s' 1 = None"
proof -
  let ?M = "\<lparr>strerror = (\<lambda>_. ''Connection refused''), gai_strerror = (\<lambda>_. '''')\<rparr>"
  let ?R = "numeric_only Little_Endian" and ?k = "empty_network\<lparr>nw_next_fd := 6\<rparr>"
  let ?run = "webget_main ?M network_kernel refusing_sockets ?R [''webget'', ''8.8.8.8'', ''/''] (one_socket empty_network)"
  have "\<not> isl (Address_of_host ?R ''8.8.8.8'' ''http'')" by code_simp
  then obtain a where a: "Address_of_host ?R ''8.8.8.8'' ''http'' = Inr a"
    by (cases "Address_of_host ?R ''8.8.8.8'' ''http''") auto
  have sock: "sys_socket refusing_sockets (uint AF_INET) SOCK_STREAM 0 (mc_kernel (one_socket empty_network)) = (((5, 0), ()), ?k)"
    by (simp add: refusing_sockets_def network_sockets_def one_socket_def empty_network_def)
  note new = TCPSocket_new_ok [OF sock]
  have calls: "sys_connect refusing_sockets n x w = (((- 1, 111), ()), w)"
    "sys_close network_kernel n w = ((0, 0), w\<lparr>nw_closes := Suc (nw_closes w)\<rparr>)" "nw_closes empty_network = 0" for n x w
    by (simp_all add: refusing_sockets_def network_kernel_def empty_network_def)
  have "map_option (\<lambda>(how, cout, cerr, s'). (how, cout, cerr, nw_closes (mc_kernel s'))) ?run =
      Some (Exited EXIT_FAILURE, [], ''connect: Connection refused'' @ [CHR 0x0A], 1)"
    by (simp add: webget_main_def get_URL_def new a bind_def Socket_connect_def fd_call_def FileDescriptor_fd_num_def wrapper_at_def
        kernel_call_def calls SystemCall_failed SystemCall_ok leave_scope_def FileDescriptor_destroy_def FDWrapper_destroy_def
        FDWrapper_close_def catch_exception_def update_wrapper_def Let_def)
  then obtain s' where run: "?run = Some (Exited EXIT_FAILURE, [], ''connect: Connection refused'' @ [CHR 0x0A], s')"
    and one: "nw_closes (mc_kernel s') = 1" by auto
  have "length (http_request ''8.8.8.8'' ''/'') < 2 ^ 63" by (simp add: http_request_def string_bytes_def crlf_def)
  from webget_releases_socket [OF sock _ _ refusing_contracts this run] run one show ?thesis
    by (simp add: one_socket_def)
qed

end
