(* ===== verification/Loopback.thy ===== *)
theory Loopback
  imports Web_Get
begin

text \<open>
  What programs with several sockets expect of the host's own network: an abstract network of open
  descriptors, addresses, waiting datagrams, connections and their unread bytes, which the kernel's calls
  must implement whenever they succeed. Any call may fail. Programs are run step by step over it, keeping
  track of the descriptors they own.
\<close>

section \<open>The abstract network\<close>

text \<open>
  What was done with a socket so far: nothing, it was bound, it listens with a backlog, or it was connected.
  \<open>nt_name\<close> is the address under which it is reached, \<open>nt_taken\<close> are the addresses that cannot be bound
  (those in use and those not released yet), \<open>nt_peer\<close> the address a datagram socket is connected to,
  \<open>nt_backlog\<close> the clients that wait to be accepted, \<open>nt_link\<close> the other end of a stream and \<open>nt_inbox\<close> the
  bytes that have arrived and were not read. No other process uses the addresses of the program.
\<close>

datatype phase = Fresh | Bound | Listening int | Connected

record net =
  nt_faults :: bool
  nt_live :: "int list"
  nt_kind :: "int \<Rightarrow> int \<times> int"
  nt_phase :: "int \<Rightarrow> phase"
  nt_name :: "int \<rightharpoonup> bytes"
  nt_taken :: "(int \<times> bytes) set"
  nt_peer :: "int \<rightharpoonup> bytes"
  nt_queue :: "int \<Rightarrow> (bytes \<times> bytes) list"
  nt_backlog :: "int \<Rightarrow> int list"
  nt_link :: "int \<rightharpoonup> int"
  nt_inbox :: "int \<Rightarrow> bytes"

definition sockaddr :: "bytes \<times> u32 \<Rightarrow> bytes" where
  "sockaddr a = take (unat (snd a)) (fst a)"

text \<open>The open socket of a type that is reached under an address; TCP and UDP have separate ports.\<close>

definition net_owner :: "net \<Rightarrow> int \<Rightarrow> bytes \<Rightarrow> int option" where
  "net_owner v ty a = find (\<lambda>n. snd (nt_kind v n) = ty \<and> nt_name v n = Some a) (nt_live v)"

definition net_free :: "net \<Rightarrow> int \<Rightarrow> bytes \<Rightarrow> bool" where
  "net_free v ty a \<longleftrightarrow> (ty, a) \<notin> nt_taken v \<and> net_owner v ty a = None"

text \<open>
  A new socket; its number may have been that of a closed one, of which nothing is left. Two connected
  ones, and a connection accepted from the client \<open>c\<close>.
\<close>

definition net_open :: "int \<Rightarrow> int \<times> int \<Rightarrow> net \<Rightarrow> net" where
  "net_open n kind v = v\<lparr>nt_live := n # nt_live v, nt_kind := (nt_kind v)(n := kind), nt_phase := (nt_phase v)(n := Fresh),
     nt_name := (nt_name v)(n := None), nt_peer := (nt_peer v)(n := None), nt_queue := (nt_queue v)(n := []),
     nt_backlog := (\<lambda>l. removeAll n (nt_backlog v l))(n := []),
     nt_link := (\<lambda>m. if nt_link v m = Some n then None else nt_link v m)(n := None), nt_inbox := (nt_inbox v)(n := [])\<rparr>"

definition net_join :: "int \<Rightarrow> int \<Rightarrow> net \<Rightarrow> net" where
  "net_join a b v = v\<lparr>nt_phase := (nt_phase v)(a := Connected, b := Connected), nt_link := (nt_link v)(a \<mapsto> b, b \<mapsto> a)\<rparr>"

definition net_bind :: "int \<Rightarrow> bytes \<Rightarrow> net \<Rightarrow> net" where
  "net_bind n a v = v\<lparr>nt_phase := (nt_phase v)(n := Bound), nt_name := (nt_name v)(n \<mapsto> a),
     nt_taken := insert (snd (nt_kind v n), a) (nt_taken v)\<rparr>"

text \<open>A socket without a name gets one, \<open>h\<close>, when it is first used.\<close>

definition net_autobind :: "int \<Rightarrow> bytes \<Rightarrow> net \<Rightarrow> net" where
  "net_autobind n h v = (if nt_name v n = None then net_bind n h v else v)"

definition net_listen :: "int \<Rightarrow> int \<Rightarrow> net \<Rightarrow> net" where
  "net_listen n backlog v = v\<lparr>nt_phase := (nt_phase v)(n := Listening backlog)\<rparr>"

definition net_queue_up :: "int \<Rightarrow> int \<Rightarrow> net \<Rightarrow> net" where
  "net_queue_up n l v = v\<lparr>nt_phase := (nt_phase v)(n := Connected), nt_backlog := (nt_backlog v)(l := nt_backlog v l @ [n])\<rparr>"

definition net_set_peer :: "int \<Rightarrow> bytes \<Rightarrow> net \<Rightarrow> net" where
  "net_set_peer n a v = v\<lparr>nt_phase := (nt_phase v)(n := Connected), nt_peer := (nt_peer v)(n \<mapsto> a)\<rparr>"

definition net_accept :: "int \<Rightarrow> int \<Rightarrow> net \<Rightarrow> net" where
  "net_accept l n v =
     (case nt_backlog v l of [] \<Rightarrow> v
      | c # q \<Rightarrow> net_join c n (net_open n (nt_kind v l) (v\<lparr>nt_backlog := (nt_backlog v)(l := q)\<rparr>)))"

text \<open>A datagram from \<open>n\<close> with the source \<open>h\<close> arrives at \<open>m\<close>.\<close>

definition net_send :: "int \<Rightarrow> bytes \<Rightarrow> int \<Rightarrow> bytes \<Rightarrow> net \<Rightarrow> net" where
  "net_send n h m data v =
     (net_autobind n h v)\<lparr>nt_queue := (nt_queue v)(m := nt_queue v m @ [(data, h)])\<rparr>"

definition net_dequeue :: "int \<Rightarrow> net \<Rightarrow> net" where
  "net_dequeue n v = v\<lparr>nt_queue := (nt_queue v)(n := tl (nt_queue v n))\<rparr>"

definition net_deliver :: "int \<Rightarrow> bytes \<Rightarrow> net \<Rightarrow> net" where
  "net_deliver m data v = v\<lparr>nt_inbox := (nt_inbox v)(m := nt_inbox v m @ data)\<rparr>"

definition net_take :: "int \<Rightarrow> nat \<Rightarrow> net \<Rightarrow> net" where
  "net_take n k v = v\<lparr>nt_inbox := (nt_inbox v)(n := drop k (nt_inbox v n))\<rparr>"

definition net_hangup :: "int \<Rightarrow> net \<Rightarrow> net" where
  "net_hangup n v = v\<lparr>nt_link := (nt_link v)(n := None)\<rparr>"

text \<open>Closing may release addresses, at once or later; \<open>T\<close> are those still taken.\<close>

definition net_close :: "int \<Rightarrow> (int \<times> bytes) set \<Rightarrow> net \<Rightarrow> net" where
  "net_close n T v = v\<lparr>nt_live := removeAll n (nt_live v), nt_taken := T\<rparr>"

definition net_target :: "int \<Rightarrow> (bytes \<times> u32) option \<Rightarrow> net \<Rightarrow> int option" where
  "net_target n dest v =
     Option.bind (case dest of Some a \<Rightarrow> Some (sockaddr a) | None \<Rightarrow> nt_peer v n) (net_owner v SOCK_DGRAM)"

text \<open>A datagram from \<open>h\<close> is not dropped at \<open>m\<close>: nothing else waits there, and \<open>m\<close> is not connected to another address.\<close>

definition net_takes :: "int \<Rightarrow> bytes \<Rightarrow> net \<Rightarrow> bool" where
  "net_takes m h v \<longleftrightarrow> nt_queue v m = [] \<and> (nt_peer v m = None \<or> nt_peer v m = Some h)"

text \<open>An address of the loopback interface that any user may bind, and one the host gives to sockets by itself.\<close>

definition loopback_address :: "byte_order \<Rightarrow> bytes \<Rightarrow> bool" where
  "loopback_address e a \<longleftrightarrow> (\<exists>port. 1024 \<le> unat port \<and> a = inet_sockaddr e 0x7F000001 port)"

definition ephemeral :: "byte_order \<Rightarrow> bytes \<Rightarrow> bool" where
  "ephemeral e a \<longleftrightarrow> (\<exists>port. 32768 \<le> unat port \<and> unat port < 61000 \<and> a = inet_sockaddr e 0x7F000001 port)"

lemmas net_ops = net_open_def net_join_def net_bind_def net_autobind_def net_listen_def net_queue_up_def net_set_peer_def
  net_accept_def net_send_def net_dequeue_def net_deliver_def net_take_def net_hangup_def net_close_def

subsection \<open>What the operations leave alone\<close>

lemma net_faults_simps [simp]:
  "nt_faults (net_open n kind v) = nt_faults v" "nt_faults (net_join a b v) = nt_faults v" "nt_faults (net_bind n h v) = nt_faults v"
  "nt_faults (net_autobind n h v) = nt_faults v" "nt_faults (net_listen n bl v) = nt_faults v" "nt_faults (net_queue_up n l v) = nt_faults v"
  "nt_faults (net_set_peer n h v) = nt_faults v" "nt_faults (net_accept l n v) = nt_faults v" "nt_faults (net_send n h m data v) = nt_faults v"
  "nt_faults (net_deliver m data v) = nt_faults v" "nt_faults (net_take n k v) = nt_faults v" "nt_faults (net_dequeue n v) = nt_faults v"
  "nt_faults (net_hangup n v) = nt_faults v" "nt_faults (net_close n T v) = nt_faults v"
  by (simp_all add: net_ops split: list.split)

lemma net_live_simps [simp]:
  "nt_live (net_open n kind v) = n # nt_live v" "nt_live (net_join a b v) = nt_live v" "nt_live (net_bind n h v) = nt_live v"
  "nt_live (net_autobind n h v) = nt_live v" "nt_live (net_listen n bl v) = nt_live v" "nt_live (net_queue_up n l v) = nt_live v"
  "nt_live (net_set_peer n h v) = nt_live v" "nt_live (net_send n h m data v) = nt_live v" "nt_live (net_deliver m data v) = nt_live v"
  "nt_live (net_take n k v) = nt_live v" "nt_live (net_dequeue n v) = nt_live v" "nt_live (net_hangup n v) = nt_live v"
  "nt_live (net_close n T v) = removeAll n (nt_live v)"
  by (simp_all add: net_ops)

lemma net_kind_simps [simp]:
  "nt_kind (net_open n kind v) = (nt_kind v)(n := kind)" "nt_kind (net_join a b v) = nt_kind v" "nt_kind (net_bind n h v) = nt_kind v"
  "nt_kind (net_autobind n h v) = nt_kind v" "nt_kind (net_listen n bl v) = nt_kind v" "nt_kind (net_queue_up n l v) = nt_kind v"
  "nt_kind (net_set_peer n h v) = nt_kind v" "nt_kind (net_send n h m data v) = nt_kind v" "nt_kind (net_deliver m data v) = nt_kind v"
  "nt_kind (net_take n k v) = nt_kind v" "nt_kind (net_dequeue n v) = nt_kind v" "nt_kind (net_hangup n v) = nt_kind v"
  "nt_kind (net_close n T v) = nt_kind v"
  by (simp_all add: net_ops)

text \<open>Addresses.\<close>

lemma net_owner_cong:
  "nt_live v' = nt_live v \<Longrightarrow> nt_kind v' = nt_kind v \<Longrightarrow> nt_name v' = nt_name v \<Longrightarrow> net_owner v' ty a = net_owner v ty a"
  by (simp add: net_owner_def)

lemma net_owner_simps [simp]:
  "net_owner (net_join b c v) ty a = net_owner v ty a" "net_owner (net_listen n bl v) ty a = net_owner v ty a"
  "net_owner (net_queue_up n l v) ty a = net_owner v ty a" "net_owner (net_set_peer n h v) ty a = net_owner v ty a"
  "net_owner (net_send n h m data v) ty a = net_owner (net_autobind n h v) ty a"
  "net_owner (net_dequeue n v) ty a = net_owner v ty a" "net_owner (net_deliver n x v) ty a = net_owner v ty a"
  "net_owner (net_take n k v) ty a = net_owner v ty a" "net_owner (net_hangup n v) ty a = net_owner v ty a"
  by (rule net_owner_cong; simp add: net_ops)+

lemma net_free_simps [simp]:
  "net_free (net_join b c v) ty a = net_free v ty a" "net_free (net_listen n bl v) ty a = net_free v ty a"
  "net_free (net_queue_up n l v) ty a = net_free v ty a" "net_free (net_set_peer n h v) ty a = net_free v ty a"
  "net_free (net_send n h m data v) ty a = net_free (net_autobind n h v) ty a"
  "net_free (net_dequeue n v) ty a = net_free v ty a" "net_free (net_deliver n x v) ty a = net_free v ty a"
  "net_free (net_take n k v) ty a = net_free v ty a" "net_free (net_hangup n v) ty a = net_free v ty a"
  by (simp_all add: net_free_def) (simp_all add: net_ops)

lemma net_owner_open: "n \<notin> set (nt_live v) \<Longrightarrow> net_owner (net_open n kind v) ty a = net_owner v ty a"
  unfolding net_owner_def by (simp add: net_open_def) (rule find_cong, auto)

lemma net_free_open: "n \<notin> set (nt_live v) \<Longrightarrow> net_free (net_open n kind v) ty a = net_free v ty a"
  by (simp add: net_free_def net_owner_open) (simp add: net_open_def)

lemma net_free_close: "net_free v ty a \<Longrightarrow> T \<subseteq> nt_taken v \<Longrightarrow> net_free (net_close n T v) ty a"
  by (auto simp: net_free_def net_owner_def net_close_def find_None_iff)

lemma net_owner_bind_other:
  assumes "snd (nt_kind v n) \<noteq> ty \<or> nt_name v n = None \<and> h \<noteq> a"
  shows "net_owner (net_bind n h v) ty a = net_owner v ty a"
proof -
  have "nt_name (net_bind n h v) i = Some a \<longleftrightarrow> nt_name v i = Some a" if "snd (nt_kind v i) = ty" for i
    using assms that by (auto simp: net_bind_def)
  then show ?thesis unfolding net_owner_def by (intro find_cong) (auto simp del: split_paired_Ex)
qed

lemma net_free_bind_other:
  "snd (nt_kind v n) \<noteq> ty \<or> nt_name v n = None \<and> h \<noteq> a \<Longrightarrow> net_free (net_bind n h v) ty a = net_free v ty a"
  by (simp add: net_free_def net_owner_bind_other) (auto simp: net_bind_def)

lemma find_unique:
  assumes "n \<in> set xs" "Q n" "\<forall>m \<in> set xs. Q m \<longrightarrow> m = n"
  shows "find Q xs = Some n"
proof -
  obtain m where m: "find Q xs = Some m" using assms(1,2) by (cases "find Q xs") (auto simp: find_None_iff)
  then have "m \<in> set xs" "Q m" by (auto simp: find_Some_iff)
  with assms(3) m show ?thesis by blast
qed

lemma net_owner_bind:
  assumes "net_free v (snd (nt_kind v n)) a" "n \<in> set (nt_live v)"
  shows "net_owner (net_bind n a v) (snd (nt_kind v n)) a = Some n"
  unfolding net_owner_def
  by (rule find_unique) (use assms in \<open>auto simp: net_free_def net_owner_def find_None_iff net_bind_def split: if_splits\<close>)

section \<open>The kernel\<close>

text \<open>
  A call returns an \<open>int\<close>; if it fails, \<open>errno\<close> is set and the network is as before. A host with faults may
  refuse any call and hand out the bytes of a stream in pieces. Without faults a call that is possible does
  not fail, and a read gets all that has arrived. Descriptors are blocking.
\<close>

definition call_ok :: "net \<Rightarrow> sys_result \<Rightarrow> bool \<Rightarrow> bool \<Rightarrow> bool \<Rightarrow> bool" where
  "call_ok v r possible unchanged effect \<longleftrightarrow> - (2 ^ 31) \<le> fst r \<and> fst r < 2 ^ 31 \<and>
     (if fst r < 0 then snd r \<noteq> 0 \<and> unchanged \<and> (possible \<longrightarrow> nt_faults v) else effect)"

text \<open>The limits on open descriptors (\<open>RLIMIT_NOFILE\<close>), on a datagram of IPv4 and on the pieces of a write.\<close>

definition room_for :: "nat \<Rightarrow> net \<Rightarrow> bool" where
  "room_for k v \<longleftrightarrow> card (set (nt_live v)) + k \<le> 1024"

definition datagram_ok :: "bytes \<Rightarrow> bool" where
  "datagram_ok p \<longleftrightarrow> length p \<le> 65507"

definition iovecs_ok :: "(bytes \<times> size_t) list \<Rightarrow> bool" where
  "iovecs_ok iov \<longleftrightarrow> length iov \<le> 1024"

type_synonym 'w socketpair_call = "int \<Rightarrow> int \<Rightarrow> int \<Rightarrow> 'w \<Rightarrow> (sys_result \<times> int \<times> int) \<times> 'w"

text \<open>
  \<open>listen\<close> makes a bound socket ready for clients; \<open>connect\<close> succeeds only where a socket listens at the
  address (otherwise the connection is refused), and is possible if that socket has no client waiting.
\<close>

locale loopback =
  fixes e :: byte_order and K :: "'w kernel" and N :: "'w socket_kernel" and P :: "'w socketpair_call" and V :: "'w \<Rightarrow> net"
  assumes socket: "ty \<in> {SOCK_STREAM, SOCK_DGRAM} \<Longrightarrow> sys_socket N (uint AF_INET) ty 0 w = ((r, u), w') \<Longrightarrow>
      call_ok (V w) r (room_for 1 (V w)) (V w' = V w)
      (fst r \<notin> set (nt_live (V w)) \<and> V w' = net_open (fst r) (uint AF_INET, ty) (V w))"
    and socketpair: "P (uint AF_UNIX) SOCK_STREAM 0 w = ((r, a, b), w') \<Longrightarrow> call_ok (V w) r (room_for 2 (V w)) (V w' = V w)
      (a \<noteq> b \<and> {a, b} \<inter> set (nt_live (V w)) = {} \<and> {a, b} \<subseteq> {0..<2 ^ 31} \<and>
       V w' = net_join a b (net_open a (uint AF_UNIX, SOCK_STREAM) (net_open b (uint AF_UNIX, SOCK_STREAM) (V w))))"
    and bind: "loopback_address e (sockaddr addr) \<Longrightarrow> sys_bind N n addr w = ((r, u), w') \<Longrightarrow>
      call_ok (V w) r (n \<in> set (nt_live (V w)) \<and> fst (nt_kind (V w) n) = uint AF_INET \<and> nt_phase (V w) n = Fresh \<and>
        net_free (V w) (snd (nt_kind (V w) n)) (sockaddr addr)) (V w' = V w) (V w' = net_bind n (sockaddr addr) (V w))"
    and listen: "nt_phase (V w) n = Bound \<Longrightarrow> sys_listen N n backlog w = ((r, u), w') \<Longrightarrow>
      call_ok (V w) r (n \<in> set (nt_live (V w)) \<and> nt_kind (V w) n = (uint AF_INET, SOCK_STREAM)) (V w' = V w)
      (V w' = net_listen n backlog (V w))"
    and connect_stream: "snd (nt_kind (V w) n) = SOCK_STREAM \<Longrightarrow> loopback_address e (sockaddr addr) \<Longrightarrow>
      sys_connect N n addr w = ((r, u), w') \<Longrightarrow>
      call_ok (V w) r (n \<in> set (nt_live (V w)) \<and> fst (nt_kind (V w) n) = uint AF_INET \<and> nt_phase (V w) n = Fresh \<and>
        (\<exists>h. ephemeral e h \<and> net_free (V w) SOCK_STREAM h) \<and>
        (\<exists>l b. net_owner (V w) SOCK_STREAM (sockaddr addr) = Some l \<and> nt_phase (V w) l = Listening b \<and> 0 < b \<and> nt_backlog (V w) l = []))
      (V w' = V w)
      (\<exists>l b h. net_owner (V w) SOCK_STREAM (sockaddr addr) = Some l \<and> nt_phase (V w) l = Listening b \<and>
        (nt_name (V w) n = None \<longrightarrow> net_free (V w) SOCK_STREAM h) \<and> V w' = net_queue_up n l (net_autobind n h (V w)))"
    and connect_dgram: "snd (nt_kind (V w) n) = SOCK_DGRAM \<Longrightarrow> sys_connect N n addr w = ((r, u), w') \<Longrightarrow>
      call_ok (V w) r (n \<in> set (nt_live (V w)) \<and> nt_name (V w) n \<noteq> None \<and> net_owner (V w) SOCK_DGRAM (sockaddr addr) \<noteq> None) (V w' = V w)
      (\<exists>h. (nt_name (V w) n = None \<longrightarrow> net_free (V w) SOCK_DGRAM h) \<and> V w' = net_set_peer n (sockaddr addr) (net_autobind n h (V w)))"
    and accept: "sys_accept N n w = ((r, u), w') \<Longrightarrow>
      call_ok (V w) r (n \<in> set (nt_live (V w)) \<and> (\<exists>b. nt_phase (V w) n = Listening b) \<and> nt_backlog (V w) n \<noteq> [] \<and> room_for 1 (V w)) (V w' = V w)
      (nt_backlog (V w) n \<noteq> [] \<and> fst r \<notin> set (nt_live (V w)) \<and> V w' = net_accept n (fst r) (V w))"
    and shutdown: "nt_link (V w) n = Some m \<Longrightarrow> sys_shutdown N n SHUT_RDWR w = ((r, u), w') \<Longrightarrow>
      call_ok (V w) r (n \<in> set (nt_live (V w)) \<and> (m \<in> set (nt_live (V w)) \<or> nt_inbox (V w) m = [])) (V w' = V w) (V w' = net_hangup n (V w))"
    and getsockopt: "sys_getsockopt N n SOL_SOCKET opt 4 w = ((r, value, len), w') \<Longrightarrow>
      call_ok (V w) r (n \<in> set (nt_live (V w)) \<and> opt \<in> {SO_DOMAIN, SO_TYPE}) (V w' = V w)
      (V w' = V w \<and> (opt = SO_DOMAIN \<longrightarrow> value = fst (nt_kind (V w) n) \<and> len = 4) \<and>
       (opt = SO_TYPE \<longrightarrow> value = snd (nt_kind (V w) n) \<and> len = 4))"
    and sendmsg: "snd (nt_kind (V w) n) = SOCK_DGRAM \<Longrightarrow> sys_sendmsg N n dest iov w = ((r, u), w') \<Longrightarrow>
      call_ok (V w) r (n \<in> set (nt_live (V w)) \<and> net_target n dest (V w) \<noteq> None \<and> datagram_ok (concat (map fst iov)) \<and> iovecs_ok iov \<and>
        (nt_name (V w) n = None \<longrightarrow> (\<exists>h. ephemeral e h \<and> net_free (V w) SOCK_DGRAM h))) (V w' = V w)
      (fst r = int (length (concat (map fst iov))) \<and>
       (\<exists>h. length h \<le> 128 \<and> (nt_name (V w) n = None \<longrightarrow> net_free (V w) SOCK_DGRAM h) \<and>
         (case net_target n dest (V w) of
            Some m \<Rightarrow> V w' = net_send n h m (concat (map fst iov)) (V w) \<or> V w' = net_autobind n h (V w) \<and> \<not> net_takes m h (V w)
          | None \<Rightarrow> V w' = net_autobind n h (V w))))"
    and recvfrom: "snd (nt_kind (V w) n) = SOCK_DGRAM \<Longrightarrow> sys_recvfrom N n sz MSG_TRUNC 128 w = ((r, data, from, fromlen), w') \<Longrightarrow>
      call_ok (V w) r (n \<in> set (nt_live (V w)) \<and> (\<exists>p h q. nt_queue (V w) n = (p, h) # q \<and> datagram_ok p \<and> length h \<le> 128)) (V w' = V w)
      (\<exists>p q. nt_queue (V w) n = (p, from) # q \<and> fst r = int (length p) \<and> data = take (unat sz) p \<and>
         unat fromlen = length from \<and> length from \<le> 128 \<and> V w' = net_dequeue n (V w))"
    and read_bytes: "read_contract K n"
    and read: "n \<in> set (nt_live (V w)) \<Longrightarrow> snd (nt_kind (V w) n) = SOCK_STREAM \<Longrightarrow> sys_read K n sz w = (r, data, w') \<Longrightarrow>
      call_ok (V w) r (nt_inbox (V w) n \<noteq> [] \<and> unat sz \<le> 0x7ffff000) (V w' = V w)
      (nat (fst r) \<le> length (nt_inbox (V w) n) \<and> data = take (nat (fst r)) (nt_inbox (V w) n) \<and>
       (sz \<noteq> 0 \<and> nt_inbox (V w) n \<noteq> [] \<longrightarrow> 0 < fst r) \<and>
       (\<not> nt_faults (V w) \<longrightarrow> nat (fst r) = min (unat sz) (length (nt_inbox (V w) n))) \<and> V w' = net_take n (nat (fst r)) (V w))"
    and writev: "n \<in> set (nt_live (V w)) \<Longrightarrow> snd (nt_kind (V w) n) = SOCK_STREAM \<Longrightarrow> nt_link (V w) n = Some m \<Longrightarrow>
      sys_writev K n iov w = (r, w') \<Longrightarrow>
      call_ok (V w) r (m \<in> set (nt_live (V w)) \<and> nt_link (V w) m = Some n \<and> iovecs_ok iov) (V w' = V w)
      (fst r \<le> 0x7ffff000 \<and> nat (fst r) \<le> length (concat (map fst iov)) \<and> (concat (map fst iov) \<noteq> [] \<longrightarrow> 0 < fst r) \<and>
       V w' = net_deliver m (take (nat (fst r)) (concat (map fst iov))) (V w))"
    and close: "sys_close K n w = (r, w') \<Longrightarrow> \<exists>T \<subseteq> nt_taken (V w). V w' = net_close n T (V w)"
    and close_errno: "sys_close K n w = (r, w') \<Longrightarrow> call_ok (V w) r (n \<in> set (nt_live (V w))) True True"

section \<open>Running programs\<close>

text \<open>Leaving the scope of a descriptor object, normally or by an exception.\<close>

definition scoped :: "'w kernel \<Rightarrow> FileDescriptor \<Rightarrow> ('w machine, 'a) action \<Rightarrow> ('w machine, 'a) action" where
  "scoped K d m = (\<lambda>s. case m s of
      (Inl undefined_behaviour, s') \<Rightarrow> (Inl undefined_behaviour, s')
    | (res, s') \<Rightarrow> (case FileDescriptor_destroy K d s' of (Inl e, s'') \<Rightarrow> (Inl e, s'') | (Inr _, s'') \<Rightarrow> (res, s'')))"

text \<open>
  The program owns the handles \<open>ds\<close>, each the only one of its wrapper, given with the descriptor's
  number; \<open>foreign\<close> are the open descriptors that are not its own.
\<close>

type_synonym handles = "(FileDescriptor \<times> int) list"

definition handle_ok :: "int set \<Rightarrow> 'w machine \<Rightarrow> FileDescriptor \<Rightarrow> int \<Rightarrow> bool" where
  "handle_ok live s d n \<longleftrightarrow> internal_fd d < mc_next s \<and> mc_refs s (internal_fd d) = 1 \<and>
     (\<exists>w. mc_heap s (internal_fd d) = Some w \<and> fw_fd w = n \<and> (fw_closed w \<longrightarrow> n \<notin> live))"

definition owns :: "('w \<Rightarrow> net) \<Rightarrow> handles \<Rightarrow> 'w machine \<Rightarrow> bool" where
  "owns V ds s \<longleftrightarrow> distinct (map (internal_fd \<circ> fst) ds) \<and> distinct (map snd ds) \<and>
     (\<forall>(d, n) \<in> set ds. handle_ok (set (nt_live (V (mc_kernel s)))) s d n)"

definition foreign :: "handles \<Rightarrow> net \<Rightarrow> int set" where
  "foreign ds v = set (nt_live v) - snd ` set ds"

text \<open>
  \<open>runs V ds D v m Q\<close>: started on the network \<open>v\<close>, \<open>m\<close> returns a value with \<open>Q\<close> or throws, and that
  only in a network with faults. It still owns \<open>ds\<close>, and of the foreign
  descriptors it has closed those in \<open>D\<close>, or some of them if it throws.
\<close>

definition failed :: "net \<Rightarrow> cpp_failure \<Rightarrow> bool" where
  "failed v e \<longleftrightarrow> nt_faults v \<and> e \<noteq> undefined_behaviour"

definition runs :: "('w \<Rightarrow> net) \<Rightarrow> handles \<Rightarrow> int set \<Rightarrow> net \<Rightarrow> ('w machine, 'a) action \<Rightarrow> ('a \<Rightarrow> net \<Rightarrow> bool) \<Rightarrow> bool" where
  "runs V ds D v m Q \<longleftrightarrow> (\<forall>s. owns V ds s \<and> V (mc_kernel s) = v \<longrightarrow> (case m s of (res, s') \<Rightarrow>
     let v' = V (mc_kernel s') in owns V ds s' \<and> foreign ds v - D \<subseteq> foreign ds v' \<and> foreign ds v' \<subseteq> foreign ds v \<and>
     (case res of Inl e \<Rightarrow> failed v e | Inr x \<Rightarrow> foreign ds v' = foreign ds v - D \<and> nt_faults v' = nt_faults v \<and> Q x v')))"

lemma runsI:
  assumes "\<And>s. owns V ds s \<Longrightarrow> V (mc_kernel s) = v \<Longrightarrow> \<exists>res s'. m s = (res, s') \<and> owns V ds s' \<and>
    foreign ds (V (mc_kernel s')) = foreign ds v \<and>
    (case res of Inl e \<Rightarrow> failed v e | Inr x \<Rightarrow> nt_faults (V (mc_kernel s')) = nt_faults v \<and> Q x (V (mc_kernel s')))"
  shows "runs V ds {} v m Q"
  unfolding runs_def Let_def using assms by (fastforce split: sum.split)

lemma runs_returns: "Q x v \<Longrightarrow> runs V ds {} v (returns x) Q"
  by (rule runsI) simp

lemma runs_lift: "r = Inr x \<Longrightarrow> Q x v \<Longrightarrow> runs V ds {} v (lift r) Q"
  by (rule runsI) simp

lemma runs_bind:
  assumes "runs V ds D v m Q"
    and "\<And>x v'. Q x v' \<Longrightarrow> foreign ds v' = foreign ds v - D \<Longrightarrow> nt_faults v' = nt_faults v \<Longrightarrow> runs V ds E v' (f x) R"
  shows "runs V ds (D \<union> E) v (bind m f) R"
  unfolding runs_def
proof (intro allI impI, elim conjE)
  fix s assume s: "owns V ds s" "V (mc_kernel s) = v"
  obtain res s1 where m: "m s = (res, s1)" by (metis prod.exhaust)
  note a = assms(1) [unfolded runs_def, THEN spec [of _ s], THEN mp [OF _ conjI [OF s]], unfolded m prod.case Let_def]
  show "case bind m f s of (res, s') \<Rightarrow> let v' = V (mc_kernel s') in owns V ds s' \<and>
      foreign ds v - (D \<union> E) \<subseteq> foreign ds v' \<and> foreign ds v' \<subseteq> foreign ds v \<and>
      (case res of Inl e \<Rightarrow> failed v e | Inr x \<Rightarrow> foreign ds v' = foreign ds v - (D \<union> E) \<and> nt_faults v' = nt_faults v \<and> R x v')"
  proof (cases res)
    case (Inl e)
    then show ?thesis using a m by (auto simp: bind_def)
  next
    case (Inr x)
    obtain res2 s2 where f: "f x s1 = (res2, s2)" by (metis prod.exhaust)
    have "runs V ds E (V (mc_kernel s1)) (f x) R" using assms(2) a Inr by simp
    from this [unfolded runs_def, THEN spec [of _ s1]] a Inr f m show ?thesis
      by (cases res2) (auto simp: bind_def Let_def failed_def)
  qed
qed

lemma runs_bind0:
  "runs V ds {} v m Q \<Longrightarrow> (\<And>x v'. Q x v' \<Longrightarrow> runs V ds {} v' (f x) R) \<Longrightarrow> runs V ds {} v (bind m f) R"
  using runs_bind [of V ds "{}" v m Q "{}" f R] by simp

lemma runs_mono: "runs V ds D v m Q \<Longrightarrow> (\<And>x v'. Q x v' \<Longrightarrow> R x v') \<Longrightarrow> runs V ds D v m R"
  unfolding runs_def Let_def by (fastforce split: sum.splits)

subsection \<open>The owned handles\<close>

lemma ownsD:
  assumes "owns V ds s" "(d, n) \<in> set ds"
  obtains w where "mc_heap s (internal_fd d) = Some w" "fw_fd w = n" "mc_refs s (internal_fd d) = 1"
    "fw_closed w \<Longrightarrow> n \<notin> set (nt_live (V (mc_kernel s)))"
proof -
  have "handle_ok (set (nt_live (V (mc_kernel s)))) s d n" using assms unfolding owns_def by blast
  then show thesis using that unfolding handle_ok_def by blast
qed

lemma owns_step:
  assumes "owns V ds s"
    and "\<And>d n. (d, n) \<in> set ds \<Longrightarrow> handle_ok (set (nt_live (V (mc_kernel s)))) s d n \<Longrightarrow>
      handle_ok (set (nt_live (V (mc_kernel s')))) s' d n"
  shows "owns V ds s'"
  using assms unfolding owns_def by blast

lemma owns_kernel:
  assumes "owns V ds s" "set (nt_live (V k)) \<inter> snd ` set ds \<subseteq> set (nt_live (V (mc_kernel s)))"
  shows "owns V ds (s\<lparr>mc_kernel := k\<rparr>)"
proof (rule owns_step [OF assms(1)])
  fix d n assume dn: "(d, n) \<in> set ds" "handle_ok (set (nt_live (V (mc_kernel s)))) s d n"
  then have "n \<in> snd ` set ds" by force
  with assms(2) dn(2) show "handle_ok (set (nt_live (V (mc_kernel (s\<lparr>mc_kernel := k\<rparr>))))) (s\<lparr>mc_kernel := k\<rparr>) d n"
    by (auto simp: handle_ok_def)
qed

lemma owns_unique:
  assumes "owns V ds s" "(d, n) \<in> set ds" "(e, m) \<in> set ds" "internal_fd e = internal_fd d"
  shows "e = d \<and> m = n"
proof -
  have "inj_on (internal_fd \<circ> fst) (set ds)" using assms(1) by (simp add: owns_def distinct_map)
  from inj_onD [OF this _ assms(3,2)] assms(4) show ?thesis by simp
qed

lemma owns_heap:
  assumes "owns V ds s" "(d, n) \<in> set ds" "mc_heap s (internal_fd d) = Some w" "fw_fd w' = fw_fd w" "fw_closed w' = fw_closed w"
  shows "owns V ds (s\<lparr>mc_heap := (mc_heap s)(internal_fd d \<mapsto> w')\<rparr>)"
proof (rule owns_step [OF assms(1)])
  fix e m assume em: "(e, m) \<in> set ds" "handle_ok (set (nt_live (V (mc_kernel s)))) s e m"
  show "handle_ok (set (nt_live (V (mc_kernel (s\<lparr>mc_heap := (mc_heap s)(internal_fd d \<mapsto> w')\<rparr>)))))
      (s\<lparr>mc_heap := (mc_heap s)(internal_fd d \<mapsto> w')\<rparr>) e m"
    using em(2) assms(3-5) by (cases "internal_fd e = internal_fd d") (auto simp: handle_ok_def)
qed

lemma runs_register:
  assumes "(d, n) \<in> set ds" "Q () v"
  shows "runs V ds {} v (FileDescriptor_register_read d) Q" "runs V ds {} v (FileDescriptor_register_write d) Q"
proof -
  show "runs V ds {} v (FileDescriptor_register_read d) Q"
  proof (rule runsI)
    fix s assume s: "owns V ds s" "V (mc_kernel s) = v"
    obtain w where w: "mc_heap s (internal_fd d) = Some w" by (rule ownsD [OF s(1) assms(1)])
    show "\<exists>res s'. FileDescriptor_register_read d s = (res, s') \<and> owns V ds s' \<and> foreign ds (V (mc_kernel s')) = foreign ds v \<and>
        (case res of Inl e \<Rightarrow> failed v e | Inr x \<Rightarrow> nt_faults (V (mc_kernel s')) = nt_faults v \<and> Q x (V (mc_kernel s')))"
      using owns_heap [OF s(1) assms(1) w] s(2) assms(2)
      by (simp add: FileDescriptor_register_read_def update_wrapper_live [OF w])
  qed
  show "runs V ds {} v (FileDescriptor_register_write d) Q"
  proof (rule runsI)
    fix s assume s: "owns V ds s" "V (mc_kernel s) = v"
    obtain w where w: "mc_heap s (internal_fd d) = Some w" by (rule ownsD [OF s(1) assms(1)])
    show "\<exists>res s'. FileDescriptor_register_write d s = (res, s') \<and> owns V ds s' \<and> foreign ds (V (mc_kernel s')) = foreign ds v \<and>
        (case res of Inl e \<Rightarrow> failed v e | Inr x \<Rightarrow> nt_faults (V (mc_kernel s')) = nt_faults v \<and> Q x (V (mc_kernel s')))"
      using owns_heap [OF s(1) assms(1) w] s(2) assms(2)
      by (simp add: FileDescriptor_register_write_def update_wrapper_live [OF w])
  qed
qed

lemma SystemCall_call_ok:
  assumes "call_ok v r possible A B"
  shows "SystemCall name r 0 = (if fst r < 0 then Inl (unix_error name (snd r)) else Inr (fst r))"
  using assms by (cases r) (auto simp: call_ok_def SystemCall_failed SystemCall_ok)

lemma call_ok_possible: "(\<not> nt_faults v \<Longrightarrow> possible) \<Longrightarrow> call_ok v r possible A B \<Longrightarrow> call_ok v r True A B"
  unfolding call_ok_def by (cases "nt_faults v") (simp_all split: if_splits)

lemma call_ok_effect: "call_ok v r possible A B \<Longrightarrow> (B \<Longrightarrow> B') \<Longrightarrow> call_ok v r possible A B'"
  unfolding call_ok_def by (simp split: if_splits)

text \<open>A call that keeps the set of open descriptors.\<close>

lemma runs_fd_call:
  assumes d: "(d, n) \<in> set ds"
    and call: "\<And>w r x w'. f n w = ((r, x), w') \<Longrightarrow> V w = v \<Longrightarrow>
      call_ok v r True (V w' = v) (set (nt_live (V w')) = set (nt_live v) \<and> nt_faults (V w') = nt_faults v \<and> Q (fst r, x) (V w'))"
  shows "runs V ds {} v (fd_call name d f) Q"
proof (rule runsI)
  fix s assume s: "owns V ds s" "V (mc_kernel s) = v"
  obtain w where w: "mc_heap s (internal_fd d) = Some w" "fw_fd w = n" by (rule ownsD [OF s(1) d])
  obtain r x k where fk: "f n (mc_kernel s) = ((r, x), k)" by (metis prod.exhaust)
  note ok = call [OF fk s(2)]
  have "set (nt_live (V k)) = set (nt_live v)" using ok by (auto simp: call_ok_def split: if_splits)
  then have "owns V ds (s\<lparr>mc_kernel := k\<rparr>)" "foreign ds (V k) = foreign ds v"
    using owns_kernel [OF s(1)] s(2) by (auto simp: foreign_def)
  then show "\<exists>res s'. fd_call name d f s = (res, s') \<and> owns V ds s' \<and> foreign ds (V (mc_kernel s')) = foreign ds v \<and>
      (case res of Inl e \<Rightarrow> failed v e | Inr x \<Rightarrow> nt_faults (V (mc_kernel s')) = nt_faults v \<and> Q x (V (mc_kernel s')))"
    using fd_call_live [OF w(1), of f r x k name] w(2) fk ok
    by (auto simp: SystemCall_call_ok [OF ok] call_ok_def failed_def split: if_splits)
qed

subsection \<open>Acquiring and releasing\<close>

lemma foreign_Cons: "foreign ((d, n) # ds) v = foreign ds v - {n}"
  by (auto simp: foreign_def)

lemma owns_Cons:
  "owns V ((d, n) # ds) s \<longleftrightarrow> owns V ds s \<and> n \<notin> snd ` set ds \<and> internal_fd d \<notin> (internal_fd \<circ> fst) ` set ds \<and>
     handle_ok (set (nt_live (V (mc_kernel s)))) s d n"
  by (auto simp: owns_def)

lemma FileDescriptor_new_owns:
  assumes "owns V ds s" "0 \<le> n" "n \<notin> snd ` set ds"
  shows "\<exists>d s'. FileDescriptor_new n s = (Inr d, s') \<and> owns V ((d, n) # ds) s' \<and> mc_kernel s' = mc_kernel s"
proof -
  let ?d = "FileDescriptor (mc_next s)"
  let ?w = "\<lparr>fw_fd = n, fw_eof = False, fw_closed = False, fw_read_count = 0, fw_write_count = 0\<rparr>"
  define s' where "s' = s\<lparr>mc_heap := (mc_heap s)(mc_next s \<mapsto> ?w), mc_refs := (mc_refs s)(mc_next s := 1), mc_next := mc_next s + 1\<rparr>"
  have new: "FileDescriptor_new n s = (Inr ?d, s')"
    using assms(2) by (simp add: FileDescriptor_new_def FDWrapper_new_def bind_def s'_def)
  have old: "internal_fd e < mc_next s" if "(e, m) \<in> set ds" for e m
    using assms(1) that unfolding owns_def handle_ok_def by blast
  have "owns V ds s'"
  proof (rule owns_step [OF assms(1)])
    fix e m assume "(e, m) \<in> set ds" "handle_ok (set (nt_live (V (mc_kernel s)))) s e m"
    then show "handle_ok (set (nt_live (V (mc_kernel s')))) s' e m"
      using old [of e m] by (auto simp: handle_ok_def s'_def)
  qed
  moreover have "mc_next s \<notin> (internal_fd \<circ> fst) ` set ds" using old by fastforce
  ultimately have "owns V ((?d, n) # ds) s'" using assms(3) by (simp add: owns_Cons handle_ok_def s'_def)
  then show ?thesis using new by (auto simp: s'_def)
qed

text \<open>A constructor that adds a handle, of a new descriptor or of one in \<open>D\<close>.\<close>

definition constructs ::
  "('w \<Rightarrow> net) \<Rightarrow> handles \<Rightarrow> int set \<Rightarrow> net \<Rightarrow> ('w machine, FileDescriptor) action \<Rightarrow>
   (FileDescriptor \<Rightarrow> int \<Rightarrow> net \<Rightarrow> bool) \<Rightarrow> bool" where
  "constructs V ds D v c Q \<longleftrightarrow> (\<forall>s. owns V ds s \<and> V (mc_kernel s) = v \<longrightarrow> (case c s of
      (Inl e, s') \<Rightarrow> failed v e \<and> owns V ds s' \<and>
        foreign ds v - D \<subseteq> foreign ds (V (mc_kernel s')) \<and> foreign ds (V (mc_kernel s')) \<subseteq> foreign ds v
    | (Inr d, s') \<Rightarrow> \<exists>n. owns V ((d, n) # ds) s' \<and>
        foreign ((d, n) # ds) (V (mc_kernel s')) = foreign ds v - D \<and> nt_faults (V (mc_kernel s')) = nt_faults v \<and> Q d n (V (mc_kernel s'))))"

context loopback
begin

lemma destroy_owns:
  assumes "owns V ((d, n) # ds) s"
  shows "\<exists>s'. FileDescriptor_destroy K d s = (Inr (), s') \<and> owns V ds s' \<and>
    set (nt_live (V (mc_kernel s'))) = set (nt_live (V (mc_kernel s))) - {n} \<and>
    (V (mc_kernel s') = V (mc_kernel s) \<or> (\<exists>T \<subseteq> nt_taken (V (mc_kernel s)). V (mc_kernel s') = net_close n T (V (mc_kernel s))))"
proof -
  have ds: "owns V ds s" "internal_fd d \<notin> (internal_fd \<circ> fst) ` set ds" using assms by (simp_all add: owns_Cons)
  obtain w where w: "mc_heap s (internal_fd d) = Some w" "fw_fd w = n" "mc_refs s (internal_fd d) = 1"
    "fw_closed w \<Longrightarrow> n \<notin> set (nt_live (V (mc_kernel s)))"
    by (rule ownsD [OF assms, of d n]) auto
  obtain r k where call: "sys_close K n (mc_kernel s) = (r, k)" by (metis prod.exhaust)
  obtain T where T: "T \<subseteq> nt_taken (V (mc_kernel s))" and Vk: "V k = net_close n T (V (mc_kernel s))" using close [OF call] by blast
  have "\<exists>s'. FileDescriptor_destroy K d s = (Inr (), s') \<and> mc_heap s' = (mc_heap s)(internal_fd d := None) \<and>
      mc_refs s' = (mc_refs s)(internal_fd d := 0) \<and> mc_next s' = mc_next s \<and>
      mc_kernel s' = (if fw_closed w then mc_kernel s else k)"
    using w(1-3) call SystemCall_no_ub [of "''close''" r 0]
    by (cases "SystemCall ''close'' r 0"; cases "fw_closed w")
      (simp_all add: FileDescriptor_destroy_def FDWrapper_destroy_def FDWrapper_close_def catch_exception_def bind_def
        wrapper_at_def kernel_call_def update_wrapper_def Let_def)
  then obtain s' where s': "FileDescriptor_destroy K d s = (Inr (), s')" "mc_heap s' = (mc_heap s)(internal_fd d := None)"
      "mc_refs s' = (mc_refs s)(internal_fd d := 0)" "mc_next s' = mc_next s"
      "mc_kernel s' = (if fw_closed w then mc_kernel s else k)" by blast
  have live: "set (nt_live (V (mc_kernel s'))) = set (nt_live (V (mc_kernel s))) - {n}"
    using s'(5) w(4) by (auto simp: Vk net_close_def)
  have "owns V ds s'"
  proof (rule owns_step [OF ds(1)])
    fix e m assume e: "(e, m) \<in> set ds" "handle_ok (set (nt_live (V (mc_kernel s)))) s e m"
    then have "internal_fd e \<noteq> internal_fd d" using ds(2) by force
    then show "handle_ok (set (nt_live (V (mc_kernel s')))) s' e m"
      using e(2) unfolding live by (auto simp: handle_ok_def s'(2-4))
  qed
  moreover have "V (mc_kernel s') = V (mc_kernel s) \<or> V (mc_kernel s') = net_close n T (V (mc_kernel s))"
    using s'(5) by (simp add: Vk)
  ultimately show ?thesis using s'(1) live T by blast
qed

lemma runs_scoped:
  assumes c: "constructs V ds D v c Q"
    and m: "\<And>d n v'. Q d n v' \<Longrightarrow> runs V ((d, n) # ds) E v' (m d) R"
    and R: "\<And>x n T v'. R x v' \<Longrightarrow> T \<subseteq> nt_taken v' \<Longrightarrow> R x (net_close n T v')"
  shows "runs V ds (D \<union> E) v (bind c (\<lambda>d. scoped K d (m d))) R"
  unfolding runs_def
proof (intro allI impI, elim conjE)
  fix s assume s: "owns V ds s" "V (mc_kernel s) = v"
  obtain res s1 where cs: "c s = (res, s1)" by (metis prod.exhaust)
  note c = c [unfolded constructs_def, THEN spec [of _ s], THEN mp [OF _ conjI [OF s]], unfolded cs prod.case]
  show "case bind c (\<lambda>d. scoped K d (m d)) s of (res, s') \<Rightarrow> let v' = V (mc_kernel s') in owns V ds s' \<and>
      foreign ds v - (D \<union> E) \<subseteq> foreign ds v' \<and> foreign ds v' \<subseteq> foreign ds v \<and>
      (case res of Inl e \<Rightarrow> failed v e | Inr x \<Rightarrow> foreign ds v' = foreign ds v - (D \<union> E) \<and> nt_faults v' = nt_faults v \<and> R x v')"
  proof (cases res)
    case (Inl e)
    then show ?thesis using c cs by (auto simp: bind_def Let_def)
  next
    case (Inr d)
    then obtain n where n: "owns V ((d, n) # ds) s1" "foreign ((d, n) # ds) (V (mc_kernel s1)) = foreign ds v - D"
      "Q d n (V (mc_kernel s1))" "nt_faults (V (mc_kernel s1)) = nt_faults v" using c by auto
    obtain res2 s2 where m2: "m d s1 = (res2, s2)" by (metis prod.exhaust)
    have "runs V ((d, n) # ds) E (V (mc_kernel s1)) (m d) R" using m n(3) by blast
    note m' = this [unfolded runs_def, THEN spec [of _ s1], THEN mp, OF conjI [OF n(1) refl], unfolded m2 prod.case Let_def]
    obtain s3 where s3: "FileDescriptor_destroy K d s2 = (Inr (), s3)" "owns V ds s3"
      "set (nt_live (V (mc_kernel s3))) = set (nt_live (V (mc_kernel s2))) - {n}"
      "V (mc_kernel s3) = V (mc_kernel s2) \<or> (\<exists>T \<subseteq> nt_taken (V (mc_kernel s2)). V (mc_kernel s3) = net_close n T (V (mc_kernel s2)))"
      using destroy_owns m' by blast
    have f: "foreign ds (V (mc_kernel s3)) = foreign ((d, n) # ds) (V (mc_kernel s2))"
      using s3(3) by (auto simp: foreign_def)
    have "scoped K d (m d) s1 = (res2, s3)"
      using m2 s3(1) m' by (cases res2) (auto simp: scoped_def failed_def split: cpp_failure.splits)
    moreover have "nt_faults (V (mc_kernel s3)) = nt_faults (V (mc_kernel s2))" using s3(4) by auto
    moreover have "R x (V (mc_kernel s3))" if "R x (V (mc_kernel s2))" for x using s3(4) R that by metis
    ultimately show ?thesis
      using m' n(2,4) cs Inr s3(2) f by (cases res2) (auto simp: bind_def Let_def failed_def)
  qed
qed

lemma constructs_socket:
  assumes "snd ` set ds \<subseteq> set (nt_live v)" "room_for 1 v" "ty \<in> {SOCK_STREAM, SOCK_DGRAM}"
  defines "domain \<equiv> uint AF_INET"
  shows "constructs V ds {} v (Socket_new N domain ty)
    (\<lambda>d n v'. n \<notin> set (nt_live v) \<and> n \<notin> snd ` set ds \<and> v' = net_open n (domain, ty) v)"
  unfolding constructs_def
proof (intro allI impI, elim conjE)
  fix s assume s: "owns V ds s" "V (mc_kernel s) = v"
  obtain r u k where call: "sys_socket N domain ty 0 (mc_kernel s) = ((r, u), k)" by (metis prod.exhaust)
  note ok = socket [OF assms(3) call [unfolded domain_def], unfolded s(2), folded domain_def]
  note new = Socket_new_def bind_def kernel_call_def call SystemCall_call_ok [OF ok]
  show "case Socket_new N domain ty s of
      (Inl e, s') \<Rightarrow> failed v e \<and> owns V ds s' \<and>
        foreign ds v - {} \<subseteq> foreign ds (V (mc_kernel s')) \<and> foreign ds (V (mc_kernel s')) \<subseteq> foreign ds v
    | (Inr d, s') \<Rightarrow> \<exists>n. owns V ((d, n) # ds) s' \<and> foreign ((d, n) # ds) (V (mc_kernel s')) = foreign ds v - {} \<and>
        nt_faults (V (mc_kernel s')) = nt_faults v \<and> n \<notin> set (nt_live v) \<and> n \<notin> snd ` set ds \<and> V (mc_kernel s') = net_open n (domain, ty) v"
  proof (cases "fst r < 0")
    case True
    then have "V k = v" "nt_faults v" using ok assms(2) by (simp_all add: call_ok_def)
    then show ?thesis using True owns_kernel [OF s(1), of k] s(2) by (simp add: new failed_def)
  next
    case False
    then have r: "fst r \<notin> set (nt_live v)" "V k = net_open (fst r) (domain, ty) v" using ok by (auto simp: call_ok_def)
    then have fresh: "fst r \<notin> snd ` set ds" using assms(1) by blast
    have "owns V ds (s\<lparr>mc_kernel := k\<rparr>)"
      using owns_kernel [OF s(1), of k] s(2) fresh by (auto simp: r(2) net_open_def)
    from FileDescriptor_new_owns [OF this _ fresh] False obtain d s' where
      "FileDescriptor_new (fst r) (s\<lparr>mc_kernel := k\<rparr>) = (Inr d, s')" "owns V ((d, fst r) # ds) s'" "mc_kernel s' = k" by auto
    then show ?thesis
      using False r fresh by (auto simp: new foreign_def net_open_def)
  qed
qed

end

context loopback
begin

lemma runs_verify_option:
  assumes "(d, n) \<in> set ds" "n \<in> set (nt_live v)" "opt = SO_DOMAIN \<and> expected = fst (nt_kind v n) \<or> opt = SO_TYPE \<and> expected = snd (nt_kind v n)"
  shows "runs V ds {} v (verify_option N d opt expected message) (\<lambda>_ v'. v' = v)"
  unfolding verify_option_def
proof (rule runs_bind0)
  show "runs V ds {} v (fd_call ''getsockopt'' d (\<lambda>n. sys_getsockopt N n SOL_SOCKET opt 4)) (\<lambda>(_, actual, len) v'. v' = v \<and> actual = expected \<and> len = 4)"
  proof (rule runs_fd_call [OF assms(1)])
    fix w r x w' assume "sys_getsockopt N n SOL_SOCKET opt 4 w = ((r, x), w')" "V w = v"
    then show "call_ok v r True (V w' = v) (set (nt_live (V w')) = set (nt_live v) \<and> nt_faults (V w') = nt_faults v \<and>
        (case (fst r, x) of (_, actual, len) \<Rightarrow> \<lambda>v'. v' = v \<and> actual = expected \<and> len = 4) (V w'))"
      using getsockopt [of n opt w r "fst x" "snd x" w'] assms(2,3) by (auto simp: call_ok_def split: if_splits)
  qed
next
  fix x v' assume "(case x of (_, actual, len) \<Rightarrow> \<lambda>v'. v' = v \<and> actual = expected \<and> len = 4) v'"
  then show "runs V ds {} v' (case x of (_, actual_value, len) \<Rightarrow>
      if len \<noteq> 4 \<or> actual_value \<noteq> expected then throws (runtime_error message) else returns ()) (\<lambda>_ v'. v' = v)"
    by (auto intro: runs_returns)
qed

lemma Socket_of_fd_owns:
  assumes s: "owns V ((d, n) # ds) s" "V (mc_kernel s) = v" and kind: "nt_kind v n = (domain, ty)" "n \<in> set (nt_live v)"
  shows "case Socket_of_fd K N d domain ty s of
      (Inl e, s') \<Rightarrow> failed v e \<and> owns V ds s' \<and> foreign ds (V (mc_kernel s')) = foreign ds v - {n}
    | (Inr d', s') \<Rightarrow> d' = d \<and> owns V ((d, n) # ds) s' \<and> V (mc_kernel s') = v"
proof -
  let ?m = "bind (verify_option N d SO_DOMAIN domain ''socket domain mismatch'') (\<lambda>_.
        bind (verify_option N d SO_TYPE ty ''socket type mismatch'') (\<lambda>_. returns d))"
  have dn: "(d, n) \<in> set ((d, n) # ds)" by simp
  have "runs V ((d, n) # ds) {} v ?m (\<lambda>x v'. x = d \<and> v' = v)"
    using kind by (intro runs_bind0 [OF runs_verify_option [OF dn]] runs_returns) auto
  note r = this [unfolded runs_def, THEN spec [of _ s], THEN mp [OF _ conjI [OF s]]]
  obtain res s1 where m: "?m s = (res, s1)" by (metis prod.exhaust)
  note r = r [unfolded m prod.case Let_def]
  show ?thesis
  proof (cases res)
    case (Inl e)
    obtain s2 where s2: "FileDescriptor_destroy K d s1 = (Inr (), s2)" "owns V ds s2"
      "set (nt_live (V (mc_kernel s2))) = set (nt_live (V (mc_kernel s1))) - {n}" using destroy_owns r by blast
    have "e \<noteq> undefined_behaviour" using r Inl by (auto simp: failed_def)
    then have run: "Socket_of_fd K N d domain ty s = (Inl e, s2)"
      using m Inl s2(1) by (simp add: Socket_of_fd_def or_destroy_def catch_exception_def bind_Inr)
    show ?thesis unfolding run prod.case using s2 r Inl
      by (auto simp: foreign_def)
  next
    case (Inr x)
    then show ?thesis using m r by (simp add: Socket_of_fd_def or_destroy_def catch_exception_def)
  qed
qed

end

context loopback
begin

lemma constructs_of_fd:
  assumes "0 \<le> n" "n \<notin> snd ` set ds" "nt_kind v n = (domain, ty)" "n \<in> set (nt_live v)"
  shows "constructs V ds {n} v (bind (FileDescriptor_new n) (\<lambda>d. Socket_of_fd K N d domain ty)) (\<lambda>d n' v'. n' = n \<and> v' = v)"
  unfolding constructs_def
proof (intro allI impI, elim conjE)
  fix s assume s: "owns V ds s" "V (mc_kernel s) = v"
  obtain d s1 where new: "FileDescriptor_new n s = (Inr d, s1)" "owns V ((d, n) # ds) s1" "mc_kernel s1 = mc_kernel s"
    using FileDescriptor_new_owns [OF s(1) assms(1,2)] by blast
  obtain res s2 where of: "Socket_of_fd K N d domain ty s1 = (res, s2)" by (metis prod.exhaust)
  note c = Socket_of_fd_owns [OF new(2) _ assms(3,4), unfolded of new(3) prod.case, OF s(2)]
  show "case bind (FileDescriptor_new n) (\<lambda>d. Socket_of_fd K N d domain ty) s of
      (Inl e, s') \<Rightarrow> failed v e \<and> owns V ds s' \<and>
        foreign ds v - {n} \<subseteq> foreign ds (V (mc_kernel s')) \<and> foreign ds (V (mc_kernel s')) \<subseteq> foreign ds v
    | (Inr d, s') \<Rightarrow> \<exists>n'. owns V ((d, n') # ds) s' \<and> foreign ((d, n') # ds) (V (mc_kernel s')) = foreign ds v - {n} \<and>
        nt_faults (V (mc_kernel s')) = nt_faults v \<and> n' = n \<and> V (mc_kernel s') = v"
    using c new(1) of by (cases res) (auto simp: bind_def foreign_Cons)
qed

lemma constructs_accept:
  assumes d: "(d, n) \<in> set ds" and live: "snd ` set ds \<subseteq> set (nt_live v)" and kind: "nt_kind v n = (uint AF_INET, SOCK_STREAM)"
    and possible: "nt_backlog v n \<noteq> []" "room_for 1 v" "nt_phase v n = Listening b"
  shows "constructs V ds {} v (TCPSocket_accept K N d)
    (\<lambda>_ n' v'. n' \<notin> set (nt_live v) \<and> n' \<notin> snd ` set ds \<and> v' = net_accept n n' v)"
  unfolding constructs_def
proof (intro allI impI, elim conjE)
  fix s assume s: "owns V ds s" "V (mc_kernel s) = v"
  obtain s1 where reg: "FileDescriptor_register_read d s = (Inr (), s1)" "owns V ds s1" "mc_kernel s1 = mc_kernel s"
  proof -
    obtain w where w: "mc_heap s (internal_fd d) = Some w" by (rule ownsD [OF s(1) d])
    show thesis
      using that owns_heap [OF s(1) d w] by (simp add: FileDescriptor_register_read_def update_wrapper_live [OF w])
  qed
  obtain w where w: "mc_heap s1 (internal_fd d) = Some w" "fw_fd w = n" by (rule ownsD [OF reg(2) d])
  obtain r u k where call: "sys_accept N n (mc_kernel s) = ((r, u), k)" by (metis prod.exhaust)
  note ok = accept [OF call, unfolded s(2)]
  note run = TCPSocket_accept_def TCPSocket_of_fd_def bind_def reg(1) fd_call_live [OF w(1)] w(2) reg(3) call SystemCall_call_ok [OF ok]
  show "case TCPSocket_accept K N d s of
      (Inl e, s') \<Rightarrow> failed v e \<and> owns V ds s' \<and>
        foreign ds v - {} \<subseteq> foreign ds (V (mc_kernel s')) \<and> foreign ds (V (mc_kernel s')) \<subseteq> foreign ds v
    | (Inr d', s') \<Rightarrow> \<exists>n'. owns V ((d', n') # ds) s' \<and> foreign ((d', n') # ds) (V (mc_kernel s')) = foreign ds v - {} \<and>
        nt_faults (V (mc_kernel s')) = nt_faults v \<and> n' \<notin> set (nt_live v) \<and> n' \<notin> snd ` set ds \<and> V (mc_kernel s') = net_accept n n' v"
  proof (cases "fst r < 0")
    case True
    moreover have "n \<in> set (nt_live v)" using d live by force
    ultimately have "V k = v" "nt_faults v" using ok possible by (simp_all add: call_ok_def)
    then show ?thesis using True owns_kernel [OF reg(2), of k] reg(3) s(2) by (simp add: run failed_def)
  next
    case False
    then have r: "nt_backlog v n \<noteq> []" "fst r \<notin> set (nt_live v)" "V k = net_accept n (fst r) v" using ok by (auto simp: call_ok_def)
    then have fresh: "fst r \<notin> snd ` set ds" using live by blast
    have Vk: "set (nt_live (V k)) = insert (fst r) (set (nt_live v))" "nt_kind (V k) (fst r) = (uint AF_INET, SOCK_STREAM)"
      "fst r \<in> set (nt_live (V k))"
      using r(1) kind by (auto simp: r(3) net_accept_def split: list.split)
    have "owns V ds (s1\<lparr>mc_kernel := k\<rparr>)"
      using owns_kernel [OF reg(2), of k] reg(3) s(2) fresh Vk(1) by auto
    from FileDescriptor_new_owns [OF this _ fresh] False obtain d' s2 where
      new: "FileDescriptor_new (fst r) (s1\<lparr>mc_kernel := k\<rparr>) = (Inr d', s2)" "owns V ((d', fst r) # ds) s2" "mc_kernel s2 = k" by auto
    obtain res s3 where of: "Socket_of_fd K N d' (uint AF_INET) SOCK_STREAM s2 = (res, s3)" by (metis prod.exhaust)
    note c = Socket_of_fd_owns [OF new(2) _ Vk(2,3), unfolded of new(3) prod.case, OF refl]
    have "foreign ds (V k) - {fst r} = foreign ds v" using fresh r(2) Vk(1) by (auto simp: foreign_def)
    then show ?thesis
      using False c new(1) of r fresh by (cases res) (auto simp: run foreign_Cons failed_def)
  qed
qed

end

subsection \<open>The operations\<close>

abbreviation Address_bytes :: "Address \<Rightarrow> bytes" where
  "Address_bytes a \<equiv> sockaddr (ad_storage a, ad_size a)"

lemma runs_seq: "runs V ds {} v m (\<lambda>x v'. runs V ds {} v' (f x) R) \<Longrightarrow> runs V ds {} v (bind m f) R"
  by (rule runs_bind0)

lemma runs_fd_num:
  assumes "(d, n) \<in> set ds" "Q n v"
  shows "runs V ds {} v (FileDescriptor_fd_num d) Q"
proof (rule runsI)
  fix s assume s: "owns V ds s" "V (mc_kernel s) = v"
  obtain w where "mc_heap s (internal_fd d) = Some w" "fw_fd w = n" by (rule ownsD [OF s(1) assms(1)])
  then show "\<exists>res s'. FileDescriptor_fd_num d s = (res, s') \<and> owns V ds s' \<and> foreign ds (V (mc_kernel s')) = foreign ds v \<and>
      (case res of Inl e \<Rightarrow> failed v e | Inr x \<Rightarrow> nt_faults (V (mc_kernel s')) = nt_faults v \<and> Q x (V (mc_kernel s')))"
    using s assms(2) by (simp add: fd_num_live)
qed

lemma runs_ignore: "runs V ds {} v m (\<lambda>_ v'. Q () v') \<Longrightarrow> runs V ds {} v (bind m (\<lambda>_. returns ())) Q"
  by (erule runs_bind0) (rule runs_returns)

text \<open>A datagram to a socket that takes it.\<close>

definition can_send :: "byte_order \<Rightarrow> int \<Rightarrow> (bytes \<times> u32) option \<Rightarrow> int \<Rightarrow> BufferViewList \<Rightarrow> net \<Rightarrow> bool" where
  "can_send e n dest m payload v \<longleftrightarrow> n \<in> set (nt_live v) \<and> snd (nt_kind v n) = SOCK_DGRAM \<and> net_target n dest v = Some m \<and>
     datagram_ok (concat (bv_views payload)) \<and> length (bv_views payload) \<le> 1024 \<and>
     (nt_name v n = None \<longrightarrow> (\<exists>h. ephemeral e h \<and> net_free v SOCK_DGRAM h)) \<and> nt_queue v m = [] \<and> nt_peer v m = None"

context loopback
begin

lemma runs_simple_calls:
  assumes "(d, n) \<in> set ds"
  shows runs_bind_address: "n \<in> set (nt_live v) \<Longrightarrow> fst (nt_kind v n) = uint AF_INET \<Longrightarrow> nt_phase v n = Fresh \<Longrightarrow>
      loopback_address e (Address_bytes a) \<Longrightarrow> net_free v (snd (nt_kind v n)) (Address_bytes a) \<Longrightarrow>
      Q () (net_bind n (Address_bytes a) v) \<Longrightarrow> runs V ds {} v (Socket_bind N d a) Q"
    and runs_listen: "n \<in> set (nt_live v) \<Longrightarrow> nt_kind v n = (uint AF_INET, SOCK_STREAM) \<Longrightarrow> nt_phase v n = Bound \<Longrightarrow>
      Q () (net_listen n backlog v) \<Longrightarrow> runs V ds {} v (TCPSocket_listen N d backlog) Q"
    and runs_connect_stream: "n \<in> set (nt_live v) \<Longrightarrow> nt_kind v n = (uint AF_INET, SOCK_STREAM) \<Longrightarrow> nt_phase v n = Fresh \<Longrightarrow>
      loopback_address e (Address_bytes a) \<Longrightarrow> \<exists>h. ephemeral e h \<and> net_free v SOCK_STREAM h \<Longrightarrow>
      net_owner v SOCK_STREAM (Address_bytes a) = Some l \<Longrightarrow> nt_phase v l = Listening b \<Longrightarrow> 0 < b \<Longrightarrow> nt_backlog v l = [] \<Longrightarrow>
      (\<And>h. (nt_name v n = None \<longrightarrow> net_free v SOCK_STREAM h) \<Longrightarrow> Q () (net_queue_up n l (net_autobind n h v))) \<Longrightarrow>
      runs V ds {} v (Socket_connect N d a) Q"
    and runs_connect_dgram: "n \<in> set (nt_live v) \<Longrightarrow> snd (nt_kind v n) = SOCK_DGRAM \<Longrightarrow> nt_name v n \<noteq> None \<Longrightarrow>
      net_owner v SOCK_DGRAM (Address_bytes a) \<noteq> None \<Longrightarrow> Q () (net_set_peer n (Address_bytes a) v) \<Longrightarrow>
      runs V ds {} v (Socket_connect N d a) Q"
  unfolding Socket_bind_def Socket_connect_def TCPSocket_listen_def
proof (goal_cases)
  case case1: 1
  show ?case
  proof (rule runs_ignore, rule runs_fd_call [OF assms], goal_cases)
    case (1 w r x w')
    have "call_ok v r True (V w' = v) (V w' = net_bind n (Address_bytes a) v)"
      using bind [of "(ad_storage a, ad_size a)" n w r x w'] 1 case1 by (auto simp: call_ok_def split: if_splits)
    then show ?case by (rule call_ok_effect) (use case1 in auto)
  qed
next
  case 2
  show ?case
  proof (rule runs_ignore, rule runs_fd_call [OF assms], goal_cases)
    case (1 w r x w')
    have "call_ok v r True (V w' = v) (V w' = net_listen n backlog v)"
      using listen [of w n backlog r x w'] 1 2 by (auto simp: call_ok_def split: if_splits)
    then show ?case by (rule call_ok_effect) (use 2 in auto)
  qed
next
  case 3
  show ?case
  proof (rule runs_ignore, rule runs_fd_call [OF assms], goal_cases)
    case (1 w r x w')
    have "call_ok v r True (V w' = v)
        (\<exists>h. (nt_name v n = None \<longrightarrow> net_free v SOCK_STREAM h) \<and> V w' = net_queue_up n l (net_autobind n h v))"
      using connect_stream [of w n "(ad_storage a, ad_size a)" r x w'] 1 3 by (auto simp: call_ok_def split: if_splits)
    then show ?case by (rule call_ok_effect) (use 3 in auto)
  qed
next
  case 4
  show ?case
  proof (rule runs_ignore, rule runs_fd_call [OF assms], goal_cases)
    case (1 w r x w')
    have "call_ok v r True (V w' = v) (V w' = net_set_peer n (Address_bytes a) v)"
      using connect_dgram [of w n "(ad_storage a, ad_size a)" r x w'] 1 4 by (auto simp: call_ok_def net_autobind_def split: if_splits)
    then show ?case by (rule call_ok_effect) (use 4 in auto)
  qed
qed

lemma runs_shutdown:
  assumes "(d, n) \<in> set ds" "nt_link v n = Some m" "n \<in> set (nt_live v)"
    and possible: "\<not> nt_faults v \<Longrightarrow> m \<in> set (nt_live v) \<or> nt_inbox v m = []" and Q: "Q () (net_hangup n v)"
  shows "runs V ds {} v (Socket_shutdown N d SHUT_RDWR) Q"
proof -
  have call: "runs V ds {} v (fd_call ''shutdown'' d (\<lambda>n. sys_shutdown N n SHUT_RDWR)) (\<lambda>_ v'. v' = net_hangup n v)"
  proof (rule runs_fd_call [OF assms(1)])
    fix w r x w' assume "sys_shutdown N n SHUT_RDWR w = ((r, x), w')" "V w = v"
    then have "call_ok v r True (V w' = v) (V w' = net_hangup n v)"
      using shutdown [of w n m r x w'] assms(2,3) by (auto intro!: call_ok_possible [OF conjI [OF assms(3) possible]])
    then show "call_ok v r True (V w' = v) (set (nt_live (V w')) = set (nt_live v) \<and> nt_faults (V w') = nt_faults v \<and> V w' = net_hangup n v)"
      by (rule call_ok_effect) simp
  qed
  have "runs V ds {} (net_hangup n v) (bind (FileDescriptor_register_read d) (\<lambda>_. FileDescriptor_register_write d)) Q"
    by (rule runs_bind0 [OF runs_register(1) [OF assms(1), where Q = "\<lambda>_ v'. v' = net_hangup n v"]])
       (auto intro: runs_register(2) [OF assms(1)] Q)
  then show ?thesis
    unfolding Socket_shutdown_def by (intro runs_bind0 [OF call]) (auto simp: SHUT_RD_def SHUT_WR_def SHUT_RDWR_def)
qed

lemma runs_sendmsg:
  assumes can: "can_send e n dest m payload v"
    and Q: "\<And>h. length h \<le> 128 \<Longrightarrow> (nt_name v n = None \<longrightarrow> net_free v SOCK_DGRAM h) \<Longrightarrow> Q () (net_send n h m (concat (bv_views payload)) v)"
  shows "runs V ds {} v (sendmsg_helper N n dest payload) Q"
proof (rule runsI)
  fix s assume s: "owns V ds s" "V (mc_kernel s) = v"
  let ?data = "concat (bv_views payload)"
  obtain r u k where call: "sys_sendmsg N n dest (BufferViewList_as_iovecs payload) (mc_kernel s) = ((r, u), k)" by (metis prod.exhaust)
  have "call_ok v r True (V k = v) (fst r = int (length ?data) \<and>
      (\<exists>h. length h \<le> 128 \<and> (nt_name v n = None \<longrightarrow> net_free v SOCK_DGRAM h) \<and> V k = net_send n h m ?data v))"
    using sendmsg [OF _ call, unfolded s(2) iovecs_data] can
    by (auto simp: can_send_def net_takes_def iovecs_ok_def length_as_iovecs call_ok_def simp del: length_concat split: if_splits)
  then have ok: "call_ok v r True (V k = v) (fst r = int (length ?data) \<and> (\<exists>h. V k = net_send n h m ?data v) \<and> Q () (V k))"
    by (rule call_ok_effect) (use Q in auto)
  have owns: "owns V ds (s\<lparr>mc_kernel := k\<rparr>)" "foreign ds (V k) = foreign ds v"
    using owns_kernel [OF s(1), of k] s(2) ok by (auto simp: call_ok_def foreign_def split: if_splits)
  have "(of_int (int (length ?data)) :: size_t) = BufferViewList_size payload"
    by (simp add: BufferViewList_size_eq size_of_def)
  then show "\<exists>res s'. sendmsg_helper N n dest payload s = (res, s') \<and> owns V ds s' \<and> foreign ds (V (mc_kernel s')) = foreign ds v \<and>
      (case res of Inl e \<Rightarrow> failed v e | Inr x \<Rightarrow> nt_faults (V (mc_kernel s')) = nt_faults v \<and> Q x (V (mc_kernel s')))"
    using ok owns
    by (auto simp: sendmsg_helper_def bind_def kernel_call_def call SystemCall_call_ok [OF ok] call_ok_def failed_def simp del: length_concat split: if_splits)
qed

lemma runs_sendto:
  assumes "(d, n) \<in> set ds" "can_send e n (Some (ad_storage a, ad_size a)) m payload v"
    and "\<And>h. length h \<le> 128 \<Longrightarrow> (nt_name v n = None \<longrightarrow> net_free v SOCK_DGRAM h) \<Longrightarrow>
      Q () (net_send n h m (concat (bv_views payload)) v)"
  shows "runs V ds {} v (UDPSocket_sendto N d a payload) Q"
  unfolding UDPSocket_sendto_def Address_size_def
  by (intro runs_seq runs_fd_num [OF assms(1)] runs_sendmsg [OF assms(2)] runs_register(2) [OF assms(1)] assms(3))

lemma runs_send:
  assumes "(d, n) \<in> set ds" "can_send e n None m payload v"
    and "\<And>h. length h \<le> 128 \<Longrightarrow> (nt_name v n = None \<longrightarrow> net_free v SOCK_DGRAM h) \<Longrightarrow>
      Q () (net_send n h m (concat (bv_views payload)) v)"
  shows "runs V ds {} v (UDPSocket_send N d payload) Q"
  unfolding UDPSocket_send_def
  by (intro runs_seq runs_fd_num [OF assms(1)] runs_sendmsg [OF assms(2)] runs_register(2) [OF assms(1)] assms(3))

end

context loopback
begin

lemma runs_recv:
  assumes d: "(d, n) \<in> set ds" and n: "n \<in> set (nt_live v)" "snd (nt_kind v n) = SOCK_DGRAM"
    and queue: "nt_queue v n = (p, src) # q" "length p \<le> unat mtu" "unat mtu < 2 ^ 63" "datagram_ok p" "length src \<le> 128"
    and Q: "\<And>g. dg_payload g = p \<Longrightarrow> Address_bytes (dg_source_address g) = src \<Longrightarrow> Q g (net_dequeue n v)"
  shows "runs V ds {} v (UDPSocket_recv N d mtu) Q"
proof (rule runsI)
  fix s assume s: "owns V ds s" "V (mc_kernel s) = v"
  obtain w where w: "mc_heap s (internal_fd d) = Some w" "fw_fd w = n" by (rule ownsD [OF s(1) d])
  obtain r err data from1 fromlen k where call:
    "sys_recvfrom N (fw_fd w) mtu MSG_TRUNC 128 (mc_kernel s) = (((r, err), data, from1, fromlen), k)" by (metis prod.exhaust)
  note ok = recvfrom [OF _ call [unfolded w(2)], unfolded s(2), OF n(2)]
  have D: "r < 0 \<Longrightarrow> - (2 ^ 31) \<le> r \<and> err \<noteq> 0 \<and> nt_queue (V k) n = nt_queue v n"
    "0 \<le> r \<Longrightarrow> \<exists>p. nt_queue v n = (p, from1) # nt_queue (V k) n \<and> r = int (length p) \<and> length p < 2 ^ 31 \<and>
      data = take (unat mtu) p \<and> unat fromlen = length from1 \<and> length from1 \<le> 128"
    using ok by (auto simp: call_ok_def net_dequeue_def split: if_splits)
  note live = recv_at [OF w(1) queue(3) D call]
  have owns: "owns V ds (s\<lparr>mc_kernel := k\<rparr>)" "foreign ds (V k) = foreign ds v"
    using owns_kernel [OF s(1), of k] s(2) ok by (auto simp: call_ok_def foreign_def split: if_splits)
  show "\<exists>res s'. UDPSocket_recv N d mtu s = (res, s') \<and> owns V ds s' \<and> foreign ds (V (mc_kernel s')) = foreign ds v \<and>
      (case res of Inl e \<Rightarrow> failed v e | Inr x \<Rightarrow> nt_faults (V (mc_kernel s')) = nt_faults v \<and> Q x (V (mc_kernel s')))"
  proof (cases "r < 0")
    case True
    then have "nt_faults v" using ok queue n by (simp add: call_ok_def)
    then show ?thesis using True live(1) owns by (simp add: failed_def)
  next
    case False
    then have r: "r = int (length p)" "from1 = src" "V k = net_dequeue n v" using ok queue(1) by (auto simp: call_ok_def)
    then have "r \<le> int (unat mtu)" using queue(2) by (simp only: of_nat_le_iff)
    then obtain p' a where pa: "nt_queue v n = (p', from1) # nt_queue (V k) n"
      "unat (ad_size a) = length from1" "take (length from1) (ad_storage a) = from1"
      "UDPSocket_recv N d mtu s = (Inr \<lparr>dg_source_address = a, dg_payload = p'\<rparr>, s\<lparr>mc_kernel := k,
        mc_heap := (mc_heap s)(internal_fd d \<mapsto> w\<lparr>fw_read_count := fw_read_count w + 1\<rparr>)\<rparr>)"
      using live(3) False by auto
    moreover have "p' = p" using pa(1) queue(1) by simp
    moreover have "Address_bytes a = src" using pa(2,3) r(2) by (simp add: sockaddr_def)
    ultimately show ?thesis
      using owns_heap [OF owns(1) d, of w] w(1) owns(2) Q r(3) by simp
  qed
qed

text \<open>A read gets some of the bytes that have arrived, all of them in a network without faults.\<close>

lemma runs_read:
  assumes d: "(d, n) \<in> set ds" and n: "n \<in> set (nt_live v)" "snd (nt_kind v n) = SOCK_STREAM"
    and inbox: "nt_inbox v n \<noteq> []" "length (nt_inbox v n) \<le> 1048576"
    and Q: "\<And>k. 0 < k \<Longrightarrow> k \<le> length (nt_inbox v n) \<Longrightarrow> (\<not> nt_faults v \<longrightarrow> k = length (nt_inbox v n)) \<Longrightarrow>
      Q (take k (nt_inbox v n)) (net_take n k v)"
  shows "runs V ds {} v (FileDescriptor_read K d size_max) Q"
proof (rule runsI)
  fix s assume s: "owns V ds s" "V (mc_kernel s) = v"
  obtain w where w: "mc_heap s (internal_fd d) = Some w" "fw_fd w = n" by (rule ownsD [OF s(1) d])
  have sz: "min BUFFER_SIZE size_max = 1048576" by (simp add: BUFFER_SIZE_def size_max_def min_def)
  obtain r data k where call: "sys_read K n (min BUFFER_SIZE size_max) (mc_kernel s) = (r, data, k)" by (metis prod.exhaust)
  note ok = read [OF _ _ call, unfolded s(2) sz, OF n]
  have owns: "owns V ds (s\<lparr>mc_kernel := k\<rparr>)" "foreign ds (V k) = foreign ds v"
    using owns_kernel [OF s(1), of k] s(2) ok by (auto simp: call_ok_def foreign_def split: if_splits)
  have "fst r \<ge> 0 \<Longrightarrow> Q data (V k) \<and> nt_faults (V k) = nt_faults v"
    using ok inbox Q [of "nat (fst r)"] by (auto simp: call_ok_def)
  moreover have "fst r < 0 \<Longrightarrow> nt_faults v" using ok inbox by (simp add: call_ok_def)
  ultimately show "\<exists>res s'. FileDescriptor_read K d size_max s = (res, s') \<and> owns V ds s' \<and> foreign ds (V (mc_kernel s')) = foreign ds v \<and>
      (case res of Inl e \<Rightarrow> failed v e | Inr x \<Rightarrow> nt_faults (V (mc_kernel s')) = nt_faults v \<and> Q x (V (mc_kernel s')))"
    using read_live [OF w(1) read_bytes, of size_max "fst r" "snd r" data k] call w(2) owns owns_heap [OF owns(1) d, of w] w(1)
    by (cases "fst r < 0") (auto simp: failed_def)
qed

lemma runs_close:
  assumes d: "(d, n) \<in> set ds" and n: "n \<in> set (nt_live v)" and Q: "\<And>T. T \<subseteq> nt_taken v \<Longrightarrow> Q () (net_close n T v)"
  shows "runs V ds {} v (FileDescriptor_close K d) Q"
proof (rule runsI)
  fix s assume s: "owns V ds s" "V (mc_kernel s) = v"
  obtain w where w: "mc_heap s (internal_fd d) = Some w" "fw_fd w = n" by (rule ownsD [OF s(1) d])
  obtain r k where call: "sys_close K n (mc_kernel s) = (r, k)" by (metis prod.exhaust)
  obtain T where T: "T \<subseteq> nt_taken v" and Vk: "V k = net_close n T v" using close [OF call] s(2) by blast
  have n': "n \<in> snd ` set ds" using d by force
  have owns: "owns V ds (s\<lparr>mc_kernel := k\<rparr>)" "foreign ds (V k) = foreign ds v"
    using owns_kernel [OF s(1), of k] s(2) n' by (auto simp: Vk foreign_def)
  define w' where "w' = w\<lparr>fw_eof := True, fw_closed := True\<rparr>"
  have "owns V ds (s\<lparr>mc_kernel := k, mc_heap := (mc_heap s)(internal_fd d \<mapsto> w')\<rparr>)"
  proof (rule owns_step [OF owns(1)])
    fix e m assume e: "(e, m) \<in> set ds" "handle_ok (set (nt_live (V (mc_kernel (s\<lparr>mc_kernel := k\<rparr>))))) (s\<lparr>mc_kernel := k\<rparr>) e m"
    show "handle_ok (set (nt_live (V (mc_kernel (s\<lparr>mc_kernel := k, mc_heap := (mc_heap s)(internal_fd d \<mapsto> w')\<rparr>)))))
        (s\<lparr>mc_kernel := k, mc_heap := (mc_heap s)(internal_fd d \<mapsto> w')\<rparr>) e m"
      using e(2) owns_unique [OF s(1) d e(1)] w by (cases "internal_fd e = internal_fd d") (auto simp: handle_ok_def w'_def Vk)
  qed
  then show "\<exists>res s'. FileDescriptor_close K d s = (res, s') \<and> owns V ds s' \<and> foreign ds (V (mc_kernel s')) = foreign ds v \<and>
      (case res of Inl e \<Rightarrow> failed v e | Inr x \<Rightarrow> nt_faults (V (mc_kernel s')) = nt_faults v \<and> Q x (V (mc_kernel s')))"
    using owns w call Q [OF T] SystemCall_call_ok [OF close_errno [OF call], of "''close''"]
      close_errno [OF call] s(2) n
    by (simp add: FileDescriptor_close_def FDWrapper_close_def bind_def wrapper_at_def kernel_call_def update_wrapper_def Vk w'_def
        failed_def call_ok_def)
qed

end

lemma net_deliver_Nil: "net_deliver m [] v = v"
  by (simp add: net_deliver_def)

lemma net_deliver_twice: "net_deliver m y (net_deliver m x v) = net_deliver m (x @ y) v"
  by (simp add: net_deliver_def)

lemma net_deliver_simps [simp]:
  "nt_link (net_deliver m x v) = nt_link v" "nt_inbox (net_deliver m x v) m = nt_inbox v m @ x"
  by (simp_all add: net_deliver_def)

text \<open>What a write does to the network: it appends to what the peer \<open>m\<close> of \<open>n\<close> has not read yet.\<close>

definition delivers :: "('w \<Rightarrow> net) \<Rightarrow> int \<Rightarrow> 'w \<Rightarrow> 'w \<Rightarrow> bool" where
  "delivers V m k k' \<longleftrightarrow> (\<exists>x. V k' = net_deliver m x (V k))"

definition stream_to :: "int \<Rightarrow> int \<Rightarrow> net \<Rightarrow> bool" where
  "stream_to n m v \<longleftrightarrow> n \<in> set (nt_live v) \<and> snd (nt_kind v n) = SOCK_STREAM \<and> nt_link v n = Some m"

context loopback
begin

lemma writev_stream:
  assumes "stream_to n m (V w)" "sys_writev K n iov w = ((r, err), k)"
  shows "delivers V m w k \<and> stream_to n m (V k) \<and> (r < 0 \<longrightarrow> - (2 ^ 31) \<le> r \<and> err \<noteq> 0 \<and> V k = V w) \<and>
    (0 \<le> r \<longrightarrow> r < 2 ^ 31 \<and> nat r \<le> length (concat (map fst iov)) \<and> (concat (map fst iov) \<noteq> [] \<longrightarrow> 0 < r) \<and>
      V k = net_deliver m (take (nat r) (concat (map fst iov))) (V w))"
proof -
  note ok = writev [OF _ _ _ assms(2), of m] assms(1)
  have *: "(r < 0 \<longrightarrow> - (2 ^ 31) \<le> r \<and> err \<noteq> 0 \<and> V k = V w) \<and>
    (0 \<le> r \<longrightarrow> r < 2 ^ 31 \<and> nat r \<le> length (concat (map fst iov)) \<and> (concat (map fst iov) \<noteq> [] \<longrightarrow> 0 < r) \<and>
      V k = net_deliver m (take (nat r) (concat (map fst iov))) (V w))"
    using ok by (auto simp: call_ok_def stream_to_def simp del: length_concat split: if_splits)
  then have "delivers V m w k" unfolding delivers_def by (metis linorder_not_less net_deliver_Nil)
  moreover from this assms(1) have "stream_to n m (V k)" by (auto simp: delivers_def stream_to_def)
  ultimately show ?thesis using * by blast
qed

lemma writev_loopback:
  "writev_contract_on K n (\<lambda>w. stream_to n m (V w)) (\<lambda>w. nt_inbox (V w) m)"
  "\<forall>iov k. stream_to n m (V k) \<longrightarrow> stream_to n m (V (snd (sys_writev K n iov k))) \<and> delivers V m k (snd (sys_writev K n iov k))"
proof -
  show "writev_contract_on K n (\<lambda>w. stream_to n m (V w)) (\<lambda>w. nt_inbox (V w) m)"
    unfolding writev_contract_on_def by (intro allI impI, frule (1) writev_stream) simp
  show "\<forall>iov k. stream_to n m (V k) \<longrightarrow> stream_to n m (V (snd (sys_writev K n iov k))) \<and> delivers V m k (snd (sys_writev K n iov k))"
    using writev_stream [of n m] by (metis prod.collapse)
qed

text \<open>The write loop transfers everything; without faults it does not fail while the peer is there.\<close>

lemma runs_write:
  assumes d: "(d, n) \<in> set ds" and link: "stream_to n m v" and peer: "m \<in> set (nt_live v)" "nt_link v m = Some n" and len: "length str < 2 ^ 63"
    and Q: "\<And>t. Q t (net_deliver m str v)"
  shows "runs V ds {} v (FileDescriptor_write_string K d str True) Q"
proof (rule runsI)
  fix s assume s: "owns V ds s" "V (mc_kernel s) = v"
  obtain w where w: "mc_heap s (internal_fd d) = Some w" "fw_fd w = n" by (rule ownsD [OF s(1) d])
  let ?v = "BufferViewList_of_view str" and ?P = "\<lambda>k k'. stream_to n m (V k) \<longrightarrow> stream_to n m (V k') \<and> delivers V m k k'"
  obtain res s' where run: "FileDescriptor_write_loop K d True ?v 0 s = (res, s')" by (metis prod.exhaust)
  have trans: "transp ?P" by (rule transpI) (auto simp: delivers_def net_deliver_twice)
  have frame: "fd_frame d ?P s s'"
    by (rule write_loop_frame [OF w(1) run _ trans]) (simp add: w(2) writev_loopback(2))
  have outcome: "write_outcome (\<lambda>w. nt_inbox (V w) m) str 0 s (res, s')"
    using write_loop_all_on [OF w(1), of K _ _ ?v 0] writev_loopback(1) [of n m] link len w(2) run s(2) by (simp add: BufferViewList_of_view_def)
  obtain x where x: "V (mc_kernel s') = net_deliver m x v"
    using frame link s(2) by (auto simp: fd_frame_def delivers_def)
  have "owns V ds s'"
  proof (rule owns_step [OF s(1)])
    fix e i assume e: "(e, i) \<in> set ds" "handle_ok (set (nt_live (V (mc_kernel s)))) s e i"
    show "handle_ok (set (nt_live (V (mc_kernel s')))) s' e i"
      using e(2) frame x s(2) w(1) by (cases "internal_fd e = internal_fd d") (auto simp: handle_ok_def fd_frame_def)
  qed
  moreover have "x = str" if "res = Inr t" for t
    using outcome that x s(2) by (auto simp: write_outcome_def)
  moreover have "nt_faults v" if res: "res = Inl (unix_error a b)" for a b
  proof (rule ccontr)
    let ?J = "\<lambda>k. \<not> nt_faults (V k) \<and> m \<in> set (nt_live (V k)) \<and> nt_link (V k) m = Some n \<and> stream_to n m (V k)"
    assume "\<not> nt_faults v"
    then have J: "?J (mc_kernel s)" using link peer s(2) by simp
    have keep: "?J (snd (sys_writev K (fw_fd w) iov k))" if "?J k" for iov k
      using writev_loopback(2) [of n m] that w(2) unfolding delivers_def by (metis net_deliver_simps(1) net_faults_simps(10) net_live_simps(9))
    have step: "0 \<le> r \<and> r < 2 ^ 31" if "length iov \<le> 1024" "?J k" "sys_writev K (fw_fd w) iov k = ((r, err), k')" for iov k r err k'
      using writev [of n k m iov "(r, err)" k'] that w(2) by (auto simp: call_ok_def stream_to_def iovecs_ok_def split: if_splits)
    have "fst (FileDescriptor_write_loop K d True ?v 0 s) \<noteq> Inl (unix_error a b)"
      by (rule write_loop_no_error [where J = ?J and c = 1024, OF w(1) J _ step keep]) (simp add: BufferViewList_of_view_def)
    then show False using run res by simp
  qed
  ultimately show "\<exists>res s'. FileDescriptor_write_string K d str True s = (res, s') \<and> owns V ds s' \<and> foreign ds (V (mc_kernel s')) = foreign ds v \<and>
      (case res of Inl e \<Rightarrow> failed v e | Inr x \<Rightarrow> nt_faults (V (mc_kernel s')) = nt_faults v \<and> Q x (V (mc_kernel s')))"
    using run x Q outcome
    by (auto simp: FileDescriptor_write_string_def FileDescriptor_write_def foreign_def write_outcome_def failed_def split: sum.split)
qed

end

section \<open>A network to compute with\<close>

text \<open>
  The abstract network as a kernel of its own; the lowest free numbers become descriptors, the lowest free
  port the name of a socket, a write takes at most four bytes, and closing releases the name.
\<close>

definition free_fds :: "net \<Rightarrow> int list" where
  "free_fds v = filter (\<lambda>n. n \<notin> set (nt_live v)) (map int [0..<1024])"

lemma free_fdsD: "n \<in> set (free_fds v) \<Longrightarrow> 0 \<le> n \<and> n < 2 ^ 31 \<and> n \<notin> set (nt_live v)"
  by (auto simp: free_fds_def)

lemma distinct_free_fds: "distinct (free_fds v)"
  by (simp add: free_fds_def distinct_map)

lemma free_fds_room: "room_for k v \<Longrightarrow> k \<le> length (free_fds v)"
proof -
  assume "room_for k v"
  then have k: "card (set (nt_live v)) + k \<le> 1024" by (simp add: room_for_def)
  have "length (free_fds v) = card (set (map int [0..<1024]) - set (nt_live v))"
    unfolding distinct_card [OF distinct_free_fds, symmetric] by (simp add: free_fds_def set_diff_eq)
  also have "card (set (map int [0..<1024])) - card (set (nt_live v)) \<le> \<dots>"
    by (rule diff_card_le_card_Diff) simp
  finally show ?thesis using k by (simp add: card_image)
qed

definition ephemeral_ports :: "nat list" where
  "ephemeral_ports = [32768..<61000]"

lemma set_ephemeral_ports: "set ephemeral_ports = {32768..<61000}"
  unfolding ephemeral_ports_def by (rule set_upt)

definition free_names :: "byte_order \<Rightarrow> int \<Rightarrow> net \<Rightarrow> bytes list" where
  "free_names e ty v = filter (net_free v ty) (map (\<lambda>p. inet_sockaddr e 0x7F000001 (of_nat p)) ephemeral_ports)"

definition pick_name :: "byte_order \<Rightarrow> int \<Rightarrow> int \<Rightarrow> net \<Rightarrow> bytes option" where
  "pick_name e ty n v = (case nt_name v n of Some a \<Rightarrow> Some a
     | None \<Rightarrow> (case free_names e ty v of [] \<Rightarrow> None | h # _ \<Rightarrow> Some h))"

lemma length_inet_sockaddr [simp]: "length (inet_sockaddr e ip port) = 16"
  by (simp add: inet_sockaddr_def)

lemma free_names_left: "ephemeral e h \<Longrightarrow> net_free v ty h \<Longrightarrow> free_names e ty v \<noteq> []"
proof -
  assume "ephemeral e h" "net_free v ty h"
  then obtain port :: u16 where "unat port \<in> set ephemeral_ports" "net_free v ty (inet_sockaddr e 0x7F000001 (of_nat (unat port)))"
    by (auto simp: ephemeral_def set_ephemeral_ports)
  then show ?thesis unfolding free_names_def filter_empty_conv set_map by blast
qed

lemma pick_name_free:
  assumes "pick_name e ty n v = Some h" "nt_name v n = None"
  shows "net_free v ty h" "length h = 16"
proof -
  have "h \<in> set (free_names e ty v)" using assms by (auto simp: pick_name_def split: list.splits)
  then show "net_free v ty h" "length h = 16" by (auto simp: free_names_def)
qed

lemma pick_name_possible:
  "pick_name e ty n v = None \<Longrightarrow> nt_name v n = None \<and> (\<forall>h. ephemeral e h \<longrightarrow> \<not> net_free v ty h)"
  using free_names_left [of e _ v ty] by (auto simp: pick_name_def split: option.splits list.splits)

definition net_calls :: "net kernel" where
  "net_calls =
     \<lparr>sys_read = (\<lambda>n sz v. let k = min (unat sz) (length (nt_inbox v n)) in
        if k \<le> 0x7ffff000 then ((int k, 0), take k (nt_inbox v n), net_take n k v) else ((- 1, 22), [], v)),
      sys_writev = (\<lambda>n iov v. case nt_link v n of None \<Rightarrow> ((- 1, 32), v)
        | Some m \<Rightarrow> let data = take 4 (concat (map fst iov)) in ((int (length data), 0), net_deliver m data v)),
      sys_close = (\<lambda>n v. ((if n \<in> set (nt_live v) then 0 else - 1, 9),
        net_close n (nt_taken v - {(snd (nt_kind v n), the (nt_name v n))}) v)),
      sys_getfl = (\<lambda>_ v. ((0, 0), v)), sys_setfl = (\<lambda>_ _ v. ((0, 0), v)), sys_poll = (\<lambda>fds _ v. ((0, 0), fds, v))\<rparr>"

definition net_connect :: "byte_order \<Rightarrow> int \<Rightarrow> bytes \<times> u32 \<Rightarrow> net \<Rightarrow> (sys_result \<times> unit) \<times> net" where
  "net_connect e n addr v =
     (case (net_owner v (snd (nt_kind v n)) (sockaddr addr), pick_name e (snd (nt_kind v n)) n v) of
        (Some l, Some h) \<Rightarrow>
          if snd (nt_kind v n) = SOCK_DGRAM then (((0, 0), ()), net_set_peer n (sockaddr addr) (net_autobind n h v))
          else (case nt_phase v l of Listening b \<Rightarrow> (((0, 0), ()), net_queue_up n l (net_autobind n h v)) | _ \<Rightarrow> (((- 1, 111), ()), v))
      | _ \<Rightarrow> (((- 1, 111), ()), v))"

definition net_sendmsg :: "byte_order \<Rightarrow> int \<Rightarrow> (bytes \<times> u32) option \<Rightarrow> (bytes \<times> size_t) list \<Rightarrow> net \<Rightarrow> (sys_result \<times> unit) \<times> net" where
  "net_sendmsg e n dest iov v =
     (let data = concat (map fst iov) in case (net_target n dest v, map_option (take 128) (pick_name e SOCK_DGRAM n v)) of
        (Some m, Some h) \<Rightarrow>
          if datagram_ok data
          then (((int (length data), 0), ()), if net_takes m h v then net_send n h m data v else net_autobind n h v)
          else (((- 1, 90), ()), v)
      | _ \<Rightarrow> (((- 1, 111), ()), v))"

definition net_sockets :: "byte_order \<Rightarrow> net socket_kernel" where
  "net_sockets e =
     \<lparr>sys_socket = (\<lambda>domain ty _ v. case free_fds v of [] \<Rightarrow> (((- 1, 24), ()), v)
        | n # _ \<Rightarrow> (((n, 0), ()), net_open n (domain, ty) v)),
      sys_getsockopt = (\<lambda>n _ opt _ v. (((0, 0), if opt = SO_DOMAIN then fst (nt_kind v n) else snd (nt_kind v n), 4), v)),
      sys_setsockopt = (\<lambda>_ _ _ _ _ v. (((0, 0), ()), v)),
      sys_getsockname = (\<lambda>_ _ v. (((- 1, 22), [], 0), v)), sys_getpeername = (\<lambda>_ _ v. (((- 1, 22), [], 0), v)),
      sys_bind = (\<lambda>n addr v. if nt_phase v n = Fresh \<and> net_free v (snd (nt_kind v n)) (sockaddr addr)
        then (((0, 0), ()), net_bind n (sockaddr addr) v) else (((- 1, 98), ()), v)),
      sys_connect = net_connect e,
      sys_shutdown = (\<lambda>n _ v. if nt_link v n = None then (((- 1, 107), ()), v) else (((0, 0), ()), net_hangup n v)),
      sys_listen = (\<lambda>n backlog v. if nt_phase v n = Bound then (((0, 0), ()), net_listen n backlog v) else (((- 1, 22), ()), v)),
      sys_accept = (\<lambda>l v. case (nt_backlog v l, free_fds v) of (_ # _, n # _) \<Rightarrow> (((n, 0), ()), net_accept l n v)
        | _ \<Rightarrow> (((- 1, 11), ()), v)),
      sys_recvfrom = (\<lambda>n sz _ _ v. case nt_queue v n of
          (p, from) # _ \<Rightarrow> if datagram_ok p \<and> length from \<le> 128
            then (((int (length p), 0), take (unat sz) p, from, of_nat (length from)), net_dequeue n v)
            else (((- 1, 5), [], [], 0), v)
        | [] \<Rightarrow> (((- 1, 11), [], [], 0), v)),
      sys_sendmsg = net_sendmsg e\<rparr>"

definition net_socketpair :: "net socketpair_call" where
  "net_socketpair domain ty _ v = (case free_fds v of
      a # b # _ \<Rightarrow> (((0, 0), a, b), net_join a b (net_open a (domain, ty) (net_open b (domain, ty) v)))
    | _ \<Rightarrow> (((- 1, 24), 0, 0), v))"

lemma free_fds_cases:
  "free_fds v = n # ns \<Longrightarrow> 0 \<le> n \<and> n < 2 ^ 31 \<and> n \<notin> set (nt_live v)" "free_fds v = [] \<Longrightarrow> \<not> room_for 1 v"
  using free_fdsD [of n v] free_fds_room [of 1 v] by auto

lemma net_socket_law:
  "sys_socket (net_sockets e) domain ty 0 v = ((r, u), v') \<Longrightarrow> call_ok v r (room_for 1 v) (v' = v)
     (fst r \<notin> set (nt_live v) \<and> v' = net_open (fst r) (domain, ty) v)"
  using free_fds_cases [of v] by (cases "free_fds v") (auto simp: net_sockets_def call_ok_def)

lemma net_accept_law:
  "sys_accept (net_sockets e) l v = ((r, u), v') \<Longrightarrow>
     call_ok v r (l \<in> set (nt_live v) \<and> (\<exists>b. nt_phase v l = Listening b) \<and> nt_backlog v l \<noteq> [] \<and> room_for 1 v) (v' = v)
     (nt_backlog v l \<noteq> [] \<and> fst r \<notin> set (nt_live v) \<and> v' = net_accept l (fst r) v)"
  using free_fds_cases [of v] by (cases "nt_backlog v l"; cases "free_fds v") (auto simp: net_sockets_def call_ok_def)

lemma net_socketpair_law:
  assumes "net_socketpair domain ty 0 v = ((r, a, b), v')"
  shows "call_ok v r (room_for 2 v) (v' = v) (a \<noteq> b \<and> {a, b} \<inter> set (nt_live v) = {} \<and> {a, b} \<subseteq> {0..<2 ^ 31} \<and>
       v' = net_join a b (net_open a (domain, ty) (net_open b (domain, ty) v)))"
proof (cases "free_fds v" rule: remdups_adj.cases)
  case (3 x y xs)
  then show ?thesis
    using assms free_fdsD [of x v] free_fdsD [of y v] distinct_free_fds [of v] by (auto simp: net_socketpair_def call_ok_def)
qed (use assms free_fds_room [of 2 v] in \<open>auto simp: net_socketpair_def call_ok_def\<close>)

lemma net_connect_laws:
  assumes "sys_connect (net_sockets e) n addr v = ((r, u), v')"
  shows "snd (nt_kind v n) = SOCK_STREAM \<Longrightarrow>
      call_ok v r (n \<in> set (nt_live v) \<and> fst (nt_kind v n) = uint AF_INET \<and> nt_phase v n = Fresh \<and>
        (\<exists>h. ephemeral e h \<and> net_free v SOCK_STREAM h) \<and>
        (\<exists>l b. net_owner v SOCK_STREAM (sockaddr addr) = Some l \<and> nt_phase v l = Listening b \<and> 0 < b \<and> nt_backlog v l = [])) (v' = v)
      (\<exists>l b h. net_owner v SOCK_STREAM (sockaddr addr) = Some l \<and> nt_phase v l = Listening b \<and>
        (nt_name v n = None \<longrightarrow> net_free v SOCK_STREAM h) \<and> v' = net_queue_up n l (net_autobind n h v))"
    and "snd (nt_kind v n) = SOCK_DGRAM \<Longrightarrow>
      call_ok v r (n \<in> set (nt_live v) \<and> nt_name v n \<noteq> None \<and> net_owner v SOCK_DGRAM (sockaddr addr) \<noteq> None) (v' = v)
      (\<exists>h. (nt_name v n = None \<longrightarrow> net_free v SOCK_DGRAM h) \<and> v' = net_set_peer n (sockaddr addr) (net_autobind n h v))"
proof -
  let ?ty = "snd (nt_kind v n)"
  have ne: "SOCK_STREAM \<noteq> SOCK_DGRAM" by (simp add: SOCK_STREAM_def SOCK_DGRAM_def)
  have run: "net_connect e n addr v = ((r, u), v')" using assms by (simp add: net_sockets_def)
  note free = pick_name_free(1) [of e ?ty n v] and none = pick_name_possible [of e ?ty n v]
  consider "v' = v" "fst r = - 1" "snd r = 111"
      "pick_name e ?ty n v = None \<or> net_owner v ?ty (sockaddr addr) = None \<or>
       ?ty \<noteq> SOCK_DGRAM \<and> (\<forall>b. nt_phase v (the (net_owner v ?ty (sockaddr addr))) \<noteq> Listening b)"
    | l h where "net_owner v ?ty (sockaddr addr) = Some l" "pick_name e ?ty n v = Some h" "r = (0, 0)"
      "if ?ty = SOCK_DGRAM then v' = net_set_peer n (sockaddr addr) (net_autobind n h v)
       else (\<exists>b. nt_phase v l = Listening b) \<and> v' = net_queue_up n l (net_autobind n h v)"
    using run unfolding net_connect_def by (auto split: option.splits if_splits phase.splits)
  note outcome = this
  show "call_ok v r (n \<in> set (nt_live v) \<and> fst (nt_kind v n) = uint AF_INET \<and> nt_phase v n = Fresh \<and>
        (\<exists>h. ephemeral e h \<and> net_free v SOCK_STREAM h) \<and>
        (\<exists>l b. net_owner v SOCK_STREAM (sockaddr addr) = Some l \<and> nt_phase v l = Listening b \<and> 0 < b \<and> nt_backlog v l = [])) (v' = v)
      (\<exists>l b h. net_owner v SOCK_STREAM (sockaddr addr) = Some l \<and> nt_phase v l = Listening b \<and>
        (nt_name v n = None \<longrightarrow> net_free v SOCK_STREAM h) \<and> v' = net_queue_up n l (net_autobind n h v))" if "?ty = SOCK_STREAM"
    using outcome free none ne that by cases (auto simp: call_ok_def)
  show "call_ok v r (n \<in> set (nt_live v) \<and> nt_name v n \<noteq> None \<and> net_owner v SOCK_DGRAM (sockaddr addr) \<noteq> None) (v' = v)
      (\<exists>h. (nt_name v n = None \<longrightarrow> net_free v SOCK_DGRAM h) \<and> v' = net_set_peer n (sockaddr addr) (net_autobind n h v))" if "?ty = SOCK_DGRAM"
    using outcome free none that by cases (auto simp: call_ok_def)
qed

lemma net_sendmsg_law:
  assumes "sys_sendmsg (net_sockets e) n dest iov v = ((r, u), v')"
  shows "call_ok v r (n \<in> set (nt_live v) \<and> net_target n dest v \<noteq> None \<and> datagram_ok (concat (map fst iov)) \<and> iovecs_ok iov \<and>
        (nt_name v n = None \<longrightarrow> (\<exists>h. ephemeral e h \<and> net_free v SOCK_DGRAM h))) (v' = v)
      (fst r = int (length (concat (map fst iov))) \<and>
       (\<exists>h. length h \<le> 128 \<and> (nt_name v n = None \<longrightarrow> net_free v SOCK_DGRAM h) \<and>
         (case net_target n dest v of
            Some m \<Rightarrow> v' = net_send n h m (concat (map fst iov)) v \<or> v' = net_autobind n h v \<and> \<not> net_takes m h v
          | None \<Rightarrow> v' = net_autobind n h v)))"
proof -
  let ?data = "concat (map fst iov)"
  have run: "net_sendmsg e n dest iov v = ((r, u), v')" using assms by (simp add: net_sockets_def)
  consider "v' = v" "fst r = - 1" "snd r \<noteq> 0" "net_target n dest v = None \<or> pick_name e SOCK_DGRAM n v = None \<or> \<not> datagram_ok ?data"
    | m h where "net_target n dest v = Some m" "pick_name e SOCK_DGRAM n v = Some h" "datagram_ok ?data" "r = (int (length ?data), 0)"
      "v' = (if net_takes m (take 128 h) v then net_send n (take 128 h) m ?data v else net_autobind n (take 128 h) v)"
    using run unfolding net_sendmsg_def Let_def by (auto split: option.splits if_splits simp del: length_concat)
  then show ?thesis
  proof cases
    case 1
    then show ?thesis using pick_name_possible [of e SOCK_DGRAM n v] by (auto simp: call_ok_def)
  next
    case (2 m h)
    have "nt_name v n = None \<Longrightarrow> net_free v SOCK_DGRAM (take 128 h)" using pick_name_free [OF 2(2)] by simp
    then show ?thesis
      using 2 by (auto simp: call_ok_def datagram_ok_def simp del: length_concat intro!: exI [of _ "take 128 h"])
  qed
qed

lemma net_recvfrom_law:
  assumes "sys_recvfrom (net_sockets e) n sz MSG_TRUNC 128 v = ((r, data, from, fromlen), v')"
  shows "call_ok v r (n \<in> set (nt_live v) \<and> (\<exists>p h q. nt_queue v n = (p, h) # q \<and> datagram_ok p \<and> length h \<le> 128)) (v' = v)
     (\<exists>p q. nt_queue v n = (p, from) # q \<and> fst r = int (length p) \<and> data = take (unat sz) p \<and>
        unat fromlen = length from \<and> length from \<le> 128 \<and> v' = net_dequeue n v)"
proof (cases "nt_queue v n")
  case Nil
  then show ?thesis using assms by (auto simp: net_sockets_def call_ok_def)
next
  case (Cons x q)
  then show ?thesis
    using assms by (cases x) (auto simp: net_sockets_def call_ok_def datagram_ok_def unat_of_nat take_bit_nat_eq_self split: if_splits)
qed

lemma net_read_laws:
  "read_contract net_calls n"
  "sys_read net_calls n sz v = (r, data, v') \<Longrightarrow> call_ok v r (nt_inbox v n \<noteq> [] \<and> unat sz \<le> 0x7ffff000) (v' = v)
     (nat (fst r) \<le> length (nt_inbox v n) \<and> data = take (nat (fst r)) (nt_inbox v n) \<and> (sz \<noteq> 0 \<and> nt_inbox v n \<noteq> [] \<longrightarrow> 0 < fst r) \<and>
      (\<not> nt_faults v \<longrightarrow> nat (fst r) = min (unat sz) (length (nt_inbox v n))) \<and> v' = net_take n (nat (fst r)) v)"
proof -
  show "read_contract net_calls n"
    by (auto simp: read_contract_def net_calls_def Let_def)
  show "sys_read net_calls n sz v = (r, data, v') \<Longrightarrow> call_ok v r (nt_inbox v n \<noteq> [] \<and> unat sz \<le> 0x7ffff000) (v' = v)
     (nat (fst r) \<le> length (nt_inbox v n) \<and> data = take (nat (fst r)) (nt_inbox v n) \<and> (sz \<noteq> 0 \<and> nt_inbox v n \<noteq> [] \<longrightarrow> 0 < fst r) \<and>
      (\<not> nt_faults v \<longrightarrow> nat (fst r) = min (unat sz) (length (nt_inbox v n))) \<and> v' = net_take n (nat (fst r)) v)"
    by (auto simp: net_calls_def call_ok_def Let_def unat_gt_0 simp del: take_min_length take_length_min split: if_splits)
qed

lemma net_writev_law:
  "nt_link v n = Some m \<Longrightarrow> sys_writev net_calls n iov v = (r, v') \<Longrightarrow>
   call_ok v r (m \<in> set (nt_live v) \<and> nt_link v m = Some n \<and> iovecs_ok iov) (v' = v)
     (fst r \<le> 0x7ffff000 \<and> nat (fst r) \<le> length (concat (map fst iov)) \<and> (concat (map fst iov) \<noteq> [] \<longrightarrow> 0 < fst r) \<and>
      v' = net_deliver m (take (nat (fst r)) (concat (map fst iov))) v)"
  by (auto simp: net_calls_def call_ok_def Let_def min_def simp del: length_concat concat_eq_Nil_conv)

lemma net_simple_laws:
  "sys_bind (net_sockets e) n addr v = ((r, u), v') \<Longrightarrow>
    call_ok v r (n \<in> set (nt_live v) \<and> fst (nt_kind v n) = uint AF_INET \<and> nt_phase v n = Fresh \<and>
      net_free v (snd (nt_kind v n)) (sockaddr addr)) (v' = v) (v' = net_bind n (sockaddr addr) v)"
  "nt_phase v n = Bound \<Longrightarrow> sys_listen (net_sockets e) n backlog v = ((r, u), v') \<Longrightarrow>
    call_ok v r (n \<in> set (nt_live v) \<and> nt_kind v n = (uint AF_INET, SOCK_STREAM)) (v' = v) (v' = net_listen n backlog v)"
  "nt_link v n = Some m \<Longrightarrow> sys_shutdown (net_sockets e) n SHUT_RDWR v = ((r, u), v') \<Longrightarrow>
    call_ok v r (n \<in> set (nt_live v) \<and> (m \<in> set (nt_live v) \<or> nt_inbox v m = [])) (v' = v) (v' = net_hangup n v)"
  "sys_getsockopt (net_sockets e) n SOL_SOCKET opt 4 v = ((r, x, len), v') \<Longrightarrow>
    call_ok v r (n \<in> set (nt_live v) \<and> opt \<in> {SO_DOMAIN, SO_TYPE}) (v' = v)
    (v' = v \<and> (opt = SO_DOMAIN \<longrightarrow> x = fst (nt_kind v n) \<and> len = 4) \<and> (opt = SO_TYPE \<longrightarrow> x = snd (nt_kind v n) \<and> len = 4))"
  by (auto simp: net_sockets_def call_ok_def SO_DOMAIN_def SO_TYPE_def split: if_splits)

lemma net_close_laws:
  "sys_close net_calls n v = (r, v') \<Longrightarrow> \<exists>T \<subseteq> nt_taken v. v' = net_close n T v"
  "sys_close net_calls n v = (r, v') \<Longrightarrow> call_ok v r (n \<in> set (nt_live v)) True True"
  by (auto simp: net_calls_def call_ok_def split: if_splits)

interpretation lo: loopback e net_calls "net_sockets e" net_socketpair "\<lambda>v. v" for e
  by unfold_locales
    (fact net_read_laws(1) |
     erule (1) net_socket_law net_socketpair_law net_accept_law net_connect_laws net_sendmsg_law net_recvfrom_law net_read_laws
       net_writev_law net_simple_laws net_close_laws |
     erule net_socket_law net_socketpair_law net_accept_law net_connect_laws net_sendmsg_law net_recvfrom_law net_read_laws
       net_simple_laws net_close_laws)+

end
