(* ===== verification/Doc_Examples.thy ===== *)
theory Doc_Examples
  imports Loopback Net_Parser
begin

text \<open>
  The example programs of the documentation, \<open>src/doctests\<close>: they use the parser, addresses and all
  socket classes together, and check what they get. Each \<open>main\<close> returns \<open>EXIT_FAILURE\<close> for any
  exception. The numbers of \<open>std::random_device\<close> and the call \<open>socketpair(2)\<close> are parameters.
\<close>

definition main_result :: "cpp_failure + unit \<Rightarrow> process_end" where
  "main_result r = (case r of Inr _ \<Rightarrow> Exited EXIT_SUCCESS | Inl undefined_behaviour \<Rightarrow> Undefined | Inl _ \<Rightarrow> Exited EXIT_FAILURE)"

section \<open>parser_dt.cc\<close>

definition parser_example :: "cpp_failure + unit" where
  "parser_example =
     (let val1 = 0xdeadbeef; val2 = 0xc0c0; val3 = 0xff; val4 = 0x0c05fefe;
          buffer = [0x32];
          buffer = NetUnparser_u32 buffer val1;
          buffer = NetUnparser_u16 buffer val2;
          buffer = NetUnparser_u8 buffer val3;
          buffer = NetUnparser_u32 buffer val4
      in and_then (NetParser_u8 (NetParser_new (Buffer_of buffer))) (\<lambda>(out0, p).
         and_then (NetParser_u32 p) (\<lambda>(out1, p).
         and_then (NetParser_u16 p) (\<lambda>(out2, p).
         and_then (NetParser_u8 p) (\<lambda>(out3, p).
         and_then (NetParser_u32 p) (\<lambda>(out4, p).
           if out0 \<noteq> 0x32 \<or> out1 \<noteq> val1 \<or> out2 \<noteq> val2 \<or> out3 \<noteq> val3 \<or> out4 \<noteq> val4
           then Inl (runtime_error ''bad parse'') else Inr ()))))))"

definition parser_dt_main :: process_end where
  "parser_dt_main = main_result parser_example"

section \<open>address_dt.cc\<close>

definition google_webserver :: "resolver \<Rightarrow> cpp_failure + Address" where
  "google_webserver R = Address_of_host R ''www.google.com'' ''https''"

definition a_dns_server :: "resolver \<Rightarrow> cpp_failure + Address" where
  "a_dns_server R = Address_of_ip R ''18.71.0.151'' 53"

definition a_dns_server_numeric :: "byte_order \<Rightarrow> Address \<Rightarrow> cpp_failure + u32" where
  "a_dns_server_numeric e a = Address_ipv4_numeric e a"

text \<open>The result and the error output.\<close>

definition address_dt_main :: "messages \<Rightarrow> byte_order \<Rightarrow> resolver \<Rightarrow> process_end \<times> string" where
  "address_dt_main M e R =
     (case and_then (google_webserver R) (\<lambda>webserver.
           and_then (a_dns_server R) (\<lambda>dns_server.
           and_then (a_dns_server_numeric e dns_server) (\<lambda>numeric.
           and_then (Address_port R webserver) (\<lambda>port.
             if port \<noteq> 443 \<or> numeric \<noteq> 0x12470097 then Inl (runtime_error ''unexpected value'') else Inr ())))) of
        Inr _ \<Rightarrow> (Exited EXIT_SUCCESS, '''')
      | Inl undefined_behaviour \<Rightarrow> (Undefined, '''')
      | Inl exc \<Rightarrow> (Exited EXIT_FAILURE,
          ''This test requires Internet access and working DNS.'' @ [CHR 0x0A] @ ''Error: '' @ exception_what M exc @ [CHR 0x0A]))"

section \<open>socket_dt.cc\<close>

definition example_port :: "u32 \<Rightarrow> u16" where
  "example_port random = ucast (random mod 50000 + 1025)"

abbreviation string_literal :: "string \<Rightarrow> bytes" where
  "string_literal t \<equiv> string_bytes t @ [0]"

abbreviation text_view :: "string \<Rightarrow> BufferViewList" where
  "text_view t \<equiv> BufferViewList_of_c_str (string_literal t)"

definition check_received :: "bytes \<Rightarrow> bytes \<Rightarrow> ('w machine, unit) action" where
  "check_received recvd recvd2 =
     (if recvd \<noteq> string_bytes ''hi there'' \<or> recvd2 \<noteq> string_bytes ''hi yourself''
      then throws (runtime_error ''wrong data received'') else returns ())"

definition socket_example_1 :: "'w kernel \<Rightarrow> 'w socket_kernel \<Rightarrow> resolver \<Rightarrow> u32 \<Rightarrow> ('w machine, unit) action" where
  "socket_example_1 K N R random =
     (let portnum = example_port random in
      bind (UDPSocket_new N) (\<lambda>sock1. scoped K sock1 (
      bind (lift (Address_of_ip R ''127.0.0.1'' portnum)) (\<lambda>address.
      bind (Socket_bind N sock1 address) (\<lambda>_.
      bind (UDPSocket_new N) (\<lambda>sock2. scoped K sock2 (
      bind (lift (Address_of_ip R ''127.0.0.1'' portnum)) (\<lambda>address.
      bind (UDPSocket_sendto N sock2 address (text_view ''hi there'')) (\<lambda>_.
      bind (UDPSocket_recv N sock1 65536) (\<lambda>recvd.
      bind (Socket_connect N sock1 (dg_source_address recvd)) (\<lambda>_.
      bind (UDPSocket_send N sock1 (text_view ''hi yourself'')) (\<lambda>_.
      bind (UDPSocket_recv N sock2 65536) (\<lambda>recvd2.
        check_received (dg_payload recvd) (dg_payload recvd2))))))))))))))"

definition socket_example_2 :: "'w kernel \<Rightarrow> 'w socket_kernel \<Rightarrow> resolver \<Rightarrow> u32 \<Rightarrow> ('w machine, unit) action" where
  "socket_example_2 K N R random =
     (let portnum = example_port random in
      bind (TCPSocket_new N) (\<lambda>sock1. scoped K sock1 (
      bind (lift (Address_of_ip R ''127.0.0.1'' portnum)) (\<lambda>address.
      bind (Socket_bind N sock1 address) (\<lambda>_.
      bind (TCPSocket_listen N sock1 1) (\<lambda>_.
      bind (TCPSocket_new N) (\<lambda>sock2. scoped K sock2 (
      bind (lift (Address_of_ip R ''127.0.0.1'' portnum)) (\<lambda>address.
      bind (Socket_connect N sock2 address) (\<lambda>_.
      bind (TCPSocket_accept K N sock1) (\<lambda>sock3. scoped K sock3 (
      bind (FileDescriptor_write_c_str K sock3 (string_literal ''hi there'') True) (\<lambda>_.
      bind (FileDescriptor_read K sock2 size_max) (\<lambda>recvd.
      bind (FileDescriptor_write_c_str K sock2 (string_literal ''hi yourself'') True) (\<lambda>_.
      bind (FileDescriptor_read K sock3 size_max) (\<lambda>recvd2.
      bind (FileDescriptor_close K sock1) (\<lambda>_.
      bind (FileDescriptor_close K sock2) (\<lambda>_.
      bind (Socket_shutdown N sock3 SHUT_RDWR) (\<lambda>_.
        check_received recvd recvd2)))))))))))))))))))"

definition socket_example_3 ::
  "'w kernel \<Rightarrow> 'w socket_kernel \<Rightarrow> 'w socketpair_call \<Rightarrow> ('w machine, unit) action" where
  "socket_example_3 K N P =
     bind (kernel_call (P (uint AF_UNIX) SOCK_STREAM 0)) (\<lambda>(r, fd0, fd1).
     bind (lift (SystemCall ''socketpair'' r 0)) (\<lambda>_.
     bind (bind (FileDescriptor_new fd0) (LocalStreamSocket_of_fd K N)) (\<lambda>pipe1. scoped K pipe1 (
     bind (bind (FileDescriptor_new fd1) (LocalStreamSocket_of_fd K N)) (\<lambda>pipe2. scoped K pipe2 (
     bind (FileDescriptor_write_c_str K pipe1 (string_literal ''hi there'') True) (\<lambda>_.
     bind (FileDescriptor_read K pipe2 size_max) (\<lambda>recvd.
     bind (FileDescriptor_write_c_str K pipe2 (string_literal ''hi yourself'') True) (\<lambda>_.
     bind (FileDescriptor_read K pipe1 size_max) (\<lambda>recvd2.
       check_received recvd recvd2))))))))))"

definition socket_dt_main ::
  "'w kernel \<Rightarrow> 'w socket_kernel \<Rightarrow> 'w socketpair_call \<Rightarrow> resolver \<Rightarrow> u32 \<Rightarrow> u32 \<Rightarrow> 'w machine \<Rightarrow> process_end \<times> 'w machine" where
  "socket_dt_main K N P R random1 random2 s =
     (case bind (socket_example_1 K N R random1) (\<lambda>_.
           bind (socket_example_2 K N R random2) (\<lambda>_.
           socket_example_3 K N P)) s of
        (r, s') \<Rightarrow> (main_result r, s'))"

section \<open>The parser and the addresses\<close>

theorem parser_dt_succeeds: "parser_dt_main = Exited EXIT_SUCCESS"
  by code_simp

section \<open>The sockets\<close>

lemma room_for_simps [simp]:
  "n \<notin> set (nt_live v) \<Longrightarrow> room_for k (net_open n kind v) \<longleftrightarrow> room_for (Suc k) v" "room_for k (net_bind n h v) \<longleftrightarrow> room_for k v"
  "room_for k (net_listen n b v) \<longleftrightarrow> room_for k v" "room_for k (net_queue_up n l v) \<longleftrightarrow> room_for k v"
  "room_for k (net_autobind n h v) \<longleftrightarrow> room_for k v"
  by (simp_all add: room_for_def)

lemma room_for_mono: "room_for k v \<Longrightarrow> j \<le> k \<Longrightarrow> room_for j v"
  by (simp add: room_for_def)

lemma literal_views [simp]:
  "text_view ''hi there'' = BufferViewList_of_view (string_bytes ''hi there'')"
  "text_view ''hi yourself'' = BufferViewList_of_view (string_bytes ''hi yourself'')"
  by (rule BufferViewList_of_literal, simp add: string_bytes_def)+

lemma write_literals [simp]:
  "FileDescriptor_write_c_str K d (string_literal ''hi there'') b = FileDescriptor_write_string K d (string_bytes ''hi there'') b"
  "FileDescriptor_write_c_str K d (string_literal ''hi yourself'') b = FileDescriptor_write_string K d (string_bytes ''hi yourself'') b"
  by (rule FileDescriptor_write_literal, simp add: string_bytes_def)+

lemma datagram_texts [simp]:
  "datagram_ok (string_bytes ''hi there'')" "datagram_ok (string_bytes ''hi yourself'')"
  "length (string_bytes t) = length t" and concat_view [simp]: "concat (bv_views (BufferViewList_of_view b)) = b"
  by (simp_all add: datagram_ok_def string_bytes_def BufferViewList_of_view_def)

text \<open>In a network with faults a short read makes the check fail.\<close>

lemma runs_check_received:
  assumes "\<not> nt_faults v \<Longrightarrow> recvd = string_bytes ''hi there'' \<and> recvd2 = string_bytes ''hi yourself''" "Q () v"
  shows "runs V ds {} v (check_received recvd recvd2) Q"
proof (cases "recvd = string_bytes ''hi there'' \<and> recvd2 = string_bytes ''hi yourself''")
  case True
  then show ?thesis using assms(2) by (simp add: check_received_def runs_returns)
next
  case False
  then have "nt_faults v" using assms(1) by blast
  then have "runs V ds {} v (throws (runtime_error ''wrong data received'')) Q" by (intro runsI) (simp add: failed_def)
  then show ?thesis using False unfolding check_received_def by auto
qed

text \<open>The address of the examples at a drawn port.\<close>

abbreviation example_address :: "byte_order \<Rightarrow> u32 \<Rightarrow> bytes" where
  "example_address e random \<equiv> inet_sockaddr e 0x7F000001 (example_port random)"

lemma example_port_unprivileged: "1024 \<le> unat (example_port random)"
proof -
  have "unat (random mod 50000 + 1025) = unat random mod 50000 + 1025"
    by (subst unat_add_lem [THEN iffD1]) (simp_all add: unat_mod)
  moreover have "unat random mod 50000 + 1025 < 2 ^ 16" using mod_less_divisor [of 50000 "unat random"] by simp
  ultimately have "unat (example_port random) = unat random mod 50000 + 1025"
    unfolding example_port_def by (simp add: unsigned_ucast_eq take_bit_nat_eq_self)
  then show ?thesis by simp
qed

lemma example_address_resolved:
  assumes "numeric_resolver e R"
  obtains a where "Address_of_ip R ''127.0.0.1'' (example_port random) = Inr a" "Address_bytes a = example_address e random"
    "loopback_address e (Address_bytes a)"
proof -
  have "dotted_quad 0x7F000001 = ''127.0.0.1''" by code_simp
  then obtain a where "Address_of_ip R ''127.0.0.1'' (example_port random) = Inr a" "ad_size a = 16"
    "take 16 (ad_storage a) = example_address e random"
    using numeric_address [OF assms, of "0x7F000001" "example_port random"] by auto
  then show thesis
    using that example_port_unprivileged by (auto simp: sockaddr_def loopback_address_def)
qed

text \<open>The port is free, and another one is left for a socket that is not bound.\<close>

definition ports_free :: "byte_order \<Rightarrow> int \<Rightarrow> u32 \<Rightarrow> net \<Rightarrow> bool" where
  "ports_free e ty random v \<longleftrightarrow> net_free v ty (example_address e random) \<and>
     (\<exists>h. ephemeral e h \<and> h \<noteq> example_address e random \<and> net_free v ty h)"

text \<open>What a step leaves free of the addresses for streams.\<close>

definition keeps_free :: "net \<Rightarrow> net \<Rightarrow> bool" where
  "keeps_free v v' \<longleftrightarrow> (\<forall>h. net_free v SOCK_STREAM h \<longrightarrow> net_free v' SOCK_STREAM h)"

lemma keeps_free_close: "keeps_free v v' \<Longrightarrow> T \<subseteq> nt_taken v' \<Longrightarrow> keeps_free v (net_close n T v')"
  by (simp add: keeps_free_def net_free_close)

lemma keeps_free_ports: "keeps_free v v' \<Longrightarrow> ports_free e SOCK_STREAM random v \<Longrightarrow> ports_free e SOCK_STREAM random v'"
  by (auto simp: keeps_free_def ports_free_def)

text \<open>Two datagram sockets, \<open>n1\<close> bound to \<open>a\<close> and \<open>n2\<close> new: a datagram each way.\<close>

definition two_sockets :: "int \<Rightarrow> int \<Rightarrow> bytes \<Rightarrow> net \<Rightarrow> bool" where
  "two_sockets n1 n2 a v \<longleftrightarrow> n1 \<noteq> n2 \<and> {n1, n2} \<subseteq> set (nt_live v) \<and> snd (nt_kind v n1) = SOCK_DGRAM \<and> snd (nt_kind v n2) = SOCK_DGRAM \<and>
     net_owner v SOCK_DGRAM a = Some n1 \<and> nt_name v n1 \<noteq> None \<and> nt_name v n2 = None \<and> nt_queue v n1 = [] \<and> nt_queue v n2 = [] \<and>
     nt_peer v n1 = None \<and> nt_peer v n2 = None"

lemma sock_types [simp]: "SOCK_STREAM \<noteq> SOCK_DGRAM" "SOCK_DGRAM \<noteq> SOCK_STREAM"
  by (simp_all add: SOCK_STREAM_def SOCK_DGRAM_def)

context loopback
begin

lemma runs_scoped0:
  "constructs V ds {} v c Q \<Longrightarrow> (\<And>d n v'. Q d n v' \<Longrightarrow> runs V ((d, n) # ds) {} v' (m d) R) \<Longrightarrow>
   (\<And>x n T v'. R x v' \<Longrightarrow> T \<subseteq> nt_taken v' \<Longrightarrow> R x (net_close n T v')) \<Longrightarrow>
   runs V ds {} v (bind c (\<lambda>d. scoped K d (m d))) R"
  using runs_scoped [of ds "{}" v c Q "{}" m R] by simp

lemma runs_recv_hd:
  assumes "(d, n) \<in> set ds" "n \<in> set (nt_live v)" "snd (nt_kind v n) = SOCK_DGRAM"
    and "nt_queue v n \<noteq> []" "datagram_ok (fst (hd (nt_queue v n)))" "length (snd (hd (nt_queue v n))) \<le> 128"
    and "\<And>g. dg_payload g = fst (hd (nt_queue v n)) \<Longrightarrow> Address_bytes (dg_source_address g) = snd (hd (nt_queue v n)) \<Longrightarrow>
      Q g (net_dequeue n v)"
  shows "runs V ds {} v (UDPSocket_recv N d 65536) Q"
  using assms by (intro runs_recv [where q = "tl (nt_queue v n)", OF assms(1,2,3)]) (auto simp: datagram_ok_def)

end

text \<open>The exchange of the first example: a datagram to \<open>a\<close> and one back to its source.\<close>

lemma send_fields:
  "nt_queue (net_send n h m data v) = (nt_queue v)(m := nt_queue v m @ [(data, h)])" "nt_peer (net_send n h m data v) = nt_peer v"
  "nt_name (net_send n h m data v) = (if nt_name v n = None then (nt_name v)(n \<mapsto> h) else nt_name v)"
  by (simp_all add: net_ops)

lemma dgram_fields:
  "nt_queue (net_dequeue n v) = (nt_queue v)(n := tl (nt_queue v n))" "nt_peer (net_dequeue n v) = nt_peer v" "nt_name (net_dequeue n v) = nt_name v"
  "nt_queue (net_set_peer n a v) = nt_queue v" "nt_peer (net_set_peer n a v) = (nt_peer v)(n \<mapsto> a)" "nt_name (net_set_peer n a v) = nt_name v"
  by (simp_all add: net_ops)

context loopback
begin

lemma runs_exchange:
  assumes two: "two_sockets n1 n2 (Address_bytes a) v" and h: "ephemeral e h0" "net_free v SOCK_DGRAM h0"
    and ds: "(d1, n1) \<in> set ds" "(d2, n2) \<in> set ds"
  shows "runs V ds {} v
    (bind (UDPSocket_sendto N d2 a (BufferViewList_of_view (string_bytes ''hi there''))) (\<lambda>_.
     bind (UDPSocket_recv N d1 65536) (\<lambda>recvd.
     bind (Socket_connect N d1 (dg_source_address recvd)) (\<lambda>_.
     bind (UDPSocket_send N d1 (BufferViewList_of_view (string_bytes ''hi yourself''))) (\<lambda>_.
     bind (UDPSocket_recv N d2 65536) (\<lambda>recvd2.
       check_received (dg_payload recvd) (dg_payload recvd2))))))) (\<lambda>_ v'. keeps_free v v')"
proof (rule runs_seq, rule runs_sendto [OF ds(2), where m = n1], goal_cases)
  case 1
  show ?case using two h by (auto simp: can_send_def two_sockets_def net_target_def BufferViewList_of_view_def)
next
  case (2 h)
  note two = two [unfolded two_sockets_def]
  have h: "length h \<le> 128" "net_free v SOCK_DGRAM h" using 2 two by auto
  define v1 where "v1 = net_send n2 h n1 (string_bytes ''hi there'') v"
  have v1: "nt_queue v1 = (nt_queue v)(n1 := [(string_bytes ''hi there'', h)])" "nt_peer v1 = nt_peer v"
    "nt_name v1 = (nt_name v)(n2 \<mapsto> h)" "nt_live v1 = nt_live v" "nt_kind v1 = nt_kind v"
    using two by (simp_all add: v1_def send_fields)
  have owner: "net_owner v1 SOCK_DGRAM h = Some n2"
    using net_owner_bind [of v n2 h] two h(2) by (simp add: v1_def net_autobind_def)
  have kept: "net_free v1 SOCK_STREAM x = net_free v SOCK_STREAM x" for x
    using two by (simp add: v1_def net_autobind_def net_free_bind_other)
  define v3 where "v3 = net_set_peer n1 h (net_dequeue n1 v1)"
  have v3: "nt_queue v3 n2 = []" "nt_peer v3 n1 = Some h" "nt_peer v3 n2 = None" "nt_name v3 n1 \<noteq> None" "nt_live v3 = nt_live v"
    "nt_kind v3 = nt_kind v" "net_owner v3 SOCK_DGRAM h = Some n2"
    using two v1 owner by (auto simp: v3_def dgram_fields)
  have target: "net_target n1 None v3 = Some n2" by (simp add: net_target_def v3)
  have can: "can_send e n1 None n2 (BufferViewList_of_view (string_bytes ''hi yourself'')) v3"
    using two v3 target by (auto simp: can_send_def BufferViewList_of_view_def)
  show ?case
    unfolding v1_def [symmetric] concat_view
  proof (rule runs_seq, rule runs_recv_hd [OF ds(1)], goal_cases)
    case (6 g)
    then have src: "Address_bytes (dg_source_address g) = h" "dg_payload g = string_bytes ''hi there''" using v1 by simp_all
    show ?case
    proof (rule runs_seq, rule runs_connect_dgram [OF ds(1)], goal_cases)
      case 5
      show ?case
        unfolding src(1) v3_def [symmetric]
      proof (rule runs_seq, rule runs_send [OF ds(1) can], rule runs_seq, rule runs_recv_hd [OF ds(2)], goal_cases)
        case (6 h' g')
        then have "dg_payload g' = string_bytes ''hi yourself''" using v3 by (simp add: send_fields)
        then show ?case
          using src(2) v3(4,6) kept two
          by (intro runs_check_received) (auto simp: keeps_free_def net_autobind_def v3_def)
      qed (use two v3 in \<open>auto simp: send_fields\<close>)
    qed (use two v1 owner src in \<open>auto simp: dgram_fields\<close>)
  qed (use two v1 h in auto)
qed

lemma runs_example_1:
  assumes "numeric_resolver e R" "room_for 2 v" "ports_free e SOCK_DGRAM random v"
  shows "runs V [] {} v (socket_example_1 K N R random) (\<lambda>_ v'. keeps_free v v')"
proof -
  obtain a where a: "Address_of_ip R ''127.0.0.1'' (example_port random) = Inr a" "Address_bytes a = example_address e random"
    "loopback_address e (Address_bytes a)" by (rule example_address_resolved [OF assms(1)])
  obtain h where h: "ephemeral e h" "h \<noteq> Address_bytes a" "net_free v SOCK_DGRAM h" and free: "net_free v SOCK_DGRAM (Address_bytes a)"
    using assms(3) a(2) by (auto simp: ports_free_def)
  let ?dgram = "(uint AF_INET, SOCK_DGRAM)"
  have room: "room_for 1 v" using room_for_mono [OF assms(2)] by simp
  show ?thesis
    unfolding socket_example_1_def literal_views Let_def a(1) UDPSocket_new_def
  proof (rule runs_scoped0 [OF constructs_socket], simp, rule room, simp, elim conjE, goal_cases)
    case (1 d1 n1 v1)
    have room1: "room_for 1 v1" using 1 assms(2) by (simp add: numeral_2_eq_2)
    have v1: "n1 \<in> set (nt_live v1)" "nt_kind v1 n1 = ?dgram" "nt_phase v1 n1 = Fresh" "net_free v1 SOCK_DGRAM (Address_bytes a)"
      "net_free v1 SOCK_DGRAM h" "nt_name v1 n1 = None"
      using 1 free h by (auto simp: net_free_open) (simp_all add: net_open_def)
    define v2 where "v2 = net_bind n1 (Address_bytes a) v1"
    have v2: "net_owner v2 SOCK_DGRAM (Address_bytes a) = Some n1" "net_free v2 SOCK_DGRAM h" "room_for 1 v2" "nt_live v2 = n1 # nt_live v"
      "nt_queue v2 n1 = []" "nt_peer v2 n1 = None" "nt_name v2 n1 \<noteq> None" "snd (nt_kind v2 n1) = SOCK_DGRAM"
      using net_owner_bind [of v1 n1 "Address_bytes a"] v1 h(2) room1 1
      by (auto simp: v2_def net_free_bind_other) (simp_all add: net_bind_def net_open_def)
    have kept: "keeps_free v v2" using 1 v1(2) by (simp add: v2_def keeps_free_def net_free_bind_other net_free_open)
    show ?case
    proof (rule runs_seq, rule runs_lift [OF refl], rule runs_seq, rule runs_bind_address [where n = n1], goal_cases)
      case 7
      show ?case
        unfolding v2_def [symmetric]
      proof (rule runs_scoped0 [OF constructs_socket], goal_cases)
        case (4 d2 n2 v3)
        then have ne: "n2 \<noteq> n1" "n2 \<notin> set (nt_live v2)" and v3: "v3 = net_open n2 ?dgram v2" by auto
        have "net_owner v3 SOCK_DGRAM (Address_bytes a) = Some n1" using ne v2(1) by (simp add: v3 net_owner_open)
        then have two: "two_sockets n1 n2 (Address_bytes a) v3"
          unfolding two_sockets_def using ne v2 by (auto simp: v3) (simp_all add: net_open_def)
        have "net_free v3 SOCK_DGRAM h" "keeps_free v v3" using v2(2) ne kept by (simp_all add: v3 net_free_open keeps_free_def)
        then show ?case
          by (intro runs_seq runs_lift [OF refl] runs_mono [OF runs_exchange [OF two h(1)]]) (auto simp: keeps_free_def)
      next
        case (5 x n T v')
        then show ?case using keeps_free_close by blast
      qed (use v2 in auto)
    qed (use v1 a in auto)
  next
    case (2 x n T v')
    then show ?case using keeps_free_close by blast
  qed
qed

end

lemma stream_fields:
  "nt_link (net_take n k v) = nt_link v" "nt_inbox (net_take n k v) = (nt_inbox v)(n := drop k (nt_inbox v n))"
  "nt_link (net_close n T v) = nt_link v" "nt_inbox (net_close n T v) = nt_inbox v"
  "nt_inbox (net_deliver m x v) = (nt_inbox v)(m := nt_inbox v m @ x)"
  by (simp_all add: net_ops)

text \<open>The two ends of a stream with nothing on the way.\<close>

definition joined :: "int \<Rightarrow> int \<Rightarrow> net \<Rightarrow> bool" where
  "joined n m v \<longleftrightarrow> n \<noteq> m \<and> stream_to n m v \<and> stream_to m n v \<and> nt_inbox v n = [] \<and> nt_inbox v m = []"

lemma stream_to_frame:
  "stream_to n m (net_deliver i x v) = stream_to n m v" "stream_to n m (net_take i k v) = stream_to n m v"
  by (simp_all add: stream_to_def stream_fields)

context loopback
begin

text \<open>\<open>n\<close> writes and \<open>m\<close> reads, and the other way round; without faults both have all and nothing is left.\<close>

lemma runs_conversation:
  assumes j: "joined n m v" and ds: "(d, n) \<in> set ds" "(d', m) \<in> set ds"
    and fin: "\<And>recvd recvd2 v'. (\<not> nt_faults v \<Longrightarrow> recvd = string_bytes ''hi there'' \<and> recvd2 = string_bytes ''hi yourself'' \<and> nt_inbox v' m = []) \<Longrightarrow>
      stream_to n m v' \<Longrightarrow> nt_live v' = nt_live v \<Longrightarrow> nt_faults v' = nt_faults v \<Longrightarrow> runs V ds {} v' (c recvd recvd2) R"
  shows "runs V ds {} v
    (bind (FileDescriptor_write_string K d (string_bytes ''hi there'') True) (\<lambda>_.
     bind (FileDescriptor_read K d' size_max) (\<lambda>recvd.
     bind (FileDescriptor_write_string K d' (string_bytes ''hi yourself'') True) (\<lambda>_.
     bind (FileDescriptor_read K d size_max) (\<lambda>recvd2. c recvd recvd2))))) R"
proof (rule runs_seq, rule runs_write [OF ds(1), where m = m], goal_cases)
  case (5 t)
  let ?v1 = "net_deliver m (string_bytes ''hi there'') v"
  have v1: "nt_inbox ?v1 m = string_bytes ''hi there''" "nt_inbox ?v1 n = []" using j by (simp_all add: joined_def stream_fields)
  show ?case
  proof (rule runs_seq, rule runs_read [OF ds(2)], goal_cases)
    case k: (5 k)
    let ?v2 = "net_take m k ?v1" and ?v3 = "net_deliver n (string_bytes ''hi yourself'') (net_take m k ?v1)"
    have v3: "nt_inbox ?v3 n = string_bytes ''hi yourself''" "nt_inbox ?v3 m = drop k (string_bytes ''hi there'')"
      using j v1 by (simp_all add: joined_def stream_fields)
    show ?case
    proof (rule runs_seq, rule runs_write [OF ds(2), where m = n], goal_cases)
      case (5 t)
      show ?case
      proof (rule runs_seq, rule runs_read [OF ds(1)], goal_cases)
        case k': (5 k')
        show ?case
          unfolding v1 v3
        proof (rule fin, goal_cases)
          case 1
          then have "k = length (string_bytes ''hi there'')" "k' = length (string_bytes ''hi yourself'')" using k k' v1 v3 by simp_all
          then show ?case using j v3 by (simp add: joined_def stream_fields)
        qed (use j in \<open>auto simp: joined_def stream_to_frame\<close>)
      qed (use j v3 in \<open>auto simp: joined_def stream_to_def string_bytes_def\<close>)
    qed (use j in \<open>auto simp: joined_def stream_to_frame\<close>, use j in \<open>auto simp: joined_def stream_to_def stream_fields\<close>)
  qed (use j v1 in \<open>auto simp: joined_def stream_to_def string_bytes_def\<close>)
qed (use j in \<open>auto simp: joined_def stream_to_def\<close>)

end

context loopback
begin

lemma runs_example_2:
  assumes "numeric_resolver e R" "room_for 3 v" "ports_free e SOCK_STREAM random v"
  shows "runs V [] {} v (socket_example_2 K N R random) (\<lambda>_ _. True)"
proof -
  obtain a where a: "Address_of_ip R ''127.0.0.1'' (example_port random) = Inr a" "Address_bytes a = example_address e random"
    "loopback_address e (Address_bytes a)" by (rule example_address_resolved [OF assms(1)])
  obtain h where h: "ephemeral e h" "h \<noteq> Address_bytes a" "net_free v SOCK_STREAM h" and free: "net_free v SOCK_STREAM (Address_bytes a)"
    using assms(3) a(2) by (auto simp: ports_free_def)
  let ?stream = "(uint AF_INET, SOCK_STREAM)"
  have room: "room_for 1 v" using room_for_mono [OF assms(2)] by simp
  show ?thesis
    unfolding socket_example_2_def write_literals Let_def a(1) TCPSocket_new_def
  proof (rule runs_scoped0 [OF constructs_socket], simp, rule room, simp, elim conjE, goal_cases)
    case (1 d1 n1 v1)
    have v1: "n1 \<in> set (nt_live v1)" "nt_kind v1 n1 = ?stream" "nt_phase v1 n1 = Fresh" "net_free v1 SOCK_STREAM (Address_bytes a)"
      "net_free v1 SOCK_STREAM h" "nt_name v1 n1 = None" "room_for 2 v1" "nt_backlog v1 n1 = []"
      using 1 free h assms(2) by (auto simp: net_free_open eval_nat_numeral) (simp_all add: net_open_def)
    define v2 where "v2 = net_listen n1 1 (net_bind n1 (Address_bytes a) v1)"
    have v2: "net_owner v2 SOCK_STREAM (Address_bytes a) = Some n1" "net_free v2 SOCK_STREAM h" "room_for 2 v2" "nt_live v2 = n1 # nt_live v"
      "nt_phase v2 n1 = Listening 1" "nt_backlog v2 n1 = []" "nt_kind v2 n1 = ?stream"
      using net_owner_bind [of v1 n1 "Address_bytes a"] v1 h(2) 1
      by (auto simp: v2_def net_free_bind_other) (simp_all add: net_bind_def net_listen_def)
    show ?case
    proof (rule runs_seq, rule runs_lift [OF refl], rule runs_seq, rule runs_bind_address [where n = n1], goal_cases)
      case 7
      show ?case
      proof (rule runs_seq, rule runs_listen [where n = n1], goal_cases)
        case 5
        show ?case
          unfolding v2_def [symmetric]
        proof (rule runs_scoped0 [OF constructs_socket], goal_cases)
          case (4 d2 n2 v3)
          then have ne: "n2 \<noteq> n1" "n2 \<notin> set (nt_live v2)" and v3: "v3 = net_open n2 ?stream v2" by auto
          have v3': "net_owner v3 SOCK_STREAM (Address_bytes a) = Some n1" "net_free v3 SOCK_STREAM h" "room_for 1 v3"
            "nt_phase v3 n1 = Listening 1" "nt_backlog v3 n1 = []" "nt_phase v3 n2 = Fresh" "nt_kind v3 n2 = ?stream" "nt_kind v3 n1 = ?stream"
            using ne v2 by (auto simp: v3 net_owner_open net_free_open eval_nat_numeral) (simp_all add: net_open_def)
          show ?case
          proof (rule runs_seq, rule runs_lift [OF refl], rule runs_seq, rule runs_connect_stream [where n = n2 and l = n1 and b = 1], goal_cases)
            case (11 h)
            define v4 where "v4 = net_queue_up n2 n1 (net_autobind n2 h v3)"
            have v4: "nt_backlog v4 n1 = [n2]" "nt_kind v4 n1 = ?stream" "nt_kind v4 n2 = ?stream" "room_for 1 v4" "nt_phase v4 n1 = Listening 1"
              "n1 \<in> set (nt_live v4)" "n2 \<in> set (nt_live v4)" "nt_inbox v4 n2 = []"
              using v3' ne by (auto simp: v4_def v3 v2) (simp_all add: net_ops)
            show ?case
              unfolding v4_def [symmetric]
            proof (rule runs_scoped0 [OF constructs_accept [where d = d1 and n = n1]], goal_cases)
              case (7 d3 n3 v5)
              then have ne3: "n3 \<noteq> n1" "n3 \<noteq> n2" and v5: "v5 = net_accept n1 n3 v4" by auto
              have live: "set (nt_live v5) = insert n3 (set (nt_live v4))" using v4 by (simp add: v5 net_accept_def)
              have j: "joined n3 n2 v5"
                unfolding joined_def stream_to_def using ne ne3 v4 live by (simp add: v5 net_accept_def) (simp add: net_join_def net_open_def)
              show ?case
              proof (rule runs_conversation [OF j], simp, simp, goal_cases)
                case (1 recvd recvd2 v6)
                show ?case
                proof (rule runs_seq, rule runs_close [where n = n1], simp, use 1 v4 live in simp,
                    rule runs_seq, rule runs_close [where n = n2], simp, use 1 v4 live ne in simp,
                    rule runs_seq, rule runs_shutdown [where n = n3 and m = n2], goal_cases)
                  case (5 T T')
                  then show ?case using 1 by (intro runs_check_received) auto
                qed (use 1 ne3 live in \<open>auto simp: stream_to_def stream_fields\<close>)
              qed
            qed (use v4 in auto)
          qed (use v3' h a v3 in auto)
        qed (use v2 room_for_mono [OF v2(3), of 1] in auto)
      qed (use v1 in \<open>auto simp: net_bind_def\<close>)
    qed (use v1 a in auto)
  qed simp
qed

end

context loopback
begin

lemma runs_pipes:
  assumes "0 \<le> a" "0 \<le> b" "nt_kind v a = (uint AF_UNIX, SOCK_STREAM)" "nt_kind v b = (uint AF_UNIX, SOCK_STREAM)" "joined a b v"
  shows "runs V [] {a, b} v
    (bind (bind (FileDescriptor_new a) (LocalStreamSocket_of_fd K N)) (\<lambda>pipe1. scoped K pipe1 (
     bind (bind (FileDescriptor_new b) (LocalStreamSocket_of_fd K N)) (\<lambda>pipe2. scoped K pipe2 (
     bind (FileDescriptor_write_string K pipe1 (string_bytes ''hi there'') True) (\<lambda>_.
     bind (FileDescriptor_read K pipe2 size_max) (\<lambda>recvd.
     bind (FileDescriptor_write_string K pipe2 (string_bytes ''hi yourself'') True) (\<lambda>_.
     bind (FileDescriptor_read K pipe1 size_max) (\<lambda>recvd2.
       check_received recvd recvd2))))))))) (\<lambda>_ _. True)"
proof -
  have of_fd: "LocalStreamSocket_of_fd K N = (\<lambda>d. Socket_of_fd K N d (uint AF_UNIX) SOCK_STREAM)"
    by (simp add: LocalStreamSocket_of_fd_def fun_eq_iff)
  have sets: "{a, b} = {a} \<union> ({b} \<union> {})" by auto
  have ab: "a \<noteq> b" "a \<in> set (nt_live v)" "b \<in> set (nt_live v)" using assms(5) by (auto simp: joined_def stream_to_def)
  show ?thesis
    unfolding sets of_fd
  proof (rule runs_scoped [OF constructs_of_fd, where R = "\<lambda>_ _. True"], goal_cases)
    case (5 d1 n1 v1)
    then have v1: "n1 = a" "v1 = v" by auto
    show ?case
    proof (rule runs_scoped [OF constructs_of_fd, where R = "\<lambda>_ _. True"], goal_cases)
      case (5 d2 n2 v2)
      then have v2: "n2 = b" "v2 = v" using v1 by auto
      show ?case
        unfolding v2 v1 by (rule runs_conversation [OF assms(5)], simp, simp, rule runs_check_received) auto
    qed (use assms v1 ab in auto)
  qed (use assms ab in auto)
qed

text \<open>After \<open>socketpair\<close> both descriptors are open; both are closed if the example returns.\<close>

lemma example_3:
  assumes "room_for 2 (V (mc_kernel s))"
  shows "case socket_example_3 K N P s of
      (Inr _, s') \<Rightarrow> set (nt_live (V (mc_kernel s'))) = set (nt_live (V (mc_kernel s)))
    | (Inl e, s') \<Rightarrow> failed (V (mc_kernel s)) e"
proof -
  let ?kind = "(uint AF_UNIX, SOCK_STREAM)"
  obtain r a b k where call: "P (uint AF_UNIX) SOCK_STREAM 0 (mc_kernel s) = ((r, a, b), k)" by (metis prod.exhaust)
  note ok = socketpair [OF call]
  note pair = kernel_call_eq [where f = "P (uint AF_UNIX) SOCK_STREAM 0" and s = s, OF call]
  note run = socket_example_3_def [unfolded write_literals] bind_Inr [where m = "kernel_call (P (uint AF_UNIX) SOCK_STREAM 0)" and s = s, OF pair] prod.case
  show ?thesis
  proof (cases "fst r < 0")
    case True
    then have "nt_faults (V (mc_kernel s))" using ok assms by (simp add: call_ok_def)
    then show ?thesis using True unfolding run by (simp add: bind_def SystemCall_call_ok [OF ok] failed_def)
  next
    case False
    then have r: "a \<noteq> b" "{a, b} \<inter> set (nt_live (V (mc_kernel s))) = {}" "0 \<le> a" "0 \<le> b"
      "V k = net_join a b (net_open a ?kind (net_open b ?kind (V (mc_kernel s))))" using ok by (auto simp: call_ok_def)
    have sys: "bind (lift (SystemCall ''socketpair'' r 0)) f = f (fst r)" for f :: "int \<Rightarrow> ('w machine, unit) action"
      using False by (simp add: bind_def fun_eq_iff SystemCall_call_ok [OF ok])
    have j: "joined a b (V k)" using r by (simp add: joined_def stream_to_def) (simp add: net_join_def net_open_def)
    note pipes = runs_pipes [OF r(3,4) _ _ j, unfolded runs_def, THEN spec [of _ "s\<lparr>mc_kernel := k\<rparr>"], THEN mp]
    show ?thesis
      unfolding run sys using pipes r
      by (auto simp: owns_def foreign_def failed_def Let_def split: prod.splits sum.splits)
  qed
qed

end

section \<open>Properties\<close>

lemma owns_nothing [simp]: "owns V [] s"
  by (simp add: owns_def)

lemma foreign_Nil [simp]: "foreign [] v = set (nt_live v)"
  by (simp add: foreign_def)

lemma main_result_failed: "failed v e \<Longrightarrow> main_result (Inl e) = Exited EXIT_FAILURE"
  by (cases e) (auto simp: failed_def main_result_def)

context loopback
begin

lemma example_outcome:
  assumes "runs V [] {} (V (mc_kernel s)) m Q" "m s = (res, s')"
  shows "set (nt_live (V (mc_kernel s'))) = set (nt_live (V (mc_kernel s)))"
    and "res = Inl err \<Longrightarrow> failed (V (mc_kernel s)) err" and "res = Inr x \<Longrightarrow> nt_faults (V (mc_kernel s')) = nt_faults (V (mc_kernel s)) \<and> Q x (V (mc_kernel s'))"
  using assms(1) [unfolded runs_def, THEN spec [of _ s]] assms(2) by (auto simp: Let_def)

lemma socket_dt:
  assumes "numeric_resolver e R" "room_for 3 (V (mc_kernel s))"
    and ports: "ports_free e SOCK_DGRAM random1 (V (mc_kernel s))" "ports_free e SOCK_STREAM random2 (V (mc_kernel s))"
    and run: "socket_dt_main K N P R random1 random2 s = (how, s')"
  shows "how = Exited EXIT_SUCCESS \<and> set (nt_live (V (mc_kernel s'))) = set (nt_live (V (mc_kernel s))) \<or>
    how = Exited EXIT_FAILURE \<and> nt_faults (V (mc_kernel s))"
proof -
  obtain res1 s1 where e1: "socket_example_1 K N R random1 s = (res1, s1)" by (metis prod.exhaust)
  note o1 = example_outcome [OF runs_example_1 [OF assms(1) room_for_mono [OF assms(2)] ports(1)] e1]
  show ?thesis
  proof (cases res1)
    case (Inl e)
    then show ?thesis
      using o1(2) run e1 main_result_failed by (auto simp: socket_dt_main_def bind_def failed_def)
  next
    case r1: (Inr u)
    have live1: "set (nt_live (V (mc_kernel s1))) = set (nt_live (V (mc_kernel s)))"
      and f1: "nt_faults (V (mc_kernel s1)) = nt_faults (V (mc_kernel s))"
      and free: "ports_free e SOCK_STREAM random2 (V (mc_kernel s1))" using o1(1,3) r1 keeps_free_ports [OF _ ports(2)] by simp_all
    then have room: "room_for 3 (V (mc_kernel s1))" using assms(2) by (simp add: room_for_def)
    obtain res2 s2 where e2: "socket_example_2 K N R random2 s1 = (res2, s2)" by (metis prod.exhaust)
    note o2 = example_outcome [OF runs_example_2 [OF assms(1) room free] e2]
    show ?thesis
    proof (cases res2)
      case (Inl e)
      then show ?thesis
        using o2(2) run e1 e2 r1 f1 main_result_failed by (auto simp: socket_dt_main_def bind_def failed_def)
    next
      case r2: (Inr u')
      have live2: "set (nt_live (V (mc_kernel s2))) = set (nt_live (V (mc_kernel s1)))"
        and f2: "nt_faults (V (mc_kernel s2)) = nt_faults (V (mc_kernel s1))" using o2(1,3) r2 by simp_all
      then have "room_for 2 (V (mc_kernel s2))" using room by (simp add: room_for_def)
      note o3 = example_3 [OF this]
      obtain res3 where e3: "socket_example_3 K N P s2 = (res3, s')"
        using run e1 e2 r1 r2 by (auto simp: socket_dt_main_def bind_def split: prod.splits)
      show ?thesis
        using o3 e3 run e1 e2 r1 r2 live1 live2 f1 f2 main_result_failed
        by (cases res3) (auto simp: socket_dt_main_def bind_def failed_def main_result_def)
    qed
  qed
qed

end

text \<open>
  Claim C17. The socket examples of the documentation work: on a host whose kernel implements the
  loopback network (where a connection is refused unless a socket listens at the address, and an address
  in use cannot be bound), with room for three descriptors, the drawn ports free and another one left
  for the sockets that are not bound, however writes are cut, every check of \<open>socket_dt\<close> succeeds, so that
  \<open>main\<close> ends with \<open>EXIT_SUCCESS\<close> and has closed every descriptor it opened. It returns \<open>EXIT_FAILURE\<close> only on
  a host with faults, where calls may fail and reads may be short, and never does anything undefined.
  However they end, the first two examples leave the same descriptors open as before.
\<close>

theorem socket_dt_correct:
  assumes "loopback e K N P V" and "numeric_resolver e R" and "room_for 3 (V (mc_kernel s))"
    and "ports_free e SOCK_DGRAM random1 (V (mc_kernel s))" and "ports_free e SOCK_STREAM random2 (V (mc_kernel s))"
  shows "(case socket_dt_main K N P R random1 random2 s of (how, s') \<Rightarrow>
      how = Exited EXIT_SUCCESS \<and> set (nt_live (V (mc_kernel s'))) = set (nt_live (V (mc_kernel s))) \<or>
      how = Exited EXIT_FAILURE \<and> nt_faults (V (mc_kernel s))) \<and>
    (case socket_example_1 K N R random1 s of (_, s') \<Rightarrow> set (nt_live (V (mc_kernel s'))) = set (nt_live (V (mc_kernel s)))) \<and>
    (case socket_example_2 K N R random2 s of (_, s') \<Rightarrow> set (nt_live (V (mc_kernel s'))) = set (nt_live (V (mc_kernel s))))"
proof (intro conjI)
  show "case socket_dt_main K N P R random1 random2 s of (how, s') \<Rightarrow>
      how = Exited EXIT_SUCCESS \<and> set (nt_live (V (mc_kernel s'))) = set (nt_live (V (mc_kernel s))) \<or>
      how = Exited EXIT_FAILURE \<and> nt_faults (V (mc_kernel s))"
    using loopback.socket_dt [OF assms] by (auto split: prod.split)
  show "case socket_example_1 K N R random1 s of (_, s') \<Rightarrow> set (nt_live (V (mc_kernel s'))) = set (nt_live (V (mc_kernel s)))"
    using loopback.example_outcome(1) [OF assms(1) loopback.runs_example_1 [OF assms(1,2) room_for_mono [OF assms(3)] assms(4)]]
    by (auto split: prod.split)
  show "case socket_example_2 K N R random2 s of (_, s') \<Rightarrow> set (nt_live (V (mc_kernel s'))) = set (nt_live (V (mc_kernel s)))"
    using loopback.example_outcome(1) [OF assms(1) loopback.runs_example_2 [OF assms(1,2,3,5)]] by (auto split: prod.split)
qed

definition quiet_net :: net where
  "quiet_net = \<lparr>nt_faults = False, nt_live = [0, 1, 2], nt_kind = (\<lambda>_. (0, 0)), nt_phase = (\<lambda>_. Fresh), nt_name = Map.empty,
     nt_taken = {}, nt_peer = Map.empty, nt_queue = (\<lambda>_. []), nt_backlog = (\<lambda>_. []), nt_link = Map.empty, nt_inbox = (\<lambda>_. [])\<rparr>"

lemma quiet_net_free: "net_free quiet_net ty a"
  by (simp add: net_free_def net_owner_def quiet_net_def)

theorem socket_dt_correct_witness:
  "\<exists>s'. socket_dt_main net_calls (net_sockets Little_Endian) net_socketpair (numeric_only Little_Endian) 12345 678
      \<lparr>mc_heap = Map.empty, mc_refs = (\<lambda>_. 0), mc_next = 0, mc_kernel = quiet_net\<rparr> = (Exited EXIT_SUCCESS, s') \<and>
    set (nt_live (mc_kernel s')) = {0, 1, 2}"
proof -
  let ?s = "\<lparr>mc_heap = Map.empty, mc_refs = (\<lambda>_. 0), mc_next = 0, mc_kernel = quiet_net\<rparr>"
  have room: "room_for 3 (mc_kernel ?s)" by (simp add: room_for_def quiet_net_def)
  have spare: "ephemeral Little_Endian (inet_sockaddr Little_Endian 0x7F000001 40000)" by (auto simp: ephemeral_def intro!: exI [of _ 40000])
  have "inet_sockaddr Little_Endian 0x7F000001 40000 \<noteq> example_address Little_Endian 12345"
    "inet_sockaddr Little_Endian 0x7F000001 40000 \<noteq> example_address Little_Endian 678" by code_simp+
  then have ports: "ports_free Little_Endian SOCK_DGRAM 12345 (mc_kernel ?s)" "ports_free Little_Endian SOCK_STREAM 678 (mc_kernel ?s)"
    using spare by (auto simp: ports_free_def quiet_net_free)
  show ?thesis
    using socket_dt_correct [OF lo.loopback_axioms numeric_only_contract room ports]
    by (auto simp: quiet_net_def split: prod.splits)
qed

text \<open>
  \<open>address_dt\<close> with a resolver that handles numeric hosts as documented: if the name of the web
  server resolves to some IPv4 address with the port 443, it ends with \<open>EXIT_SUCCESS\<close> and prints nothing;
  if the resolver fails, it ends with \<open>EXIT_FAILURE\<close> after printing the resolver's own message.
\<close>

theorem address_dt_result:
  assumes "numeric_resolver e R"
    and "getaddrinfo R ''www.google.com'' ''https'' (make_hints AI_ALL (uint AF_INET)) = (gai, results)"
  shows "(gai \<noteq> 0 \<longrightarrow> address_dt_main M e R = (Exited EXIT_FAILURE,
      ''This test requires Internet access and working DNS.'' @ [CHR 0x0A] @
      ''Error: getaddrinfo(www.google.com, https): '' @ gai_strerror M gai @ [CHR 0x0A])) \<and>
    (gai = 0 \<and> (\<exists>ip more. results = (inet_sockaddr e ip 443, 16) # more) \<longrightarrow> address_dt_main M e R = (Exited EXIT_SUCCESS, ''''))"
proof -
  have c: "c_str ''www.google.com'' = ''www.google.com''" "c_str ''https'' = ''https''" by code_simp+
  have "dotted_quad 0x12470097 = ''18.71.0.151''" by code_simp
  then obtain d where d: "a_dns_server R = Inr d" "a_dns_server_numeric e d = Inr 0x12470097"
    using numeric_address [OF assms(1), of "0x12470097" 53] unfolding a_dns_server_def a_dns_server_numeric_def by auto
  note main = address_dt_main_def google_webserver_def Address_of_host_def Address_resolve_def c assms(2)
  have "address_dt_main M e R = (Exited EXIT_SUCCESS, '''')" if res: "gai = 0" "results = (inet_sockaddr e ip 443, 16) # more" for ip more
  proof -
    have len: "length (inet_sockaddr e ip 443) = 16" by (simp add: inet_sockaddr_def)
    define a where "a = \<lparr>ad_size = 16, ad_storage = inet_sockaddr e ip 443 @ replicate 112 0\<rparr>"
    have "getnameinfo R (ad_storage a) 16 (NI_NUMERICHOST + NI_NUMERICSERV) = (0, dotted_quad ip, string_of_nat (unat (443 :: u16)))"
      using assms(1) len unfolding numeric_resolver_def a_def by (auto dest!: spec [of _ ip] spec [of _ "443 :: u16"])
    then have "Address_port R a = Inr 443"
      using stoi_string_of_nat [of 443] by (simp add: Address_port_def Address_ip_port_def a_def)
    then show ?thesis
      using res len d by (simp add: main Address_of_sockaddr_def sizeof_sockaddr_storage_def a_def)
  qed
  moreover have "address_dt_main M e R = (Exited EXIT_FAILURE, ''This test requires Internet access and working DNS.'' @ [CHR 0x0A] @
      ''Error: getaddrinfo(www.google.com, https): '' @ gai_strerror M gai @ [CHR 0x0A])" if "gai \<noteq> 0"
    using that by (simp add: main)
  ultimately show ?thesis by blast
qed

text \<open>A resolver that also knows the name.\<close>

definition knows_google :: "byte_order \<Rightarrow> resolver" where
  "knows_google e = (numeric_only e)\<lparr>getaddrinfo := (\<lambda>node service hints.
     if node = ''www.google.com'' then (0, [(inet_sockaddr e 0x08080808 443, 16)])
     else getaddrinfo (numeric_only e) node service hints)\<rparr>"

lemma knows_google_contract: "numeric_resolver e (knows_google e)"
proof -
  have "parse_quad ''www.google.com'' = None" by code_simp
  then have "dotted_quad ip \<noteq> ''www.google.com''" for ip using parse_dotted_quad [of ip] by (metis option.distinct(1))
  then show ?thesis
    using numeric_only_contract [of e] unfolding numeric_resolver_def by (simp add: knows_google_def)
qed

theorem address_dt_result_witness:
  "address_dt_main \<lparr>strerror = (\<lambda>_. ''''), gai_strerror = (\<lambda>_. ''unknown'')\<rparr> Big_Endian (knows_google Big_Endian) = (Exited EXIT_SUCCESS, '''')"
proof -
  have "getaddrinfo (knows_google Big_Endian) ''www.google.com'' ''https'' (make_hints AI_ALL (uint AF_INET)) =
      (0, [(inet_sockaddr Big_Endian 0x08080808 443, 16)])" by (simp add: knows_google_def)
  from address_dt_result [OF knows_google_contract this] show ?thesis by blast
qed

end
