(* ===== verification/Tun_Device.thy ===== *)
theory Tun_Device
  imports Sockets
begin

unbundle bit_operations_syntax

text \<open>
  TUN and TAP devices: \<open>libsponge/util/tun.hh\<close> and \<open>tun.cc\<close>. \<open>open(2)\<close> and \<open>ioctl(2)\<close> are parameters.
\<close>

section \<open>The program\<close>

definition CLONEDEV :: string where "CLONEDEV = ''/dev/net/tun''"
definition O_RDWR :: int where "O_RDWR = 2"
definition TUNSETIFF :: int where "TUNSETIFF = 0x400454ca"
definition IFNAMSIZ :: nat where "IFNAMSIZ = 16"
definition IFF_TUN :: u16 where "IFF_TUN = 0x0001"
definition IFF_TAP :: u16 where "IFF_TAP = 0x0002"
definition IFF_NO_PI :: u16 where "IFF_NO_PI = 0x1000"

record ifreq =
  ifr_name :: bytes
  ifr_flags :: u16

record 'w tun_kernel =
  sys_open :: "string \<Rightarrow> int \<Rightarrow> 'w \<Rightarrow> (sys_result \<times> unit) \<times> 'w"
  sys_ioctl :: "int \<Rightarrow> int \<Rightarrow> ifreq \<Rightarrow> 'w \<Rightarrow> (sys_result \<times> unit) \<times> 'w"

text \<open>\<open>strncpy\<close>: the C string, cut after \<open>n\<close> bytes or filled up to \<open>n\<close> with null bytes.\<close>

definition strncpy :: "bytes \<Rightarrow> string \<Rightarrow> nat \<Rightarrow> bytes" where
  "strncpy dest src n = string_resize n (string_bytes (c_str src)) @ drop n dest"

definition tun_request :: "string \<Rightarrow> bool \<Rightarrow> ifreq" where
  "tun_request devname is_tun =
     (let tun_req = \<lparr>ifr_name = replicate IFNAMSIZ 0, ifr_flags = 0\<rparr>;
          tun_req = tun_req\<lparr>ifr_flags := (if is_tun then IFF_TUN else IFF_TAP) OR IFF_NO_PI\<rparr>;
          tun_req = tun_req\<lparr>ifr_name := strncpy (ifr_name tun_req) devname (IFNAMSIZ - 1)\<rparr>
      in tun_req\<lparr>ifr_name := (ifr_name tun_req)[IFNAMSIZ - 1 := 0]\<rparr>)"

definition TunTapFD_new ::
  "'w kernel \<Rightarrow> 'w tun_kernel \<Rightarrow> string \<Rightarrow> bool \<Rightarrow> ('w machine, FileDescriptor) action" where
  "TunTapFD_new K T devname is_tun =
     bind (kernel_call (sys_open T CLONEDEV O_RDWR)) (\<lambda>(r, _).
     bind (lift (SystemCall ''open'' r 0)) (\<lambda>fd.
     bind (FileDescriptor_new fd) (\<lambda>d.
       or_destroy K d
         (bind (fd_call ''ioctl'' d (\<lambda>n. sys_ioctl T n TUNSETIFF (tun_request devname is_tun))) (\<lambda>_. returns d)))))"

definition TunFD_new :: "'w kernel \<Rightarrow> 'w tun_kernel \<Rightarrow> string \<Rightarrow> ('w machine, FileDescriptor) action" where
  "TunFD_new K T devname = TunTapFD_new K T devname True"

definition TapFD_new :: "'w kernel \<Rightarrow> 'w tun_kernel \<Rightarrow> string \<Rightarrow> ('w machine, FileDescriptor) action" where
  "TapFD_new K T devname = TunTapFD_new K T devname False"

section \<open>Properties\<close>

lemma of_char_zero: "(of_char c :: u8) = 0 \<longleftrightarrow> c = CHR 0x00"
  by (cases c) (auto simp: of_char_def horner_sum_eq_sum)

lemma c_str_nonzero: "b \<in> set (string_bytes (c_str s)) \<Longrightarrow> b \<noteq> 0"
  by (auto simp: string_bytes_def c_str_def of_char_zero dest!: set_takeWhileD)

text \<open>The name in the request: 16 bytes, terminated, the device's name or its first 15 bytes.\<close>

lemma tun_request_name:
  "length (ifr_name (tun_request devname is_tun)) = 16 \<and> ifr_name (tun_request devname is_tun) ! 15 = 0 \<and>
   takeWhile (\<lambda>b. b \<noteq> 0) (ifr_name (tun_request devname is_tun)) = take 15 (string_bytes (c_str devname))"
proof -
  let ?c = "string_bytes (c_str devname)"
  have "ifr_name (tun_request devname is_tun) = (string_resize 15 ?c @ [0])[15 := 0]"
    by (simp add: tun_request_def strncpy_def IFNAMSIZ_def Let_def)
  also have "\<dots> = string_resize 15 ?c @ [0]" by (simp add: string_resize_def list_update_append)
  finally have resized: "ifr_name (tun_request devname is_tun) = string_resize 15 ?c @ [0]" .
  moreover have "length (string_resize 15 ?c) = 15" by (simp add: string_resize_def)
  ultimately have "length (ifr_name (tun_request devname is_tun)) = 16" "ifr_name (tun_request devname is_tun) ! 15 = 0"
    by (simp_all add: nth_append)
  moreover from resized have "ifr_name (tun_request devname is_tun) = take 15 ?c @ replicate (15 - length ?c) 0 @ [0]"
    by (simp add: string_resize_def)
  moreover have "takeWhile (\<lambda>b. b \<noteq> 0) (take 15 ?c @ replicate (15 - length ?c) 0 @ [0]) = take 15 ?c"
    by (subst takeWhile_append2) (auto dest: c_str_nonzero in_set_takeD simp: takeWhile_eq_Nil_iff hd_append)
  ultimately show ?thesis by simp
qed

text \<open>
  Claim C29. Opening a device hands the kernel a request whose name is exactly 16 bytes, terminated by a
  null byte whatever the length of the given name, and is the given name if that has at most 15 bytes. If
  the kernel accepts, the handle is the only one of the opened descriptor; if it refuses, its error is
  thrown and the descriptor is closed exactly once.
\<close>

theorem TunTapFD_new_cases:
  assumes "sys_open T ''/dev/net/tun'' 2 (mc_kernel s) = (((n, err), ()), k)" and "0 \<le> n" and "n < 2 ^ 31"
    and "sys_ioctl T n TUNSETIFF (tun_request devname is_tun) k = (((r, err'), ()), k')"
    and "- (2 ^ 31) \<le> r" and "r < 2 ^ 31" and "r < 0 \<Longrightarrow> err' \<noteq> 0" and "counts_closes K n closes"
  shows "length (ifr_name (tun_request devname is_tun)) = 16 \<and> ifr_name (tun_request devname is_tun) ! 15 = 0 \<and>
    takeWhile (\<lambda>b. b \<noteq> 0) (ifr_name (tun_request devname is_tun)) = take 15 (string_bytes (c_str devname)) \<and>
    (case TunTapFD_new K T devname is_tun s of
       (Inr d, s') \<Rightarrow> 0 \<le> r \<and> mc_kernel s' = k' \<and> mc_refs s' (internal_fd d) = 1 \<and>
         map_option fw_fd (mc_heap s' (internal_fd d)) = Some n
     | (Inl e, s') \<Rightarrow> r < 0 \<and> e = unix_error ''ioctl'' err' \<and> closes (mc_kernel s') = Suc (closes k') \<and>
         mc_heap s' (mc_next s) = None)"
proof -
  let ?d = "FileDescriptor (mc_next s)"
  let ?w = "\<lparr>fw_fd = n, fw_eof = False, fw_closed = False, fw_read_count = 0, fw_write_count = 0\<rparr>"
  define s0 where "s0 = s\<lparr>mc_kernel := k, mc_heap := (mc_heap s)(mc_next s \<mapsto> ?w),
    mc_refs := (mc_refs s)(mc_next s := 1), mc_next := mc_next s + 1\<rparr>"
  have live: "mc_heap s0 (internal_fd ?d) = Some ?w" "mc_refs s0 (mc_next s) = 1" "mc_kernel s0 = k" by (simp_all add: s0_def)
  have io: "fd_call ''ioctl'' ?d (\<lambda>n. sys_ioctl T n TUNSETIFF (tun_request devname is_tun)) s0 =
      (case SystemCall ''ioctl'' (r, err') 0 of
         Inl e \<Rightarrow> (Inl e, s0\<lparr>mc_kernel := k'\<rparr>) | Inr v \<Rightarrow> (Inr (v, ()), s0\<lparr>mc_kernel := k'\<rparr>))"
    by (rule fd_call_live [OF live(1)]) (simp add: live assms(4))
  have run: "TunTapFD_new K T devname is_tun s = or_destroy K ?d
      (bind (fd_call ''ioctl'' ?d (\<lambda>n. sys_ioctl T n TUNSETIFF (tun_request devname is_tun))) (\<lambda>_. returns ?d)) s0"
  proof -
    have "kernel_call (sys_open T CLONEDEV O_RDWR) s = (Inr ((n, err), ()), s\<lparr>mc_kernel := k\<rparr>)"
      by (rule kernel_call_eq) (simp add: CLONEDEV_def O_RDWR_def assms(1))
    moreover have "FileDescriptor_new n (s\<lparr>mc_kernel := k\<rparr>) = (Inr ?d, s0)"
      using assms(2) by (simp add: FileDescriptor_new_def bind_def FDWrapper_new_def s0_def)
    ultimately show ?thesis using assms(2,3) by (simp add: TunTapFD_new_def bind_Inr SystemCall_ok)
  qed
  obtain s1 where s1: "FileDescriptor_destroy K ?d (s0\<lparr>mc_kernel := k'\<rparr>) = (Inr (), s1)" "mc_heap s1 (mc_next s) = None"
    "closes (mc_kernel s1) = Suc (closes k')"
    using destroy_last [of "s0\<lparr>mc_kernel := k'\<rparr>" ?d ?w K closes] live assms(8) by auto
  show ?thesis
    using tun_request_name [of devname is_tun] s1 live assms(5-7)
    by (cases "r < 0") (simp_all add: run or_destroy_def catch_exception_def bind_def io SystemCall_failed SystemCall_ok)
qed

theorem TunTapFD_new_cases_witness:
  "\<exists>e s'. TunTapFD_new network_kernel
      \<lparr>sys_open = (\<lambda>_ _ w. (((4, 0), ()), w)), sys_ioctl = (\<lambda>_ _ _ w. (((- 1, 1), ()), w))\<rparr> ''tun144'' True
      (one_socket empty_network) = (Inl e, s') \<and> e = unix_error ''ioctl'' 1 \<and> nw_closes (mc_kernel s') = 1"
proof -
  let ?T = "\<lparr>sys_open = (\<lambda>_ _ w. (((4, 0), ()), w)), sys_ioctl = (\<lambda>_ _ _ w. (((- 1, 1), ()), w))\<rparr> :: network tun_kernel"
  have op: "sys_open ?T ''/dev/net/tun'' 2 (mc_kernel (one_socket empty_network)) = (((4, 0), ()), empty_network)"
    by (simp add: one_socket_def)
  have io: "sys_ioctl ?T 4 TUNSETIFF (tun_request ''tun144'' True) empty_network = (((- 1, 1), ()), empty_network)" by simp
  from TunTapFD_new_cases [OF op _ _ io _ _ _ network_contracts(5)] show ?thesis
    by (auto simp: empty_network_def split: prod.splits sum.splits)
qed

end
