(* ===== verification/Hexdump.thy ===== *)
theory Hexdump
  imports Text_Format
begin

text \<open>
  \<open>hexdump\<close> of \<open>libsponge/util/util.cc\<close>: the loop over the bytes with its two streams, and the page it
  prints, described line by line. Of the format state of \<open>cout\<close> the base and the fill character are kept;
  the other flags (\<open>showbase\<close>, \<open>uppercase\<close>, the adjustment) and a pending width are those of a new stream.
\<close>

section \<open>The program\<close>

text \<open>
  A \<open>std::stringstream\<close> built from a text, or given one with \<open>str\<close>, writes from the beginning of it:
  the position starts at 0, and the text is overwritten.
\<close>

record stringstream =
  ss_text :: string
  ss_pos :: nat

definition ss_of :: "string \<Rightarrow> stringstream" where
  "ss_of text_ini = \<lparr>ss_text = text_ini, ss_pos = 0\<rparr>"

definition ss_put :: "char \<Rightarrow> stringstream \<Rightarrow> stringstream" where
  "ss_put c ss = \<lparr>ss_text = take (ss_pos ss) (ss_text ss) @ [c] @ drop (Suc (ss_pos ss)) (ss_text ss), ss_pos = Suc (ss_pos ss)\<rparr>"

text \<open>\<open>isprint\<close> in the C locale.\<close>

definition isprint :: "u8 \<Rightarrow> bool" where
  "isprint b \<longleftrightarrow> 32 \<le> unat b \<and> unat b \<le> 126"

definition shown :: "u8 \<Rightarrow> char" where
  "shown b = (if isprint b then char_of (unat b) else CHR ''.'')"

text \<open>
  The loop. \<open>printed\<close> is an \<open>int\<close> that counts the bytes: incrementing it past its largest value is
  undefined behaviour, which comes before the \<open>unsigned\<close> index could wrap around.
\<close>

fun hexdump_loop ::
  "string \<Rightarrow> bytes \<Rightarrow> nat \<Rightarrow> stringstream \<Rightarrow> ostream \<Rightarrow> cpp_failure + (nat \<times> stringstream \<times> ostream)" where
  "hexdump_loop indent_string [] printed pchars cout = Inr (printed, pchars, cout)"
| "hexdump_loop indent_string (b # data) printed pchars cout =
     (let (pchars, cout) =
            (if printed mod 16 = 0 then
               let (pchars, cout) =
                     (if printed \<noteq> 0
                      then (ss_of '' '', chain [put_string ''    '', put_string (ss_text pchars), put_string [CHR 0x0A]] cout)
                      else (pchars, cout))
               in (pchars, chain [put_string indent_string, put_number 8 printed, put_string '':    ''] cout)
             else if printed mod 2 = 0 then (pchars, put_string '' '' cout)
             else (pchars, cout));
          cout = put_number 2 (unat b) cout;
          pchars = ss_put (shown b) pchars
      in if printed = 2 ^ 31 - 1 then Inl undefined_behaviour
         else hexdump_loop indent_string data (printed + 1) pchars cout)"

text \<open>\<open>std::string(n, c)\<close>; a \<open>size_t\<close> with the highest bit set is beyond \<open>max_size()\<close>.\<close>

definition string_of_char :: "size_t \<Rightarrow> char \<Rightarrow> cpp_failure + string" where
  "string_of_char n c = (if 2 ^ 63 \<le> unat n then Inl (length_error ''basic_string::_M_create'') else Inr (replicate (unat n) c))"

definition hexdump :: "bytes \<Rightarrow> size_t \<Rightarrow> ostream \<Rightarrow> cpp_failure + ostream" where
  "hexdump data indent cout =
     (let flags = os_hex cout
      in and_then (string_of_char indent (CHR '' '')) (\<lambda>indent_string.
         let cout = cout\<lparr>os_hex := True, os_fill := CHR ''0''\<rparr>
         in and_then (hexdump_loop indent_string data 0 (ss_of '' '') cout) (\<lambda>(printed, pchars, cout).
           let print_rem = (16 - printed mod 16) mod 16;
               cout = chain [put_string (replicate (2 * print_rem + print_rem div 2 + 4) (CHR '' '')),
                 put_string (ss_text pchars), put_string [CHR 0x0A], put_string [CHR 0x0A]] cout
           in Inr (cout\<lparr>os_hex := flags\<rparr>))))"

section \<open>The page\<close>

text \<open>
  A row shows up to 16 bytes: the offset in eight hexadecimal digits, the bytes in two digits each and
  a blank before every second one but the first, and, from a fixed column on, the characters.
\<close>

definition hex_byte :: "u8 \<Rightarrow> string" where
  "hex_byte b = pad_left (CHR ''0'') 2 (hex_of_nat (unat b))"

fun row_bytes :: "nat \<Rightarrow> bytes \<Rightarrow> string" where
  "row_bytes i [] = ''''"
| "row_bytes i (b # bs) = (if i \<noteq> 0 \<and> even i then '' '' else '''') @ hex_byte b @ row_bytes (Suc i) bs"

definition row :: "nat \<Rightarrow> nat \<Rightarrow> bytes \<Rightarrow> string" where
  "row indent offset bs =
     replicate indent (CHR '' '') @ pad_left (CHR ''0'') 8 (hex_of_nat offset) @ '':    '' @ row_bytes 0 bs"

definition gap :: "bytes \<Rightarrow> string" where
  "gap bs = replicate (let missing = 16 - length bs in 2 * missing + missing div 2 + 4) (CHR '' '')"

function rows :: "nat \<Rightarrow> nat \<Rightarrow> bytes \<Rightarrow> string" where
  "rows indent offset data =
     (if length data \<le> 16 then row indent offset data @ gap data @ map shown data @ [CHR 0x0A, CHR 0x0A]
      else row indent offset (take 16 data) @ gap (take 16 data) @ map shown (take 16 data) @ [CHR 0x0A] @
        rows indent (offset + 16) (drop 16 data))"
  by pat_completeness auto
termination by (relation "measure (\<lambda>(_, _, data). length data)") auto

declare rows.simps [simp del]

definition hexdump_page :: "nat \<Rightarrow> bytes \<Rightarrow> string" where
  "hexdump_page indent data = (if data = [] then ''     '' @ [CHR 0x0A, CHR 0x0A] else rows indent 0 data)"

section \<open>The loop row by row\<close>

lemma put_string_put_string [simp]: "put_string a (put_string b os) = put_string (b @ a) os"
  by (simp add: put_string_def)

lemma put_string_empty [simp]: "put_string '''' os = os"
  by (simp add: put_string_def)

lemma put_hex:
  "os_hex os \<Longrightarrow> os_fill os = CHR ''0'' \<Longrightarrow> put_number 2 (unat b) os = put_string (hex_byte b) os"
  "os_hex os \<Longrightarrow> os_fill os = CHR ''0'' \<Longrightarrow> put_number 8 n os = put_string (pad_left (CHR ''0'') 8 (hex_of_nat n)) os"
  by (simp_all add: put_number_def hex_byte_def)

lemma ss_put_end: "ss_put c \<lparr>ss_text = buf, ss_pos = length buf\<rparr> = \<lparr>ss_text = buf @ [c], ss_pos = length (buf @ [c])\<rparr>"
  by (simp add: ss_put_def)

lemma hexdump_loop_row:
  assumes "off mod 16 = 0" "0 < i" "i + length xs \<le> 16" "off + i + length xs < 2 ^ 31" "os_hex cout" "os_fill cout = CHR ''0''"
  shows "hexdump_loop ind (xs @ ys) (off + i) \<lparr>ss_text = buf, ss_pos = length buf\<rparr> cout =
    hexdump_loop ind ys (off + i + length xs) \<lparr>ss_text = buf @ map shown xs, ss_pos = length (buf @ map shown xs)\<rparr>
      (put_string (row_bytes i xs) cout)"
  using assms
proof (induction xs arbitrary: i buf cout)
  case (Cons b xs)
  have i: "(off + i) mod 16 = i" "(off + i) mod 2 = i mod 2" "off + i \<noteq> 2 ^ 31 - 1"
  proof -
    obtain q where q: "off = 16 * q" using Cons.prems(1) by auto
    show "(off + i) mod 16 = i" using Cons.prems(2,3) by (simp add: q)
    show "(off + i) mod 2 = i mod 2" by (simp add: q mod_add_eq [symmetric, of "16 * q"] mod_mult_eq [symmetric, of 16])
    show "off + i \<noteq> 2 ^ 31 - 1" using Cons.prems(4) by simp
  qed
  define cout1 where "cout1 = put_string ((if even i then '' '' else '''') @ hex_byte b) cout"
  have "hexdump_loop ind ((b # xs) @ ys) (off + i) \<lparr>ss_text = buf, ss_pos = length buf\<rparr> cout =
      hexdump_loop ind (xs @ ys) (off + Suc i) \<lparr>ss_text = buf @ [shown b], ss_pos = length (buf @ [shown b])\<rparr> cout1"
    using i Cons.prems(2,5,6) by (simp add: Let_def ss_put_end put_hex cout1_def mod_2_eq_odd)
  also have "\<dots> = hexdump_loop ind ys (off + Suc i + length xs)
      \<lparr>ss_text = (buf @ [shown b]) @ map shown xs, ss_pos = length ((buf @ [shown b]) @ map shown xs)\<rparr>
      (put_string (row_bytes (Suc i) xs) cout1)"
    using Cons.prems by (intro Cons.IH) (simp_all add: cout1_def)
  finally show ?case using Cons.prems(2) by (simp add: cout1_def)
qed simp

lemma hexdump_loop_rows:
  assumes "off mod 16 = 0" "xs \<noteq> []" "length xs \<le> 16" "off + length xs < 2 ^ 31" "os_hex cout" "os_fill cout = CHR ''0''"
    and "off = 0 \<Longrightarrow> pchars = ss_of '' ''"
  shows "hexdump_loop (replicate indent (CHR '' '')) (xs @ ys) off pchars cout =
    hexdump_loop (replicate indent (CHR '' '')) ys (off + length xs)
      \<lparr>ss_text = map shown xs, ss_pos = length (map shown xs)\<rparr>
      (put_string ((if off = 0 then '''' else ''    '' @ ss_text pchars @ [CHR 0x0A]) @ row indent off xs) cout)"
proof -
  obtain b zs where xs: "xs = b # zs" using assms(2) by (cases xs) auto
  have first: "ss_put (shown b) (ss_of '' '') = \<lparr>ss_text = [shown b], ss_pos = length [shown b]\<rparr>"
    by (simp add: ss_put_def ss_of_def)
  define cout1 where "cout1 = put_string ((if off = 0 then '''' else ''    '' @ ss_text pchars @ [CHR 0x0A]) @
    replicate indent (CHR '' '') @ pad_left (CHR ''0'') 8 (hex_of_nat off) @ '':    '' @ hex_byte b) cout"
  have "hexdump_loop (replicate indent (CHR '' '')) (xs @ ys) off pchars cout =
      hexdump_loop (replicate indent (CHR '' '')) (zs @ ys) (off + 1) \<lparr>ss_text = [shown b], ss_pos = length [shown b]\<rparr> cout1"
    using assms first by (cases "off = 0") (simp_all add: xs Let_def put_hex cout1_def)
  also have "\<dots> = hexdump_loop (replicate indent (CHR '' '')) ys (off + 1 + length zs)
      \<lparr>ss_text = [shown b] @ map shown zs, ss_pos = length ([shown b] @ map shown zs)\<rparr> (put_string (row_bytes 1 zs) cout1)"
    using assms by (intro hexdump_loop_row) (simp_all add: xs cout1_def)
  finally show ?thesis by (simp add: xs cout1_def row_def)
qed

text \<open>The last characters are moved to the fixed column.\<close>

definition hexdump_end :: "cpp_failure + (nat \<times> stringstream \<times> ostream) \<Rightarrow> cpp_failure + ostream" where
  "hexdump_end r = and_then r (\<lambda>(printed, pchars, cout).
     let print_rem = (16 - printed mod 16) mod 16
     in Inr (put_string (replicate (2 * print_rem + print_rem div 2 + 4) (CHR '' '') @ ss_text pchars @ [CHR 0x0A, CHR 0x0A]) cout))"

lemma print_rem_row:
  fixes off n :: nat
  assumes "off mod 16 = 0" "0 < n" "n \<le> 16"
  shows "(16 - (off + n) mod 16) mod 16 = 16 - n"
proof -
  obtain q where q: "off = 16 * q" using assms(1) by auto
  show ?thesis
  proof (cases "n = 16")
    case False
    then have "(off + n) mod 16 = n" using assms by (simp add: q)
    then show ?thesis using assms(2) by simp
  qed (simp add: q)
qed

lemma hexdump_rows:
  assumes "off mod 16 = 0" "data \<noteq> []" "off + length data < 2 ^ 31" "os_hex cout" "os_fill cout = CHR ''0''"
    and "off = 0 \<Longrightarrow> pchars = ss_of '' ''"
  shows "hexdump_end (hexdump_loop (replicate indent (CHR '' '')) data off pchars cout) =
    Inr (put_string ((if off = 0 then '''' else ''    '' @ ss_text pchars @ [CHR 0x0A]) @ rows indent off data) cout)"
  using assms
proof (induction indent off data arbitrary: pchars cout rule: rows.induct)
  case (1 indent off data)
  let ?pre = "if off = 0 then '''' else ''    '' @ ss_text pchars @ [CHR 0x0A]"
  show ?case
  proof (cases "length data \<le> 16")
    case True
    have "hexdump_loop (replicate indent (CHR '' '')) (data @ []) off pchars cout = Inr (off + length data,
        \<lparr>ss_text = map shown data, ss_pos = length (map shown data)\<rparr>, put_string (?pre @ row indent off data) cout)"
      using hexdump_loop_rows [of off data cout pchars indent "[]"] "1.prems" True by simp
    then show ?thesis
      using True print_rem_row [of off "length data"] "1.prems"
      by (subst rows.simps) (simp add: hexdump_end_def gap_def Let_def)
  next
    case False
    let ?xs = "take 16 data" and ?ys = "drop 16 data"
    define cout1 where "cout1 = put_string (?pre @ row indent off ?xs) cout"
    have len: "length ?xs = 16" using False by simp
    have "hexdump_loop (replicate indent (CHR '' '')) (?xs @ ?ys) off pchars cout =
        hexdump_loop (replicate indent (CHR '' '')) ?ys (off + 16)
          \<lparr>ss_text = map shown ?xs, ss_pos = length (map shown ?xs)\<rparr> cout1"
      using hexdump_loop_rows [of off ?xs cout pchars indent ?ys] "1.prems" False len unfolding cout1_def by simp
    moreover have "hexdump_end (hexdump_loop (replicate indent (CHR '' '')) ?ys (off + 16)
          \<lparr>ss_text = map shown ?xs, ss_pos = length (map shown ?xs)\<rparr> cout1) =
        Inr (put_string (''    '' @ map shown ?xs @ [CHR 0x0A] @ rows indent (off + 16) ?ys) cout1)"
      using "1.IH" [OF False, of cout1 "\<lparr>ss_text = map shown ?xs, ss_pos = length (map shown ?xs)\<rparr>"] "1.prems" False
      by (simp add: cout1_def)
    moreover have "gap ?xs = ''    ''" using len by (simp add: gap_def eval_nat_numeral)
    ultimately show ?thesis
      using False by (subst rows.simps) (simp add: cout1_def)
  qed
qed

section \<open>Properties\<close>

text \<open>
  Claim C28. For fewer than \<open>2^31\<close> bytes \<open>hexdump\<close> prints exactly the page: rows of 16 bytes, each with
  its offset, its bytes and its characters, the last row's characters in the same column, and an empty
  line. The number base of the stream is restored, its fill character is not: it stays \<open>'0'\<close>. An
  indentation that is no size of a string is a \<open>length_error\<close>, thrown before anything is printed.
\<close>

theorem hexdump_prints_page:
  assumes "length data < 2 ^ 31"
  shows "hexdump data indent cout =
    (if unat indent < 2 ^ 63
     then Inr (cout\<lparr>os_out := os_out cout @ hexdump_page (unat indent) data, os_fill := CHR ''0''\<rparr>)
     else Inl (length_error ''basic_string::_M_create''))"
proof -
  let ?cout = "cout\<lparr>os_hex := True, os_fill := CHR ''0''\<rparr>"
  let ?loop = "hexdump_loop (replicate (unat indent) (CHR '' '')) data 0 (ss_of '' '') ?cout"
  have split: "hexdump data indent cout = (if unat indent < 2 ^ 63
      then and_then (hexdump_end ?loop) (\<lambda>os. Inr (os\<lparr>os_hex := os_hex cout\<rparr>)) else Inl (length_error ''basic_string::_M_create''))"
    by (cases ?loop) (auto simp: hexdump_def hexdump_end_def string_of_char_def Let_def)
  have "hexdump_end ?loop = Inr (put_string (hexdump_page (unat indent) data) ?cout)"
  proof (cases "data = []")
    case True
    have "replicate 4 (CHR '' '') = ''    ''" by (simp add: eval_nat_numeral)
    then show ?thesis using True by (simp add: hexdump_end_def hexdump_page_def ss_of_def)
  next
    case False
    then show ?thesis
      using hexdump_rows [of 0 data ?cout "ss_of '' ''" "unat indent"] assms by (simp add: hexdump_page_def)
  qed
  then show ?thesis by (simp add: split put_string_def)
qed

theorem hexdump_prints_page_witness:
  "hexdump [72, 105, 10] 2 stringstream_new = Inr (stringstream_new\<lparr>
     os_out := ''  00000000:    4869 0a'' @ replicate 36 (CHR '' '') @ ''Hi.'' @ [CHR 0x0A, CHR 0x0A], os_fill := CHR ''0''\<rparr>)"
proof -
  have "hexdump_page 2 [72, 105, 10] = ''  00000000:    4869 0a'' @ replicate 36 (CHR '' '') @ ''Hi.'' @ [CHR 0x0A, CHR 0x0A]"
    by code_simp
  with hexdump_prints_page [of "[72, 105, 10]" 2 stringstream_new] show ?thesis
    by (simp add: stringstream_new_def)
qed

end
