(* ===== verification/Timestamp.thy ===== *)
theory Timestamp
  imports Sponge_Prelude
begin

text \<open>
  \<open>timestamp_ms\<close> of \<open>libsponge/util/util.cc\<close>. The steady clock is a parameter that gives nanoseconds;
  the static variable \<open>program_start\<close> is set by the first call.
\<close>

section \<open>The program\<close>

type_synonym 'w steady_clock = "'w \<Rightarrow> int \<times> 'w"

text \<open>\<open>duration_cast\<close> to milliseconds cuts towards zero.\<close>

definition duration_ms :: "int \<Rightarrow> int" where
  "duration_ms ns = (if ns < 0 then - ((- ns) div 1000000) else ns div 1000000)"

definition timestamp_ms :: "'w steady_clock \<Rightarrow> int option \<times> 'w \<Rightarrow> u64 \<times> (int option \<times> 'w)" where
  "timestamp_ms clock st =
     (let (program_start, w) = (case fst st of Some t \<Rightarrow> (t, snd st) | None \<Rightarrow> clock (snd st));
          (now, w) = clock w
      in (of_int (duration_ms (now - program_start)), (Some program_start, w)))"

fun timestamps :: "'w steady_clock \<Rightarrow> nat \<Rightarrow> int option \<times> 'w \<Rightarrow> u64 list" where
  "timestamps clock 0 st = []"
| "timestamps clock (Suc n) st = (case timestamp_ms clock st of (t, st') \<Rightarrow> t # timestamps clock n st')"

section \<open>What a steady clock promises\<close>

text \<open>\<open>time\<close> never runs backwards, and a reading lies between the times before and after the call.\<close>

definition steady :: "'w steady_clock \<Rightarrow> ('w \<Rightarrow> int) \<Rightarrow> bool" where
  "steady clock time \<longleftrightarrow> (\<forall>w. 0 \<le> time w \<and> (case clock w of (t, w') \<Rightarrow> time w \<le> t \<and> t \<le> time w' \<and> t < 2 ^ 63))"

lemma steadyD:
  assumes "steady clock time" "clock w = (t, w')"
  shows "time w \<le> t" "t \<le> time w'" "0 \<le> t" "t < 2 ^ 63"
  using spec [OF assms(1) [unfolded steady_def], of w] assms(2) by auto

section \<open>Properties\<close>

lemma duration_ms_mono: "0 \<le> a \<Longrightarrow> a \<le> b \<Longrightarrow> duration_ms a \<le> duration_ms b"
  by (simp add: duration_ms_def zdiv_mono1)

lemma uint_duration:
  assumes "0 \<le> ns" "ns < 2 ^ 63"
  shows "uint (of_int (duration_ms ns) :: u64) = duration_ms ns"
proof -
  have "ns div 1000000 \<le> ns" using assms(1) by linarith
  then have "0 \<le> duration_ms ns" "duration_ms ns < 2 ^ 64" using assms by (simp_all add: duration_ms_def)
  then show ?thesis by (simp add: uint_word_of_int)
qed

lemma timestamps_from:
  assumes "steady clock time" "0 \<le> p" "p \<le> time w"
  shows "sorted (timestamps clock n (Some p, w)) \<and>
    (\<forall>t \<in> set (timestamps clock n (Some p, w)). duration_ms (time w - p) \<le> uint t)"
  using assms(3)
proof (induction n arbitrary: w)
  case (Suc n)
  obtain now w' where c: "clock w = (now, w')" by (metis prod.exhaust)
  note D = steadyD [OF assms(1) c]
  define t :: u64 where "t = of_int (duration_ms (now - p))"
  have t: "uint t = duration_ms (now - p)" unfolding t_def using D Suc.prems assms(2) by (intro uint_duration) auto
  have step: "timestamps clock (Suc n) (Some p, w) = t # timestamps clock n (Some p, w')"
    by (simp add: timestamp_ms_def c t_def)
  have le: "duration_ms (time w - p) \<le> uint t" "uint t \<le> duration_ms (time w' - p)"
    unfolding t using D Suc.prems by (auto intro!: duration_ms_mono)
  have IH: "sorted (timestamps clock n (Some p, w'))" "\<forall>u \<in> set (timestamps clock n (Some p, w')). duration_ms (time w' - p) \<le> uint u"
    using Suc.IH [of w'] Suc.prems D by auto
  then have "\<forall>u \<in> set (timestamps clock n (Some p, w')). t \<le> u" using le(2) unfolding word_le_def by force
  then show ?case unfolding step using IH(1) le(1) by (auto simp: word_le_def [of t] intro: order_trans)
qed simp

text \<open>
  With a clock that never runs backwards, the time stamps of a run never decrease, and the
  first is the time between the two readings of the first call: time is counted from the first call,
  however long the program was already running.
\<close>

theorem timestamps_monotone:
  assumes "steady clock time" and "clock w = (t0, w1)" and "clock w1 = (t1, w2)"
  shows "sorted (timestamps clock n (None, w)) \<and>
    (0 < n \<longrightarrow> uint (hd (timestamps clock n (None, w))) = (t1 - t0) div 1000000)"
proof (cases n)
  case (Suc m)
  note D = steadyD [OF assms(1,2)] steadyD [OF assms(1,3)]
  define t :: u64 where "t = of_int (duration_ms (t1 - t0))"
  have step: "timestamps clock n (None, w) = t # timestamps clock m (Some t0, w2)"
    by (simp add: Suc timestamp_ms_def assms(2,3) t_def)
  have t: "uint t = duration_ms (t1 - t0)" unfolding t_def using D by (intro uint_duration) auto
  have rest: "sorted (timestamps clock m (Some t0, w2))" "\<forall>u \<in> set (timestamps clock m (Some t0, w2)). duration_ms (time w2 - t0) \<le> uint u"
    using timestamps_from [OF assms(1), of t0 w2 m] D by auto
  moreover have "uint t \<le> duration_ms (time w2 - t0)" unfolding t using D by (auto intro!: duration_ms_mono)
  ultimately have "\<forall>u \<in> set (timestamps clock m (Some t0, w2)). t \<le> u" unfolding word_le_def by force
  then show ?thesis using rest(1) t D by (auto simp: step duration_ms_def)
qed simp

theorem timestamps_monotone_witness:
  "uint (hd (timestamps (\<lambda>w. (int (min w 5), Suc w)) 3 (None, 2))) = 0 \<and>
   sorted (timestamps (\<lambda>w. (int (min w 5), Suc w)) 3 (None, 2))"
proof -
  have "steady (\<lambda>w. (int (min w 5), Suc w)) (\<lambda>w. int (min w 5))" by (auto simp: steady_def min_def)
  from timestamps_monotone [OF this, of 2 2 3 3 4 3] show ?thesis by simp
qed

end
