(* ===== verification/Random_Generator.thy ===== *)
theory Random_Generator
  imports Sponge_Prelude
begin

unbundle bit_operations_syntax

text \<open>
  \<open>get_random_generator\<close> of \<open>libsponge/util/util.cc\<close>: a \<open>std::mt19937\<close> whose whole state is seeded from
  \<open>std::random_device\<close> through a \<open>std::seed_seq\<close>. The device is a parameter; the algorithms of the
  other two are those of the C++ standard.
\<close>

section \<open>The standard library\<close>

subsection \<open>The engine\<close>

definition state_size :: nat where "state_size = 624"
definition shift_size :: nat where "shift_size = 397"

text \<open>The last 624 words of the recurrence, oldest first.\<close>

record mt19937 =
  mt_words :: "u32 list"

definition twist :: "u32 \<Rightarrow> u32 \<Rightarrow> u32" where
  "twist x x' = (let y = (x AND 0x80000000) OR (x' AND 0x7fffffff) in drop_bit 1 y XOR (if odd y then 0x9908b0df else 0))"

definition temper :: "u32 \<Rightarrow> u32" where
  "temper x = (let z = x XOR drop_bit 11 x;
                   z = z XOR (push_bit 7 z AND 0x9d2c5680);
                   z = z XOR (push_bit 15 z AND 0xefc60000)
               in z XOR drop_bit 18 z)"

definition mt_word :: "u32 list \<Rightarrow> u32" where
  "mt_word ws = ws ! shift_size XOR twist (ws ! 0) (ws ! 1)"

definition mt19937_next :: "mt19937 \<Rightarrow> u32 \<times> mt19937" where
  "mt19937_next g = (temper (mt_word (mt_words g)), g\<lparr>mt_words := tl (mt_words g) @ [mt_word (mt_words g)]\<rparr>)"

text \<open>A state from which only zeros follow: nothing but the lower bits of the oldest word, which the recurrence never uses.\<close>

definition degenerate :: "u32 list \<Rightarrow> bool" where
  "degenerate ws \<longleftrightarrow> hd ws AND 0x80000000 = 0 \<and> list_all (\<lambda>w. w = 0) (tl ws)"

subsection \<open>The seed sequence\<close>

definition seed_T :: "u32 \<Rightarrow> u32" where
  "seed_T x = x XOR drop_bit 27 x"

definition seed_t :: "nat \<Rightarrow> nat" where
  "seed_t n = (if 623 \<le> n then 11 else if 68 \<le> n then 7 else if 39 \<le> n then 5 else if 7 \<le> n then 3 else (n - 1) div 2)"

definition at :: "u32 list \<Rightarrow> nat \<Rightarrow> u32" where
  "at b k = b ! (k mod length b)"

definition put :: "nat \<Rightarrow> u32 \<Rightarrow> u32 list \<Rightarrow> u32 list" where
  "put k x b = b[k mod length b := x]"

definition seed_mix1 :: "u32 list \<Rightarrow> nat \<Rightarrow> nat \<Rightarrow> u32 list \<Rightarrow> nat \<Rightarrow> u32 list" where
  "seed_mix1 v p q b k =
     (let n = length b; s = length v;
          r1 = 1664525 * seed_T (at b k XOR at b (k + p) XOR at b (k + n - 1));
          r2 = r1 + (if k = 0 then of_nat s else if k \<le> s then of_nat (k mod n) + v ! (k - 1) else of_nat (k mod n));
          b = put (k + p) (at b (k + p) + r1) b;
          b = put (k + q) (at b (k + q) + r2) b
      in put k r2 b)"

definition seed_mix2 :: "nat \<Rightarrow> nat \<Rightarrow> u32 list \<Rightarrow> nat \<Rightarrow> u32 list" where
  "seed_mix2 p q b k =
     (let n = length b;
          r3 = 1566083941 * seed_T (at b k + at b (k + p) + at b (k + n - 1));
          r4 = r3 - of_nat (k mod n);
          b = put (k + p) (at b (k + p) XOR r3) b;
          b = put (k + q) (at b (k + q) XOR r4) b
      in put k r4 b)"

definition seed_seq_generate :: "u32 list \<Rightarrow> nat \<Rightarrow> u32 list" where
  "seed_seq_generate v n =
     (if n = 0 then []
      else let t = seed_t n; p = (n - t) div 2; q = p + t; m = max (length v + 1) n;
               b = replicate n 0x8b8b8b8b;
               b = foldl (seed_mix1 v p q) b [0..<m]
           in foldl (seed_mix2 p q) b [m..<m + n])"

definition mt19937_of_seed :: "u32 list \<Rightarrow> mt19937" where
  "mt19937_of_seed v =
     (let ws = seed_seq_generate v state_size
      in \<lparr>mt_words = (if degenerate ws then 0x80000000 # tl ws else ws)\<rparr>)"

section \<open>get_random_generator\<close>

text \<open>
  Opening a \<open>std::random_device\<close> and calling it may each throw. \<open>generate\<close> calls it once for each element
  of \<open>seed_data\<close>.
\<close>

type_synonym 'd device_call = "'d \<Rightarrow> (cpp_failure + u32) \<times> 'd"

fun generate :: "nat \<Rightarrow> 'd device_call \<Rightarrow> 'd \<Rightarrow> (cpp_failure + u32 list) \<times> 'd" where
  "generate 0 rd d = (Inr [], d)"
| "generate (Suc n) rd d = (case rd d of
      (Inl e, d) \<Rightarrow> (Inl e, d)
    | (Inr x, d) \<Rightarrow> (case generate n rd d of (Inl e, d) \<Rightarrow> (Inl e, d) | (Inr xs, d) \<Rightarrow> (Inr (x # xs), d)))"

definition get_random_generator ::
  "('e \<Rightarrow> (cpp_failure + 'd) \<times> 'e) \<Rightarrow> 'd device_call \<Rightarrow> 'e \<Rightarrow> (cpp_failure + mt19937) \<times> 'e" where
  "get_random_generator random_device rd env =
     (case random_device env of
        (Inl e, env) \<Rightarrow> (Inl e, env)
      | (Inr d, env) \<Rightarrow> (case generate state_size rd d of
          (Inl e, _) \<Rightarrow> (Inl e, env)
        | (Inr seed_data, _) \<Rightarrow> (Inr (mt19937_of_seed seed_data), env)))"

text \<open>The numbers a generator gives.\<close>

fun mt_outputs :: "nat \<Rightarrow> mt19937 \<Rightarrow> u32 list" where
  "mt_outputs 0 g = []"
| "mt_outputs (Suc n) g = (case mt19937_next g of (x, g) \<Rightarrow> x # mt_outputs n g)"

section \<open>Tempering loses nothing\<close>

lemma shift_left_fixpoint:
  assumes "z = push_bit s z AND b" "0 < s"
  shows "z = (0 :: u32)"
proof (rule bit_word_eqI)
  fix i
  show "i < LENGTH(32) \<Longrightarrow> bit z i = bit 0 i"
  proof (induction i rule: less_induct)
    case (less i)
    have "bit z i \<longleftrightarrow> bit (push_bit s z AND b) i" using assms(1) by simp
    then have "bit z i \<Longrightarrow> s \<le> i \<and> bit z (i - s)" by (auto simp: bit_simps)
    then show ?case using less assms(2) by (cases "s \<le> i") auto
  qed
qed

lemma shift_right_fixpoint:
  assumes "z = drop_bit s z" "0 < s"
  shows "z = (0 :: u32)"
proof (rule bit_word_eqI)
  fix i
  show "i < LENGTH(32) \<Longrightarrow> bit z i = bit 0 i"
  proof (induction "32 - i" arbitrary: i rule: less_induct)
    case less
    have "bit z i \<longleftrightarrow> bit (drop_bit s z) i" using assms(1) by simp
    then have "bit z i \<longleftrightarrow> bit z (s + i)" by (simp add: bit_simps)
    then show ?case using less assms(2) bit_imp_le_length [of z "s + i"] by (cases "s + i < 32") auto
  qed
qed

lemma xor_eq_zero: "a XOR b = 0 \<longleftrightarrow> a = (b :: u32)"
proof
  assume "a XOR b = 0"
  then have "\<not> bit (a XOR b) i" for i by simp
  then show "a = b" by (intro bit_word_eqI) (simp add: bit_simps)
qed simp

lemma temper_zero:
  assumes "temper x = 0"
  shows "x = 0"
proof -
  define z1 where "z1 = x XOR drop_bit 11 x"
  define z2 where "z2 = z1 XOR (push_bit 7 z1 AND 0x9d2c5680)"
  define z3 where "z3 = z2 XOR (push_bit 15 z2 AND 0xefc60000)"
  have "z3 XOR drop_bit 18 z3 = 0" using assms by (simp only: temper_def Let_def z1_def z2_def z3_def)
  then have "z3 = 0" unfolding xor_eq_zero by (rule shift_right_fixpoint) simp
  then have "z2 = 0" unfolding z3_def xor_eq_zero by (rule shift_left_fixpoint) simp
  then have "z1 = 0" unfolding z2_def xor_eq_zero by (rule shift_left_fixpoint) simp
  then show "x = 0" unfolding z1_def xor_eq_zero by (rule shift_right_fixpoint) simp
qed

section \<open>The recurrence never dies\<close>

lemma twist_zero:
  assumes "twist x x' = 0"
  shows "x AND 0x80000000 = 0" "x' AND 0x7fffffff = 0"
proof -
  define y where "y = (x AND 0x80000000) OR (x' AND 0x7fffffff)"
  have t: "drop_bit 1 y = (if odd y then 0x9908b0df else 0)"
    using assms by (simp add: twist_def y_def Let_def xor_eq_zero)
  have "\<not> bit (drop_bit 1 y) 31" using bit_imp_le_length [of y 32] by (auto simp: bit_drop_bit_eq)
  moreover have "bit (0x9908b0df :: u32) 31" by code_simp
  ultimately have "even y" using t by (cases "odd y") (simp_all only: if_True if_False simp_thms)
  then have "\<not> bit y i" for i
  proof (cases i)
    case (Suc j)
    then have "bit y i = bit (drop_bit 1 y) j" by (simp add: bit_drop_bit_eq)
    then show ?thesis using t \<open>even y\<close> by simp
  qed (simp add: bit_0)
  then have "y = 0" by (intro bit_word_eqI) simp
  then have "\<not> bit (x AND 0x80000000) i \<and> \<not> bit (x' AND 0x7fffffff) i" for i
    unfolding y_def by (metis bit_0_eq bit_or_iff bot_apply bot_bool_def)
  then show "x AND 0x80000000 = 0" "x' AND 0x7fffffff = 0" by (auto intro!: bit_word_eqI)
qed

lemma word_halves: "x AND 0x80000000 = 0 \<Longrightarrow> x AND 0x7fffffff = 0 \<Longrightarrow> x = (0 :: u32)"
proof -
  assume h: "x AND 0x80000000 = 0" "x AND 0x7fffffff = 0"
  have "(0x80000000 :: u32) OR 0x7fffffff = - 1" by code_simp
  then have "x = x AND (0x80000000 OR 0x7fffffff)" by (simp only: bit.conj_one_right)
  also have "\<dots> = 0" using h by (simp only: bit.conj_disj_distrib) simp
  finally show ?thesis .
qed

lemma degenerate_iff:
  assumes "length ws = state_size"
  shows "degenerate ws \<longleftrightarrow> ws ! 0 AND 0x80000000 = 0 \<and> (\<forall>i. 0 < i \<and> i < state_size \<longrightarrow> ws ! i = 0)"
proof -
  have "(\<forall>i < state_size - 1. tl ws ! i = 0) \<longleftrightarrow> (\<forall>i. 0 < i \<and> i < state_size \<longrightarrow> ws ! i = 0)"
  proof (intro iffI allI impI)
    fix i assume "\<forall>i < state_size - 1. tl ws ! i = 0" "0 < i \<and> i < state_size"
    then show "ws ! i = 0" using assms by (cases i) (auto simp: nth_tl)
  qed (use assms in \<open>auto simp: nth_tl\<close>)
  moreover have "ws \<noteq> []" using assms by (auto simp: state_size_def)
  ultimately show ?thesis using assms by (simp add: degenerate_def hd_conv_nth list_all_length)
qed

lemma degenerate_step:
  assumes "length ws = state_size" "degenerate (tl ws @ [mt_word ws])"
  shows "degenerate ws"
proof -
  let ?ws' = "tl ws @ [mt_word ws]"
  have len: "length ?ws' = state_size" using assms(1) by (simp add: state_size_def)
  have nth: "?ws' ! i = (if Suc i < state_size then ws ! Suc i else mt_word ws)" if "i < state_size" for i
    using assms(1) that by (auto simp: nth_append nth_tl)
  note d = assms(2) [unfolded degenerate_iff [OF len]]
  have top: "ws ! 1 AND 0x80000000 = 0" using d nth [of 0] by (simp add: state_size_def)
  have zero: "ws ! i = 0" if "1 < i" "i < state_size" for i
    using d nth [of "i - 1"] that by (auto dest!: spec [of _ "i - 1"])
  have "mt_word ws = 0" using d nth [of 623] by (auto simp: state_size_def dest!: spec [of _ 623])
  moreover have "ws ! shift_size = 0" by (rule zero) (simp_all add: shift_size_def state_size_def)
  ultimately have "twist (ws ! 0) (ws ! 1) = 0" by (simp add: mt_word_def)
  from twist_zero [OF this] have "ws ! 0 AND 0x80000000 = 0" "ws ! 1 = 0" using word_halves [OF top] by simp_all
  moreover have "ws ! i = 0" if "0 < i" "i < state_size" for i
    using zero [of i] that calculation(2) by (cases "i = 1") auto
  ultimately show ?thesis by (simp add: degenerate_iff [OF assms(1)])
qed

section \<open>Runs of a generator\<close>

fun mt_skip :: "nat \<Rightarrow> mt19937 \<Rightarrow> mt19937" where
  "mt_skip 0 g = g"
| "mt_skip (Suc n) g = mt_skip n (snd (mt19937_next g))"

fun mt_raw :: "nat \<Rightarrow> mt19937 \<Rightarrow> u32 list" where
  "mt_raw 0 g = []"
| "mt_raw (Suc n) g = mt_word (mt_words g) # mt_raw n (snd (mt19937_next g))"

definition mt_ok :: "mt19937 \<Rightarrow> bool" where
  "mt_ok g \<longleftrightarrow> length (mt_words g) = state_size \<and> \<not> degenerate (mt_words g)"

lemma length_mt_raw [simp]: "length (mt_raw n g) = n"
  by (induction n arbitrary: g) simp_all

lemma mt_ok_next: "mt_ok g \<Longrightarrow> mt_ok (snd (mt19937_next g))"
  using degenerate_step [of "mt_words g"] by (auto simp: mt_ok_def mt19937_next_def state_size_def)

lemma mt_ok_skip: "mt_ok g \<Longrightarrow> mt_ok (mt_skip n g)"
  by (induction n arbitrary: g) (simp_all add: mt_ok_next)

lemma mt_outputs_raw: "mt_outputs n g = map temper (mt_raw n g)"
  by (induction n arbitrary: g) (simp_all add: mt19937_next_def)

lemma mt_outputs_add: "mt_outputs (k + n) g = mt_outputs k g @ mt_outputs n (mt_skip k g)"
  by (induction k arbitrary: g) (simp_all add: case_prod_unfold)

lemma mt_skip_words: "mt_words g \<noteq> [] \<Longrightarrow> mt_words (mt_skip n g) = drop n (mt_words g @ mt_raw n g)"
proof (induction n arbitrary: g)
  case (Suc n)
  then show ?case by (cases "mt_words g") (simp_all add: mt19937_next_def del: drop_append)
qed simp

text \<open>Within 624 numbers one is not zero.\<close>

lemma mt_outputs_nonzero:
  assumes "mt_ok g"
  shows "\<not> list_all (\<lambda>x. x = 0) (mt_outputs state_size g)"
proof
  assume "list_all (\<lambda>x. x = 0) (mt_outputs state_size g)"
  then have zero: "\<forall>x \<in> set (mt_raw state_size g). x = 0" by (auto simp: mt_outputs_raw list_all_iff dest: temper_zero)
  have "mt_words g \<noteq> []" "length (mt_words g) = state_size" using assms by (auto simp: mt_ok_def state_size_def)
  then have words: "mt_words (mt_skip state_size g) = mt_raw state_size g" by (simp add: mt_skip_words)
  have "length (mt_raw state_size g) \<noteq> 0" by (simp add: state_size_def)
  then have "mt_raw state_size g \<noteq> []" by (metis list.size(3))
  then have "degenerate (mt_raw state_size g)"
    using zero by (cases "mt_raw state_size g") (simp_all add: degenerate_def list_all_iff)
  then show False using mt_ok_skip [OF assms, of state_size] words by (simp add: mt_ok_def)
qed

section \<open>Seeding\<close>

lemma length_put [simp]: "length (put k x b) = length b"
  by (simp add: put_def)

lemma length_foldl_mix:
  "length (foldl (seed_mix1 v p q) b ks) = length b" "length (foldl (seed_mix2 p q) b ks) = length b"
  by (induction ks arbitrary: b) (simp_all add: seed_mix1_def seed_mix2_def Let_def)

lemma length_seed_seq_generate [simp]: "length (seed_seq_generate v n) = n"
  by (simp add: seed_seq_generate_def Let_def length_foldl_mix)

text \<open>The documented example of \<open>std::seed_seq::generate\<close>.\<close>

lemma seed_seq_generate_example:
  "seed_seq_generate [1, 2, 3, 4, 5] 10 =
     [4204997637, 4246533866, 1856049002, 1129615051, 690460811, 1075771511, 46783058, 3904109078, 1534123438, 1495905678]"
  by code_simp

lemma mt_ok_seeded: "mt_ok (mt19937_of_seed v)"
proof -
  have "length (seed_seq_generate v state_size) = state_size" by simp
  moreover have "\<not> degenerate (0x80000000 # ws)" for ws by (simp add: degenerate_def)
  ultimately show ?thesis
    by (auto simp: mt_ok_def mt19937_of_seed_def Let_def state_size_def)
qed

text \<open>A device that never throws is called exactly \<open>n\<close> times, and its numbers are taken in order.\<close>

lemma generate_calls:
  assumes "\<And>d. rd d = (Inr (fst (f d)), snd (f d))"
  shows "generate n rd d = (Inr (map (\<lambda>i. fst (f (((snd \<circ> f) ^^ i) d))) [0..<n]), ((snd \<circ> f) ^^ n) d)"
proof (induction n arbitrary: d)
  case (Suc n)
  have "[0..<Suc n] = 0 # map Suc [0..<n]" by (simp add: map_Suc_upt upt_conv_Cons)
  moreover have "((\<lambda>a. snd (f a)) ^^ i) (snd (f d)) = snd (f (((\<lambda>a. snd (f a)) ^^ i) d))" for i
    using funpow_swap1 [of "\<lambda>a. snd (f a)" i d] by simp
  ultimately show ?case by (simp add: Suc assms [of d] comp_def del: upt_Suc)
qed simp

section \<open>The generator\<close>

text \<open>
  \<open>get_random_generator\<close> propagates any exception of the device. Otherwise the engine it returns has its
  full state and is alive: among any 624 consecutive numbers it will ever give, one is not zero.
\<close>

lemma get_random_generator_alive:
  "case get_random_generator random_device rd env of
      (Inl e, env') \<Rightarrow> random_device env = (Inl e, env') \<or>
        (\<exists>d. random_device env = (Inr d, env') \<and> fst (generate 624 rd d) = Inl e)
    | (Inr g, env') \<Rightarrow> length (mt_words g) = 624 \<and> (\<forall>k. \<not> list_all (\<lambda>x. x = 0) (drop k (mt_outputs (k + 624) g)))"
proof -
  have "drop k (mt_outputs (k + 624) g) = mt_outputs state_size (mt_skip k g)" for k g
    by (simp add: mt_outputs_add state_size_def) (simp add: mt_outputs_raw)
  then have "\<not> list_all (\<lambda>x. x = 0) (drop k (mt_outputs (k + 624) (mt19937_of_seed v)))" for k v
    using mt_outputs_nonzero [OF mt_ok_skip [OF mt_ok_seeded]] by simp
  moreover have "length (mt_words (mt19937_of_seed v)) = 624" for v
    using mt_ok_seeded [of v] by (simp add: mt_ok_def state_size_def)
  ultimately show ?thesis
    by (auto simp: get_random_generator_def state_size_def split: prod.split sum.split)
qed

end
