(* ===== verification/Spec2Isabelle.thy ===== *)
theory Spec2Isabelle
  imports Stream_Reassembly Wrapping_Integers TCP_Receiver TCP_Header_Text Event_Loop_Service Web_Get_Safety Doc_Examples
    Tun_Device Hexdump Timestamp Random_Generator
begin

text \<open>
  This development verifies \<^emph>\<open>libsponge\<close>, a user-space TCP library in C++ (\<open>src/libsponge\<close>) in the state
  where the byte stream, the stream reassembler and the sequence numbers are implemented and the TCP
  receiver is still a placeholder, together with its command-line client \<open>src/apps/webget.cc\<close> and the
  example programs of its documentation (\<open>src/doctests\<close>).

  \<^bold>\<open>The program.\<close> A \<open>TCPSegment\<close> is parsed from and serialized to buffers by \<open>NetParser\<close> and \<open>NetUnparser\<close>
  and protected by an \<open>InternetChecksum\<close>; its sequence numbers are \<open>WrappingInt32\<close>s, turned into 64-bit
  stream indices by \<open>unwrap\<close>; its payload goes to the \<open>StreamReassembler\<close>, which writes the bytes in order
  to a \<open>ByteStream\<close>, from which the application reads. Around this core stand wrappers of the operating
  system: reference-counted \<open>FileDescriptor\<close>s, the \<open>EventLoop\<close> that polls them, \<open>Address\<close>es and sockets,
  and TUN devices.

  \<^bold>\<open>Theories.\<close> Every C++ function is a definition with its name (a method \<open>C::f\<close> is \<open>C_f\<close>), every class a
  record or datatype, every exception a value \<open>Inl e\<close>, and undefined behaviour a value of its own, so that
  \<open>undefined_behaviour\<close> in a result is something to be excluded by proof.

  \<^item> \<open>Sponge_Prelude\<close>: machine words, exceptions, \<open>size_t\<close> arithmetic. HOL lists have no bound, so statements
    about sizes assume \<open>addressable\<close>: the container's length is a \<open>size_t\<close>.
  \<^item> \<open>Byte_Stream\<close> (\<open>byte_stream.cc\<close>): the bounded queue, its invariant for every reachable state, first-in
    first-out behaviour through a locale for streams, finality of the end mark.
  \<^item> \<open>Stream_Reassembler\<close> and \<open>Stream_Reassembly\<close> (\<open>stream_reassembler.cc\<close>): both loops of \<open>push_substring\<close>
    with termination proofs; refinement of an abstract reassembler (received bytes inside the window, output
    the longest prefix without gap); safety for every order, overlap and interleaving of reads; completeness;
    the memory bound; what \<open>unassembled_bytes\<close> counts; and the end mark that is lost with an ignored substring.
  \<^item> \<open>Wrapping_Integers\<close> (\<open>wrapping_integers.cc\<close>): \<open>wrap\<close> and \<open>unwrap\<close> on words; \<open>unwrap\<close> gives the number
    that wraps to its argument closest to the checkpoint except in the last \<open>2^31\<close> numbers of the range, with an example there.
  \<^item> \<open>Buffer\<close>, \<open>Net_Parser\<close>, \<open>Internet_Checksum\<close>, \<open>TCP_Header\<close>, \<open>TCP_Segment\<close> (\<open>util/buffer.cc\<close>,
    \<open>util/parser.cc\<close>, \<open>util/util.cc\<close>, \<open>tcp_helpers/\<close>): removal of prefixes across buffers through one locale for
    the three string types; round trips of integers, headers and segments; the result of parsing on every
    branch; equality of the running checksum with the ones' complement sum (\<open>sum_fits\<close> says that the 32-bit
    sum cannot overflow: the data has at most about 128 kB); detection of every changed byte;
    and the accepted segment with a too small data offset.
  \<^item> \<open>TCP_Receiver\<close> (\<open>tcp_receiver.cc\<close>, \<open>tcp_state.cc\<close>): the placeholder receiver and the state summary.
  \<^item> \<open>System_Calls\<close>, \<open>File_Descriptor\<close>, \<open>Event_Loop\<close> (\<open>util/file_descriptor.cc\<close>, \<open>util/eventloop.cc\<close>): the
    kernel is a parameter, a record of functions on a state of its own. Handles share wrappers in a heap with
    use counts. Complete writes over partial ones (the loop terminates as each round shortens the buffer),
    reads, the blocking mode, a descriptor that is closed exactly once, memory safety of the event loop for
    arbitrary callbacks within their contract, and the dropped error of \<open>poll\<close>.
  \<^item> \<open>Event_Loop_Service\<close>: what the event loop does, read off a log the callbacks write: exactly the rules that
    are due are served or cancelled, in order, and an exception leaves it at one rule, after exactly what the
    rules before it were due; and memory safety of whole sessions, as an inductive
    predicate of reachable states.
  \<^item> \<open>Text_Format\<close>, \<open>Socket_Address\<close> (\<open>util/address.cc\<close>): numbers as text; addresses as the 128 bytes of a
    \<open>sockaddr_storage\<close> for either byte order of the host, with the resolver as a parameter; well-formedness,
    equality, and round trips through text.
  \<^item> \<open>Sockets\<close> (\<open>util/socket.cc\<close>): every operation of the four socket classes; datagrams are received and
    sent whole or not at all; \<open>accept\<close> leaks no descriptor, also when the constructor throws; the addresses of
    both ends, and what \<open>shutdown\<close> counts.
  \<^item> \<open>Web_Get\<close> (\<open>apps/webget.cc\<close>): \<open>main\<close> and \<open>get_URL\<close>. The reading loop is a partial function, as a server
    may never stop; for a finite answer it is proved to end and to print exactly that answer.
  \<^item> \<open>Web_Get_Safety\<close>: the same program when calls fail. A predicate that every step keeps says that the
    program holds its one descriptor open; whichever step throws, the descriptor is closed, and it is closed
    twice only when \<open>close(2)\<close> itself fails.
  \<^item> \<open>Loopback\<close>: an abstract network of one host (open descriptors, addresses in use, sockets that listen,
    connections, queues) with the effect of each socket call on it, and a locale for kernels that implement
    it: a connection is refused unless a socket listens at the address, an address in use cannot be bound,
    a datagram may be dropped where others wait, and on a host with faults every call may fail and a read
    may be short; triples \<open>runs\<close> for programs that own descriptors, with a rule for each operation of the
    library and for the scope of an object. A concrete kernel is an instance of the locale.
  \<^item> \<open>Doc_Examples\<close> (\<open>src/doctests\<close>): the programs of the documentation. The socket examples, through UDP, TCP
    and local sockets, are proved correct with the rules of \<open>Loopback\<close>.
  \<^item> \<open>Tun_Device\<close> (\<open>util/tun.cc\<close>), \<open>Hexdump\<close> and \<open>Timestamp\<close> (\<open>util/util.cc\<close>), \<open>TCP_Header_Text\<close>
    (\<open>TCPHeader::to_string\<close>, \<open>summary\<close>): opening a device, the printed page against a description of it row by
    row, monotone time stamps, and printed headers that determine the header.
  \<^item> \<open>Random_Generator\<close> (\<open>get_random_generator\<close> of \<open>util/util.cc\<close>): the seeding of the Mersenne twister, with
    \<open>std::seed_seq\<close> and \<open>std::mt19937\<close> as the C++ standard defines them and the random device, which may throw, as a parameter.
  \<^item> This theory: a segment sent through one UDP socket and received by another.

  \<^bold>\<open>Contracts of the environment.\<close> What the code relies on of the kernel and the resolver is stated as named
  hypotheses (\<open>writev_contract\<close>, \<open>read_contract\<close>, \<open>counts_closes\<close>, \<open>poll_contract\<close>, \<open>getsockopt_contract\<close>,
  \<open>accept_contract\<close>, \<open>recvfrom_contract\<close>, \<open>sendmsg_contract\<close>, \<open>connection\<close>, \<open>numeric_resolver\<close>, \<open>steady\<close>,
  \<open>fcntl_contract\<close>, \<open>name_contract\<close>, \<open>closed_by_close_only\<close>, \<open>resolver_sound\<close>, and the locale \<open>loopback\<close>), each the
  documented behaviour of a call. They hold for concrete kernels (\<open>pipe_kernel\<close>, \<open>flag_kernel\<close>,
  \<open>logging_kernel\<close>, \<open>network_kernel\<close>, \<open>network_sockets\<close>, \<open>net_calls\<close>, \<open>net_sockets\<close>) and a concrete resolver
  (\<open>numeric_only\<close>), on which the theorems are applied. Callbacks of the event loop have contracts too:
  \<open>callback_safe\<close> (they release no handle they do not own) and \<open>rule_logs\<close> (they log their run).

  \<^bold>\<open>Termination.\<close> Every loop of the code is a total function, by structural recursion or with a measure (the
  bytes left to write, the fragments left to assemble), so no fuel is needed; only the reading loop of
  \<open>webget\<close> may run forever and is a partial function.

  \<^bold>\<open>Not modelled.\<close> Every function of the library with a body is a definition, save conversions that only cast
  pointers. Left out are: the message a destructor prints; lifetimes of \<open>string_view\<close>s (a view is the bytes it
  shows); allocation failures; format flags of \<open>cout\<close> other than the base, \<open>boolalpha\<close> and the fill character; callbacks of the event loop that add rules to the loop that runs them; how long
  a call that blocks may wait; threads, as the library has none; and the unit tests. Real randomness, the
  resolver, the clock and the kernel are parameters.
\<close>

section \<open>Composition: segments in datagrams\<close>

text \<open>
  Claim C8. A segment travels through two sockets: if \<open>sendto\<close> of the serialized segment returns and
  its datagram is the next one waiting at the receiver, whose \<open>mtu\<close> is large enough, then \<open>recv\<close> gives
  a payload that parses, with the same pseudo-header sum, into a segment with the same header fields
  (and the checksum filled in) and the same data; or \<open>recv\<close> reports an error of the kernel.
\<close>

theorem segment_over_udp:
  assumes "TCPSegment_ok seg"
    and "sum_fits init (4 * unat (th_doff (ts_header seg)) + length (Buffer_str (ts_payload seg)))"
    and "TCPSegment_serialize init seg = Inr l"
    and "mc_heap s (internal_fd d) = Some w" and "sendmsg_contract N (fw_fd w) sent"
    and "UDPSocket_sendto N d destination (BufferViewList_of_list l) s = (Inr (), s')"
    and "mc_heap r (internal_fd d') = Some w'" and "recvfrom_contract N' (fw_fd w') queue"
    and "queue (mc_kernel r) = (snd (last (sent (mc_kernel s'))), src) # others"
    and "unat mtu < 2 ^ 63" and "4 * unat (th_doff (ts_header seg)) + length (Buffer_str (ts_payload seg)) \<le> unat mtu"
  shows "case UDPSocket_recv N' d' mtu r of
      (Inr g, r') \<Rightarrow> (\<exists>seg' ck. TCPSegment_parse (Buffer_of (dg_payload g)) init seg0 = Inr (NoError, seg') \<and>
        ts_header seg' = (ts_header seg)\<lparr>th_cksum := ck\<rparr> \<and> Buffer_str (ts_payload seg') = Buffer_str (ts_payload seg))
    | (Inl e, r') \<Rightarrow> \<exists>errno. e = unix_error ''recvfrom'' errno"
proof -
  let ?wire = "TCPSegment_wire (TCPSegment_checksum init seg) seg" and ?data = "concat (bv_views (BufferViewList_of_list l))"
  have fits: "sum_fits init (length (TCPSegment_wire 0 seg))"
    using assms(2) by (simp add: length_TCPSegment_wire [OF assms(1)])
  have wire: "?data = ?wire"
    using TCPSegment_serialize_eq [OF assms(1), of init] assms(3)
    by (auto simp: BufferViewList_of_list_views BufferList_concatenate_eq)
  have ad: "addressable ?wire"
    using TCPSegment_wire_addressable [of init "TCPSegment_checksum init seg" seg] fits
    by (simp add: length_TCPSegment_wire [OF assms(1)])
  then have "BufferViewList_ok (BufferViewList_of_list l)" unfolding BufferViewList_ok_def wire .
  from sendto_sent [OF assms(4) this assms(5,6)] have sent: "snd (last (sent (mc_kernel s'))) = ?wire"
    unfolding wire by simp
  obtain n err data from1 fromlen k where call:
    "sys_recvfrom N' (fw_fd w') mtu MSG_TRUNC 128 (mc_kernel r) = (((n, err), data, from1, fromlen), k)"
    by (metis prod.exhaust)
  note live = recv_live [OF assms(7,10,8) call] and D = recvfrom_contractD [OF assms(8) call]
  show ?thesis
  proof (cases "n < 0")
    case True
    then show ?thesis using live(1) by simp
  next
    case False
    then have "n = int (length ?wire)" using D(2) assms(9) sent by auto
    then have "n \<le> int (unat mtu)"
      using assms(11) length_TCPSegment_wire [OF assms(1)] by (simp only: of_nat_le_iff)
    then obtain p a r' where pa: "queue (mc_kernel r) = (p, from1) # queue k"
      "UDPSocket_recv N' d' mtu r = (Inr \<lparr>dg_source_address = a, dg_payload = p\<rparr>, r')"
      using live(3) False by auto
    then have "p = ?wire" using assms(9) sent by simp
    then show ?thesis
      using pa(2) TCPSegment_parse_wire [OF assms(1) fits, of seg0] by fastforce
  qed
qed

text \<open>The concrete network carries a segment with the SYN flag and two bytes of data.\<close>

definition sample_segment :: TCPSegment where
  "sample_segment = \<lparr>ts_header = TCPHeader_new\<lparr>th_syn := True\<rparr>, ts_payload = Buffer_of [104, 105]\<rparr>"

theorem segment_over_udp_witness:
  "\<exists>l s'. TCPSegment_serialize 0 sample_segment = Inr l \<and>
    UDPSocket_sendto (network_sockets (2, 2)) (FileDescriptor 0) \<lparr>ad_size = 0, ad_storage = replicate 128 0\<rparr>
      (BufferViewList_of_list l) (one_socket empty_network) = (Inr (), s') \<and>
    (case UDPSocket_recv (network_sockets (2, 2)) (FileDescriptor 0) 1500
        (one_socket (empty_network\<lparr>nw_queue := [(snd (last (nw_sent (mc_kernel s'))), [2, 0])]\<rparr>)) of
       (Inr g, r') \<Rightarrow> \<exists>seg'. TCPSegment_parse (Buffer_of (dg_payload g)) 0 TCPSegment_new = Inr (NoError, seg') \<and>
         Buffer_str (ts_payload seg') = [104, 105]
     | (Inl e, r') \<Rightarrow> \<exists>errno. e = unix_error ''recvfrom'' errno)"
proof -
  let ?N = "network_sockets (2, 2)" and ?s = "one_socket empty_network"
  let ?a = "\<lparr>ad_size = 0, ad_storage = replicate 128 0\<rparr> :: Address"
  have doff: "th_doff TCPHeader_new = 5" by code_simp
  have ok: "TCPSegment_ok sample_segment" by (simp add: TCPSegment_ok_def sample_segment_def addressable_def doff)
  have len: "4 * unat (th_doff (ts_header sample_segment)) + length (Buffer_str (ts_payload sample_segment)) = 22"
    by (simp add: sample_segment_def doff addressable_def)
  have fits: "sum_fits 0 (4 * unat (th_doff (ts_header sample_segment)) + length (Buffer_str (ts_payload sample_segment)))"
    unfolding len by (simp add: sum_fits_def)
  obtain l where l: "TCPSegment_serialize 0 sample_segment = Inr l"
    "BufferList_concatenate l = TCPSegment_wire (TCPSegment_checksum 0 sample_segment) sample_segment"
    using TCPSegment_serialize_eq [OF ok] by blast
  let ?v = "BufferViewList_of_list l"
  have data: "length (concat (bv_views ?v)) = 22"
    using l(2) length_TCPSegment_wire [OF ok] len by (simp add: BufferViewList_of_list_views BufferList_concatenate_eq del: length_concat)
  then have v: "BufferViewList_ok ?v" by (simp add: BufferViewList_ok_def addressable_def del: length_concat)
  have call: "sys_sendmsg ?N 7 dest (BufferViewList_as_iovecs ?v) (mc_kernel ?s) =
      (((22, 0), ()), empty_network\<lparr>nw_sent := [(dest, concat (bv_views ?v))]\<rparr>)" for dest
    using data by (simp add: network_sockets_def iovecs_data one_socket_def empty_network_def Let_def del: length_concat)
  obtain s' where s': "UDPSocket_sendto ?N (FileDescriptor 0) ?a ?v ?s = (Inr (), s')"
    using sendmsg_live [OF network_contracts(2) v call] fd_num_live [OF one_socket_live, of empty_network] data
    by (simp add: UDPSocket_sendto_def bind_def FileDescriptor_register_write_def update_wrapper_def wrapper_at_def
        one_socket_def del: length_concat)
  let ?r = "one_socket (empty_network\<lparr>nw_queue := [(snd (last (nw_sent (mc_kernel s'))), [2, 0])]\<rparr>)"
  have queue: "nw_queue (mc_kernel ?r) = (snd (last (nw_sent (mc_kernel s'))), [2, 0]) # []" by (simp add: one_socket_def)
  have contracts: "sendmsg_contract ?N (fw_fd \<lparr>fw_fd = 7, fw_eof = False, fw_closed = False, fw_read_count = 0, fw_write_count = 0\<rparr>) nw_sent"
    "recvfrom_contract ?N (fw_fd \<lparr>fw_fd = 7, fw_eof = False, fw_closed = False, fw_read_count = 0, fw_write_count = 0\<rparr>) nw_queue"
    by (simp_all only: network_contracts)
  have "Buffer_str (ts_payload sample_segment) = [104, 105]" by (simp add: sample_segment_def addressable_def)
  with segment_over_udp [OF ok fits l(1) one_socket_live contracts(1) s' one_socket_live contracts(2) queue, of 1500 TCPSegment_new]
    l(1) s' len show ?thesis by (fastforce split: sum.splits prod.splits)
qed

end
